(* ===== verification/Prelude.thy ===== *)
theory Prelude
  imports Main "HOL-Library.Word" "HOL-Library.Signed_Division"
begin

text \<open>
  Shared vocabulary of the development: C integers of a 32-bit RISC-V target with their
  conversions written out, results that may fault, bounds-checked memory, C strings and
  the decimal conversions of \<open>printf\<close>. Every component theory imports this one.
\<close>

section \<open>Collections\<close>

named_theorems cint \<open>identities and ranges of the C integer conversions\<close>
named_theorems mem \<open>laws of bounds-checked memory\<close>

section \<open>C integers\<close>

text \<open>
  A C value is an \<open>int\<close>; an assignment or cast to a narrower type applies the
  conversion of that type. \<open>int\<close> and \<open>long\<close> are \<open>s32\<close>, \<open>size_t\<close> and
  \<open>unsigned long\<close> are \<open>u32\<close>, \<open>loff_t\<close>, \<open>time_t\<close> and \<open>int64_t\<close> are \<open>s64\<close>,
  \<open>uint64_t\<close> is \<open>u64\<close>.
\<close>

definition s32 :: "int \<Rightarrow> int" where "s32 x = signed_take_bit 31 x"
definition u32 :: "int \<Rightarrow> int" where "u32 x = take_bit 32 x"
definition s64 :: "int \<Rightarrow> int" where "s64 x = signed_take_bit 63 x"
definition u64 :: "int \<Rightarrow> int" where "u64 x = take_bit 64 x"

lemma s32_id [cint]: "- 2147483648 \<le> x \<Longrightarrow> x < 2147483648 \<Longrightarrow> s32 x = x"
  by (simp add: s32_def signed_take_bit_int_eq_self)

lemma u32_id [cint]: "0 \<le> x \<Longrightarrow> x < 4294967296 \<Longrightarrow> u32 x = x"
  by (simp add: u32_def take_bit_int_eq_self)

lemma s64_id [cint]:
  "- 9223372036854775808 \<le> x \<Longrightarrow> x < 9223372036854775808 \<Longrightarrow> s64 x = x"
  by (simp add: s64_def signed_take_bit_int_eq_self)

lemma u64_id [cint]: "0 \<le> x \<Longrightarrow> x < 18446744073709551616 \<Longrightarrow> u64 x = x"
  by (simp add: u64_def take_bit_int_eq_self)

lemma u32_range: "0 \<le> u32 x" "u32 x < 4294967296"
  using take_bit_int_less_exp [of 32 x] by (simp_all add: u32_def)

lemma s32_range: "- 2147483648 \<le> s32 x" "s32 x < 2147483648"
  using signed_take_bit_int_greater_eq_minus_exp [of 31 x] signed_take_bit_int_less_exp [of 31 x]
  by (simp_all add: s32_def)

lemma u64_range: "0 \<le> u64 x" "u64 x < 18446744073709551616"
  using take_bit_int_less_exp [of 64 x] by (simp_all add: u64_def)

lemma u32_mod: "u32 x = x mod 4294967296"
  by (simp add: u32_def take_bit_eq_mod)

lemma u64_mod: "u64 x = x mod 18446744073709551616"
  by (simp add: u64_def take_bit_eq_mod)

lemma u32_s32: "u32 (s32 x) = u32 x"
  by (simp add: u32_def s32_def take_bit_signed_take_bit)

lemma s32_s32: "s32 (s32 x) = s32 x"
  by (simp add: s32_def)

lemma s32_add_left: "s32 (s32 a + b) = s32 (a + b)"
  unfolding s32_def by (metis signed_take_bit_add signed_take_bit_signed_take_bit min.idem)

lemma s32_add_right: "s32 (b + s32 a) = s32 (b + a)"
  using s32_add_left [of a b] by (simp add: add.commute)

lemma s32_pos_eq_u32: "0 \<le> s32 x \<Longrightarrow> s32 x = u32 x"
  using u32_id [of "s32 x"] s32_range [of x] by (simp add: u32_s32)

text \<open>A positive counter that is decremented and still positive has become smaller.\<close>

lemma s32_countdown: "0 < s32 (c - 1) \<Longrightarrow> u32 (s32 (c - 1)) < u32 c"
proof -
  assume pos: "0 < s32 (c - 1)"
  then have eq: "s32 (c - 1) = u32 (c - 1)" by (intro s32_pos_eq_u32) simp
  have small: "(c - 1) mod 4294967296 < 2147483648"
    using s32_range(2) [of "c - 1"] eq by (simp add: u32_mod)
  have "c mod 4294967296 = ((c - 1) mod 4294967296 + 1) mod 4294967296" by (simp add: mod_add_left_eq)
  moreover have "((c - 1) mod 4294967296 + 1) mod 4294967296 = (c - 1) mod 4294967296 + 1"
    using small by (intro mod_pos_pos_trivial) auto
  ultimately show ?thesis unfolding u32_s32 unfolding u32_mod by linarith
qed

text \<open>C's integer division truncates towards zero: \<open>sdiv\<close> of the library.\<close>

lemma cdiv_bounds:
  assumes "0 < (b::int)"
  shows "\<bar>a\<bar> - b < \<bar>a sdiv b\<bar> * b" and "\<bar>a sdiv b\<bar> * b \<le> \<bar>a\<bar>"
    and "0 \<le> a \<Longrightarrow> 0 \<le> a sdiv b" and "a \<le> 0 \<Longrightarrow> a sdiv b \<le> 0"
proof -
  have eq: "\<bar>a sdiv b\<bar> = \<bar>a\<bar> div b"
    using assms by (simp add: signed_divide_int_def abs_mult sgn_if pos_imp_zdiv_nonneg_iff)
  have "\<bar>a\<bar> = (\<bar>a\<bar> div b) * b + \<bar>a\<bar> mod b" by simp
  moreover have "0 \<le> \<bar>a\<bar> mod b" "\<bar>a\<bar> mod b < b" using assms by simp_all
  ultimately show "\<bar>a\<bar> - b < \<bar>a sdiv b\<bar> * b" "\<bar>a sdiv b\<bar> * b \<le> \<bar>a\<bar>"
    unfolding eq by linarith+
  show "0 \<le> a \<Longrightarrow> 0 \<le> a sdiv b" "a \<le> 0 \<Longrightarrow> a sdiv b \<le> 0"
    using assms by (auto simp: signed_divide_int_def sgn_if pos_imp_zdiv_nonneg_iff)
qed

section \<open>Results that may fault\<close>

text \<open>
  Errors the code itself reports are return values (negative errno, \<open>-1\<close>, \<open>NULL\<close>).
  A \<open>fault\<close> is behaviour the C program must never show: an access outside an
  object, or taking a lock the same thread already holds.
\<close>

datatype fault = OutOfBounds | SelfDeadlock | UnlockNotHeld

type_synonym 'a res = "fault + 'a"

definition and_then :: "('e + 'a) \<Rightarrow> ('a \<Rightarrow> 'e + 'b) \<Rightarrow> 'e + 'b" where
  "and_then r f = (case r of Inl e \<Rightarrow> Inl e | Inr x \<Rightarrow> f x)"

lemma and_then_simps [simp]:
  "and_then (Inl e) f = Inl e"
  "and_then (Inr x) f = f x"
  by (simp_all add: and_then_def)

lemma and_then_Inr: "and_then r f = Inr y \<longleftrightarrow> (\<exists>x. r = Inr x \<and> f x = Inr y)"
  by (cases r) simp_all

text \<open>errno values the code names.\<close>

definition EINVAL :: int where "EINVAL = 22"
definition ENOMEM :: int where "ENOMEM = 12"
definition EAGAIN :: int where "EAGAIN = 11"
definition EFAULT :: int where "EFAULT = 14"
definition ENOSPC :: int where "ENOSPC = 28"
definition EINTR :: int where "EINTR = 4"

lemmas errno_defs = EINVAL_def ENOMEM_def EAGAIN_def EFAULT_def ENOSPC_def EINTR_def

section \<open>Bounds-checked memory\<close>

text \<open>
  An array of bytes is a \<open>char list\<close>. \<open>mem_read\<close> and \<open>mem_write\<close> are accesses of a
  whole range at an offset; a range that leaves the object is a fault.
\<close>

definition mem_read :: "char list \<Rightarrow> int \<Rightarrow> int \<Rightarrow> char list res" where
  "mem_read m off n =
     (if 0 \<le> off \<and> 0 \<le> n \<and> off + n \<le> int (length m)
      then Inr (take (nat n) (drop (nat off) m)) else Inl OutOfBounds)"

definition overlay :: "'a list \<Rightarrow> nat \<Rightarrow> 'a list \<Rightarrow> 'a list" where
  "overlay m off bs = take off m @ bs @ drop (off + length bs) m"

definition mem_write :: "char list \<Rightarrow> int \<Rightarrow> char list \<Rightarrow> char list res" where
  "mem_write m off bs =
     (if 0 \<le> off \<and> off + int (length bs) \<le> int (length m)
      then Inr (overlay m (nat off) bs) else Inl OutOfBounds)"

lemma length_overlay [simp]: "off + length bs \<le> length m \<Longrightarrow> length (overlay m off bs) = length m"
  by (simp add: overlay_def)

lemma overlay_Nil [simp]: "overlay m off [] = m"
  by (simp add: overlay_def)

lemma overlay_read_back [mem]:
  "off + length bs \<le> length m \<Longrightarrow> take (length bs) (drop off (overlay m off bs)) = bs"
  by (simp add: overlay_def)

lemma overlay_take_before [mem]:
  "k \<le> off \<Longrightarrow> off \<le> length m \<Longrightarrow> take k (overlay m off bs) = take k m"
  by (simp add: overlay_def min_def)

lemma overlay_drop_after [mem]:
  "off \<le> length m \<Longrightarrow> off + length bs \<le> k \<Longrightarrow> drop k (overlay m off bs) = drop k m"
  by (simp add: overlay_def)

lemma overlay_take:
  assumes "p \<le> l" "l \<le> length m" "p + length bs \<le> length m"
  shows "take (max l (p + length bs)) (overlay m p bs) = overlay (take l m) p bs"
proof -
  have "max l (p + length bs) - p - length bs = l - (p + length bs)" by simp
  moreover have "p \<le> max l (p + length bs)" "length bs \<le> max l (p + length bs) - p" by simp_all
  ultimately show ?thesis
    using assms by (simp add: overlay_def drop_take min_absorb2 min_absorb1 del: max.bounded_iff)
qed

lemma overlay_nth:
  "off + length bs \<le> length m \<Longrightarrow> i < length m \<Longrightarrow>
   overlay m off bs ! i = (if i < off then m ! i else if i < off + length bs then bs ! (i - off) else m ! i)"
  by (auto simp: overlay_def nth_append min_def)

lemma mem_read_ok [mem]:
  "0 \<le> off \<Longrightarrow> 0 \<le> n \<Longrightarrow> off + n \<le> int (length m) \<Longrightarrow>
   mem_read m off n = Inr (take (nat n) (drop (nat off) m))"
  by (simp add: mem_read_def)

lemma mem_write_ok [mem]:
  "0 \<le> off \<Longrightarrow> off + int (length bs) \<le> int (length m) \<Longrightarrow>
   mem_write m off bs = Inr (overlay m (nat off) bs)"
  by (simp add: mem_write_def)

lemma mem_write_Nil [simp]: "mem_write m 0 [] = Inr m"
  by (simp add: mem_write_def)

lemma mem_write_Inr:
  "mem_write m off bs = Inr m' \<longleftrightarrow>
     0 \<le> off \<and> off + int (length bs) \<le> int (length m) \<and> m' = overlay m (nat off) bs"
  by (auto simp: mem_write_def)

lemma mem_write_length: "mem_write m off bs = Inr m' \<Longrightarrow> length m' = length m"
  by (auto simp: mem_write_Inr)

section \<open>C strings\<close>

definition NUL :: char where "NUL = CHR 0x00"
definition NL :: char where "NL = CHR 0x0A"

definition c_str :: "char list \<Rightarrow> string" where
  "c_str m = takeWhile (\<lambda>c. c \<noteq> NUL) m"

lemma c_str_Nil [simp]: "c_str [] = []"
  by (simp add: c_str_def)

lemma c_str_app: "NUL \<notin> set s \<Longrightarrow> c_str (s @ NUL # r) = s"
  by (simp add: c_str_def takeWhile_append)

lemma c_str_upto: "c_str (xs @ NUL # ys) = c_str xs"
  by (induction xs) (simp_all add: c_str_def)

lemma c_str_no_nul: "NUL \<notin> set (c_str m)"
  by (auto simp: c_str_def dest: set_takeWhileD)

text \<open>\<open>strstr(hay, needle) != NULL\<close> on strings without their terminator.\<close>

fun strstr :: "string \<Rightarrow> string \<Rightarrow> bool" where
  "strstr [] needle = (needle = [])"
| "strstr (c # cs) needle = (take (length needle) (c # cs) = needle \<or> strstr cs needle)"

lemma strstr_iff: "strstr hay needle \<longleftrightarrow> (\<exists>xs ys. hay = xs @ needle @ ys)"
proof (induction hay)
  case Nil
  then show ?case by auto
next
  case (Cons c cs)
  show ?case
  proof
    assume "strstr (c # cs) needle"
    then consider "take (length needle) (c # cs) = needle" | "strstr cs needle" by auto
    then show "\<exists>xs ys. c # cs = xs @ needle @ ys"
    proof cases
      case 1
      then have "c # cs = [] @ needle @ drop (length needle) (c # cs)"
        by (metis append_Nil append_take_drop_id)
      then show ?thesis by blast
    next
      case 2
      with Cons.IH obtain xs ys where "cs = xs @ needle @ ys" by blast
      then have "c # cs = (c # xs) @ needle @ ys" by simp
      then show ?thesis by blast
    qed
  next
    assume "\<exists>xs ys. c # cs = xs @ needle @ ys"
    then obtain xs ys where eq: "c # cs = xs @ needle @ ys" by blast
    show "strstr (c # cs) needle"
    proof (cases xs)
      case Nil
      with eq have "take (length needle) (c # cs) = needle" by (metis append_Nil append_eq_conv_conj)
      then show ?thesis by simp
    next
      case (Cons x xs')
      with eq have "cs = xs' @ needle @ ys" by simp
      with Cons.IH show ?thesis by auto
    qed
  qed
qed

text \<open>
  \<open>snprintf\<close> of \<open>s\<close> into a buffer of \<open>n\<close> bytes: at most \<open>n - 1\<close> bytes and the
  terminator are stored; the return value is the length of \<open>s\<close>.
\<close>

definition snprintf_stored :: "nat \<Rightarrow> string \<Rightarrow> string" where
  "snprintf_stored n s = take (n - 1) s"

section \<open>Decimal output\<close>

definition digit :: "nat \<Rightarrow> char" where "digit n = char_of (48 + n)"

lemma digit_chars:
  "digit 0 = CHR ''0''" "digit 1 = CHR ''1''" "digit (Suc 0) = CHR ''1''" "digit 2 = CHR ''2''" "digit 3 = CHR ''3''" "digit 4 = CHR ''4''"
  "digit 5 = CHR ''5''" "digit 6 = CHR ''6''" "digit 7 = CHR ''7''" "digit 8 = CHR ''8''" "digit 9 = CHR ''9''"
  by (simp_all add: digit_def char_of_eq_iff)

fun dec_nat :: "nat \<Rightarrow> string" where
  "dec_nat n = (if n < 10 then [digit n] else dec_nat (n div 10) @ [digit (n mod 10)])"

declare dec_nat.simps [simp del]

definition dec_int :: "int \<Rightarrow> string" where
  "dec_int i = (if i < 0 then CHR ''-'' # dec_nat (nat (- i)) else dec_nat (nat i))"

text \<open>The reader used to state that the output determines the number.\<close>

fun undec_nat :: "nat \<Rightarrow> string \<Rightarrow> nat" where
  "undec_nat a [] = a"
| "undec_nat a (c # cs) = undec_nat (10 * a + (of_char c - 48)) cs"

definition undec_int :: "string \<Rightarrow> int" where
  "undec_int s = (case s of [] \<Rightarrow> 0
     | c # cs \<Rightarrow> if c = CHR ''-'' then - int (undec_nat 0 cs) else int (undec_nat 0 s))"

lemma undec_nat_append: "undec_nat a (xs @ ys) = undec_nat (undec_nat a xs) ys"
  by (induction xs arbitrary: a) auto

lemma of_char_digit: "n < 10 \<Longrightarrow> (of_char (digit n) :: nat) = 48 + n"
  by (simp add: digit_def)

lemma undec_dec_nat: "undec_nat 0 (dec_nat n) = n"
proof (induction n rule: dec_nat.induct)
  case (1 n)
  show ?case
  proof (cases "n < 10")
    case True
    then show ?thesis by (simp add: dec_nat.simps [of n] of_char_digit)
  next
    case False
    with 1 have "undec_nat 0 (dec_nat (n div 10)) = n div 10" by simp
    with False show ?thesis
      by (subst dec_nat.simps) (simp add: undec_nat_append of_char_digit)
  qed
qed

lemma dec_nat_digits: "c \<in> set (dec_nat n) \<Longrightarrow> \<exists>d < 10. c = digit d"
proof (induction n rule: dec_nat.induct)
  case (1 n)
  show ?case
  proof (cases "n < 10")
    case True
    with "1.prems" show ?thesis by (auto simp: dec_nat.simps [of n])
  next
    case False
    with "1.prems" have "c \<in> set (dec_nat (n div 10)) \<or> c = digit (n mod 10)"
      by (auto simp: dec_nat.simps [of n])
    then show ?thesis
    proof
      assume "c = digit (n mod 10)"
      then show ?thesis by (intro exI [of _ "n mod 10"]) simp
    qed (use "1.IH" False in blast)
  qed
qed

lemma digit_neq: "d < 10 \<Longrightarrow> digit d \<noteq> CHR ''-''" "d < 10 \<Longrightarrow> digit d \<noteq> NUL"
    "d < 10 \<Longrightarrow> digit d \<noteq> NL"
  using of_char_digit [of d] by (auto simp: NUL_def NL_def)

lemma dec_nat_nonempty: "dec_nat n \<noteq> []"
  by (subst dec_nat.simps) simp

lemma undec_dec_int: "undec_int (dec_int i) = i"
proof (cases "i < 0")
  case True
  then show ?thesis by (simp add: dec_int_def undec_int_def undec_dec_nat)
next
  case False
  obtain c cs where eq: "dec_nat (nat i) = c # cs"
    using dec_nat_nonempty by (meson list.exhaust)
  then have "c \<in> set (dec_nat (nat i))" by simp
  then obtain d where "d < 10" "c = digit d" using dec_nat_digits by blast
  then have "c \<noteq> CHR ''-''" using digit_neq(1) by simp
  with False eq show ?thesis
    using undec_dec_nat [of "nat i"] by (simp add: dec_int_def undec_int_def)
qed

lemma dec_int_no_nul: "NUL \<notin> set (dec_int i)"
proof -
  have "NUL \<notin> set (dec_nat n)" for n
    by (metis dec_nat_digits digit_neq(2))
  then show ?thesis by (simp add: dec_int_def) (simp add: NUL_def)
qed

lemma length_dec_nat: "n < 10 ^ k \<Longrightarrow> 0 < k \<Longrightarrow> length (dec_nat n) \<le> k"
proof (induction n arbitrary: k rule: dec_nat.induct)
  case (1 n)
  show ?case
  proof (cases "n < 10")
    case True
    with 1 show ?thesis by (subst dec_nat.simps) simp
  next
    case False
    obtain k' where k': "k = Suc k'" using "1.prems" by (cases k) auto
    have "0 < k'"
    proof (rule ccontr)
      assume "\<not> 0 < k'"
      with k' "1.prems" False show False by simp
    qed
    moreover have "n div 10 < 10 ^ k'"
      using "1.prems"(1) unfolding k' by (simp add: less_mult_imp_div_less mult.commute)
    ultimately have "length (dec_nat (n div 10)) \<le> k'" using "1.IH" [OF False] by blast
    with False show ?thesis by (simp add: dec_nat.simps [of n] k')
  qed
qed

lemma length_dec_int_s32: "length (dec_int (s32 i)) \<le> 11"
proof -
  have "nat \<bar>s32 i\<bar> < 10 ^ 10" using s32_range [of i] by simp
  then show ?thesis
    using length_dec_nat [of "nat (s32 i)" 10] length_dec_nat [of "nat (- s32 i)" 10] s32_range [of i]
    by (auto simp: dec_int_def)
qed

section \<open>Polling loops\<close>

text \<open>
  A loop that samples an outside quantity (a clock, a register) until a test holds. \<open>P i\<close> is
  the test on the \<open>i\<close>-th sample; a loop whose test never holds does not return (\<open>None\<close>).
\<close>

partial_function (option) poll_until :: "(nat \<Rightarrow> bool) \<Rightarrow> nat \<Rightarrow> nat option" where
  "poll_until test i = (if test i then Some i else poll_until test (Suc i))"

lemma poll_until_first:
  assumes "i \<le> k" "P k" "\<And>j. i \<le> j \<Longrightarrow> j < k \<Longrightarrow> \<not> P j"
  shows "poll_until P i = Some k"
  using assms
proof (induction "k - i" arbitrary: i)
  case 0
  then show ?case by (simp add: poll_until.simps)
next
  case (Suc n)
  then have "poll_until P (Suc i) = Some k" by simp
  with Suc show ?case by (simp add: poll_until.simps [of P i])
qed

lemma poll_until_SomeD:
  assumes "poll_until P i = Some k"
  shows "i \<le> k \<and> P k \<and> (\<forall>j. i \<le> j \<and> j < k \<longrightarrow> \<not> P j)"
proof (rule poll_until.raw_induct [where P = "\<lambda>P i k. i \<le> k \<and> P k \<and> (\<forall>j. i \<le> j \<and> j < k \<longrightarrow> \<not> P j)", OF _ assms])
  fix f P i k
  assume IH: "\<And>P i k. f P i = Some k \<Longrightarrow> i \<le> k \<and> P k \<and> (\<forall>j. i \<le> j \<and> j < k \<longrightarrow> \<not> P j)"
    and eq: "(if P i then Some i else f P (Suc i)) = Some k"
  show "i \<le> k \<and> P k \<and> (\<forall>j. i \<le> j \<and> j < k \<longrightarrow> \<not> P j)"
  proof (cases "P i")
    case False
    with eq have "Suc i \<le> k \<and> P k \<and> (\<forall>j. Suc i \<le> j \<and> j < k \<longrightarrow> \<not> P j)" by (intro IH) simp
    with False show ?thesis by (metis Suc_leD Suc_leI le_neq_implies_less)
  qed (use eq in auto)
qed

lemma poll_until_returns:
  assumes "i \<le> k" "P k"
  obtains j where "poll_until P i = Some j" "j \<le> k"
proof -
  define j where "j = (LEAST j. i \<le> j \<and> P j)"
  have "i \<le> j \<and> P j" unfolding j_def by (rule LeastI [of _ k]) (use assms in simp)
  moreover have "\<not> P l" if "i \<le> l" "l < j" for l
    using that not_less_Least [of l "\<lambda>j. i \<le> j \<and> P j"] by (auto simp: j_def)
  moreover have "j \<le> k" unfolding j_def by (rule Least_le) (use assms in simp)
  ultimately show thesis by (intro that [of j] poll_until_first) auto
qed

end
