(* ===== verification/KModule.thy ===== *)
theory KModule
  imports Prelude
begin

text \<open>
  What every kernel module of the repository has in common: an init function that acquires
  kernel resources one after the other and gives back, on an error, what it had already
  taken, and an exit function. A run of either is the list of its acquiring and releasing
  calls. The locale is the contract the module loader relies on.
\<close>

section \<open>Resources and calls\<close>

datatype kres =
    KPage | KChrdevRegion | KCdev | KClass | KDevice
  | KIrq int | KRootDevice | KDevFile
  | KPlatformDevice | KPlatformDriver | KLookupTable | KTimer | KDebugfs

datatype kcall = Acq kres | Rel kres

text \<open>
  The kernel's view of a run: the resources held, newest first. A release is accepted only
  for the newest resource, so an accepted run tears down in reverse order, and releases
  nothing twice and nothing it does not hold.
\<close>

fun replay :: "kcall list \<Rightarrow> kres list \<Rightarrow> kres list option" where
  "replay [] h = Some h"
| "replay (Acq r # cs) h = replay cs (r # h)"
| "replay (Rel r # cs) h =
     (case h of [] \<Rightarrow> None | x # h' \<Rightarrow> if x = r then replay cs h' else None)"

lemma replay_append:
  "replay (xs @ ys) h = (case replay xs h of None \<Rightarrow> None | Some h' \<Rightarrow> replay ys h')"
  by (induction xs h rule: replay.induct) (auto split: list.splits)

text \<open>Pointers that may carry an error code (\<open>ERR_PTR\<close>); the code is a negative errno.\<close>

datatype kptr = Ptr | ErrPtr int

definition IS_ERR :: "kptr \<Rightarrow> bool" where "IS_ERR p = (case p of Ptr \<Rightarrow> False | ErrPtr _ \<Rightarrow> True)"
definition PTR_ERR :: "kptr \<Rightarrow> int" where "PTR_ERR p = (case p of Ptr \<Rightarrow> 0 | ErrPtr e \<Rightarrow> e)"

text \<open>The documented range of an error pointer.\<close>

definition kptr_doc :: "kptr \<Rightarrow> bool" where
  "kptr_doc p = (case p of Ptr \<Rightarrow> True | ErrPtr e \<Rightarrow> - 4095 \<le> e \<and> e < 0)"

lemma kptr_simps [simp]:
  "IS_ERR Ptr = False" "IS_ERR (ErrPtr e) = True" "PTR_ERR (ErrPtr e) = e"
  "kptr_doc Ptr = True" "kptr_doc (ErrPtr e) = (- 4095 \<le> e \<and> e < 0)"
  by (simp_all add: IS_ERR_def PTR_ERR_def kptr_doc_def)

lemma IS_ERR_E: "IS_ERR p \<Longrightarrow> kptr_doc p \<Longrightarrow> PTR_ERR p < 0"
  by (cases p) auto

section \<open>The loader's contract\<close>

text \<open>
  \<open>insmod\<close> runs the init function; if it returns 0 the module stays, and a later \<open>rmmod\<close>
  runs the exit function. \<open>cycles\<close> is the history of a module that is loaded again and
  again, each time under another behaviour of the kernel calls it makes.
\<close>

definition load_unload :: "('e \<Rightarrow> int \<times> kcall list) \<Rightarrow> ('e \<Rightarrow> kcall list) \<Rightarrow> 'e \<Rightarrow> kcall list" where
  "load_unload m_init m_exit e =
     snd (m_init e) @ (if fst (m_init e) = 0 then m_exit e else [])"

definition cycles :: "('e \<Rightarrow> int \<times> kcall list) \<Rightarrow> ('e \<Rightarrow> kcall list) \<Rightarrow> 'e list \<Rightarrow> kcall list" where
  "cycles m_init m_exit es = concat (map (load_unload m_init m_exit) es)"

locale kernel_module =
  fixes m_init :: "'e \<Rightarrow> int \<times> kcall list"
    and m_exit :: "'e \<Rightarrow> kcall list"
    and env_ok :: "'e \<Rightarrow> bool"
  assumes rollback: "env_ok e \<Longrightarrow> fst (m_init e) \<noteq> 0 \<Longrightarrow> replay (snd (m_init e)) h = Some h"
    and teardown: "env_ok e \<Longrightarrow> fst (m_init e) = 0 \<Longrightarrow> replay (snd (m_init e) @ m_exit e) h = Some h"
begin

lemma load_unload_balanced: "env_ok e \<Longrightarrow> replay (load_unload m_init m_exit e) h = Some h"
  by (simp add: load_unload_def rollback teardown)

lemma cycles_balanced:
  "(\<And>e. e \<in> set es \<Longrightarrow> env_ok e) \<Longrightarrow> replay (cycles m_init m_exit es) h = Some h"
proof (induction es)
  case Nil
  then show ?case by (simp add: cycles_def)
next
  case (Cons e es)
  then show ?case
    using load_unload_balanced [of e h] by (simp add: cycles_def replay_append)
qed

end

end
