(* ===== verification/Chardev.thy ===== *)
theory Chardev
  imports KModule
begin

text \<open>
  The character device of \<open>modules/chardev.c\<close>: one page of kernel memory read, written,
  sought and mapped by user space, and the init and exit functions of the module.
  Diagnostics (\<open>pr_info\<close>, \<open>pr_err\<close>) are left out. The kernel's copy and seek helpers are
  the fields of \<open>kapi\<close>; \<open>kapi_doc\<close> is their documented behaviour.
\<close>

section \<open>State and kernel interface\<close>

definition PAGE_SIZE :: int where "PAGE_SIZE = 4096"
definition BUFFER_SIZE :: int where "BUFFER_SIZE = PAGE_SIZE"

record chardev =
  kernel_buffer :: "char list"
  data_len :: int
  dev_mutex :: bool

text \<open>
  \<open>copy_to_user n\<close> is the number of bytes that could not be copied; \<open>copy_from_user src n\<close>
  that number and what ends up in the destination's \<open>n\<close> bytes; \<open>fixed_size_llseek\<close> takes
  the file's position, the offset, the origin and the size to the result and the new
  position.
\<close>

record kapi =
  copy_to_user :: "int \<Rightarrow> int"
  copy_from_user :: "char list \<Rightarrow> int \<Rightarrow> int \<times> char list"
  fixed_size_llseek :: "int \<Rightarrow> int \<Rightarrow> int \<Rightarrow> int \<Rightarrow> int \<times> int"

definition SEEK_SET :: int where "SEEK_SET = 0"

definition copy_to_user_doc :: "kapi \<Rightarrow> bool" where
  "copy_to_user_doc K \<longleftrightarrow> (\<forall>n. 0 \<le> n \<longrightarrow> 0 \<le> copy_to_user K n \<and> copy_to_user K n \<le> n)"

definition copy_from_user_doc :: "kapi \<Rightarrow> bool" where
  "copy_from_user_doc K \<longleftrightarrow> (\<forall>src n. 0 \<le> n \<and> n \<le> int (length src) \<longrightarrow>
     (\<exists>u. 0 \<le> u \<and> u \<le> n \<and>
       copy_from_user K src n = (u, take (nat (n - u)) src @ replicate (nat u) NUL)))"

definition llseek_doc :: "kapi \<Rightarrow> bool" where
  "llseek_doc K \<longleftrightarrow> (\<forall>pos off whence size. 0 \<le> pos \<and> 0 \<le> size \<longrightarrow>
     (let (r, p) = fixed_size_llseek K pos off whence size in
       (if r < 0 then p = pos else r \<le> size \<and> p = r) \<and>
       (whence = SEEK_SET \<and> 0 \<le> off \<and> off \<le> size \<longrightarrow> r = off)))"

definition kapi_doc :: "kapi \<Rightarrow> bool" where
  "kapi_doc K \<longleftrightarrow> copy_to_user_doc K \<and> copy_from_user_doc K \<and> llseek_doc K"

definition mutex_lock :: "chardev \<Rightarrow> chardev res" where
  "mutex_lock d = (if dev_mutex d then Inl SelfDeadlock else Inr (d\<lparr>dev_mutex := True\<rparr>))"

definition mutex_unlock :: "chardev \<Rightarrow> chardev res" where
  "mutex_unlock d = (if dev_mutex d then Inr (d\<lparr>dev_mutex := False\<rparr>) else Inl UnlockNotHeld)"

section \<open>File operations\<close>

definition dev_open :: "chardev \<Rightarrow> int \<times> chardev" where "dev_open d = (0, d)"
definition dev_release :: "chardev \<Rightarrow> int \<times> chardev" where "dev_release d = (0, d)"

definition dev_llseek :: "kapi \<Rightarrow> chardev \<Rightarrow> int \<Rightarrow> int \<Rightarrow> int \<Rightarrow> (int \<times> int \<times> chardev) res" where
  "dev_llseek K d f_pos offset whence =
     and_then (mutex_lock d) (\<lambda>d.
     let (new_pos, f_pos') = fixed_size_llseek K f_pos offset whence (data_len d) in
     and_then (mutex_unlock d) (\<lambda>d.
     Inr (new_pos, f_pos', d)))"

text \<open>
  \<open>dev_read\<close> returns its C result, the bytes stored in the user's buffer, the new
  \<open>*pos\<close> and the device.
\<close>

definition dev_read :: "kapi \<Rightarrow> chardev \<Rightarrow> int \<Rightarrow> int \<Rightarrow> (int \<times> char list \<times> int \<times> chardev) res" where
  "dev_read K d count pos =
     and_then (mutex_lock d) (\<lambda>d.
     if data_len d \<le> pos then
       and_then (mutex_unlock d) (\<lambda>d. Inr (0, [], pos, d))
     else
       let available_data = s32 (data_len d - pos);
           bytes_to_read = s32 (min (u32 count) (u32 available_data)) in
       and_then (mem_read (kernel_buffer d) pos bytes_to_read) (\<lambda>src.
       let bytes_read = s32 (bytes_to_read - copy_to_user K bytes_to_read);
           pos' = s64 (pos + bytes_read) in
       and_then (mutex_unlock d) (\<lambda>d.
       Inr (bytes_read, take (nat bytes_read) src, pos', d))))"

definition dev_write :: "kapi \<Rightarrow> chardev \<Rightarrow> char list \<Rightarrow> int \<Rightarrow> int \<Rightarrow> (int \<times> int \<times> chardev) res" where
  "dev_write K d buf count pos =
     and_then (mutex_lock d) (\<lambda>d.
     if BUFFER_SIZE \<le> pos then
       and_then (mutex_unlock d) (\<lambda>d. Inr (- ENOSPC, pos, d))
     else
       let bytes_to_write = s32 (min (u32 count) (u32 (BUFFER_SIZE - pos))) in
       if bytes_to_write = 0 then
         and_then (mutex_unlock d) (\<lambda>d. Inr (- ENOSPC, pos, d))
       else
         let (uncopied, placed) = copy_from_user K buf bytes_to_write in
         and_then (mem_write (kernel_buffer d) pos placed) (\<lambda>kb.
         let bytes_written = s32 (bytes_to_write - uncopied);
             pos' = s64 (pos + bytes_written);
             d = d\<lparr>kernel_buffer := kb\<rparr>;
             d = (if data_len d < pos' then d\<lparr>data_len := min (u32 pos') (u32 BUFFER_SIZE)\<rparr> else d) in
         and_then (mutex_unlock d) (\<lambda>d.
         Inr (bytes_written, pos', d))))"

text \<open>Mapping: the \<open>vm_area_struct\<close> fields used, and the mapping it receives.\<close>

datatype vm_flag = VM_IO | VM_DONTEXPAND | VM_DONTDUMP

record vma =
  vm_start :: int
  vm_end :: int
  vm_pgoff :: int
  vm_page_prot :: int
  vm_flags :: "vm_flag list"
  vm_mapping :: "(int \<times> int \<times> int \<times> int) option"

definition remap_mm :: "(int \<Rightarrow> int \<Rightarrow> int \<Rightarrow> int \<Rightarrow> int) \<Rightarrow> int \<Rightarrow> vma \<Rightarrow> int \<times> vma" where
  "remap_mm remap_pfn_range pfn v =
     (let size = u32 (vm_end v - vm_start v) in
      if PAGE_SIZE < size then (- EINVAL, v)
      else if vm_pgoff v \<noteq> 0 then (- EINVAL, v)
      else
        let prot = vm_page_prot v;
            v = v\<lparr>vm_flags := vm_flags v @ [VM_IO, VM_DONTEXPAND, VM_DONTDUMP]\<rparr> in
        if remap_pfn_range (vm_start v) pfn size prot \<noteq> 0 then (- EAGAIN, v)
        else (0, v\<lparr>vm_mapping := Some (vm_start v, pfn, size, prot)\<rparr>))"

section \<open>Module init and exit\<close>

text \<open>The answers of the kernel calls \<open>mychar_init\<close> makes.\<close>

record chr_env =
  get_free_page :: bool
  alloc_chrdev_region :: int
  cdev_add :: int
  class_create :: kptr
  device_create :: kptr

definition chr_env_doc :: "chr_env \<Rightarrow> bool" where
  "chr_env_doc e \<longleftrightarrow> alloc_chrdev_region e \<le> 0 \<and> cdev_add e \<le> 0 \<and>
     kptr_doc (class_create e) \<and> kptr_doc (device_create e)"

definition chardev_static :: chardev where
  "chardev_static = \<lparr>kernel_buffer = [], data_len = 0, dev_mutex = False\<rparr>"

definition fail_cdev :: "kcall list" where "fail_cdev = [Rel KChrdevRegion, Rel KPage]"
definition fail_class :: "kcall list" where "fail_class = Rel KCdev # fail_cdev"
definition fail_device :: "kcall list" where "fail_device = Rel KClass # fail_class"

definition mychar_init :: "chr_env \<Rightarrow> int \<times> kcall list \<times> chardev" where
  "mychar_init e =
     (if \<not> get_free_page e then (- ENOMEM, [], chardev_static)
      else
        let d = chardev_static\<lparr>kernel_buffer := replicate (nat PAGE_SIZE) NUL\<rparr>;
            c = [Acq KPage] in
        if alloc_chrdev_region e < 0 then (alloc_chrdev_region e, c @ [Rel KPage], d)
        else let c = c @ [Acq KChrdevRegion] in
        if cdev_add e < 0 then (cdev_add e, c @ fail_cdev, d)
        else let c = c @ [Acq KCdev] in
        if IS_ERR (class_create e) then (PTR_ERR (class_create e), c @ fail_class, d)
        else let c = c @ [Acq KClass] in
        if IS_ERR (device_create e) then (PTR_ERR (device_create e), c @ fail_device, d)
        else (0, c @ [Acq KDevice], d))"

definition mychar_exit :: "kcall list" where
  "mychar_exit = [Rel KDevice, Rel KClass, Rel KCdev, Rel KChrdevRegion, Rel KPage]"

definition chardev_init :: "chr_env \<Rightarrow> int \<times> kcall list" where
  "chardev_init e = (case mychar_init e of (r, c, _) \<Rightarrow> (r, c))"

lemmas mychar_defs = mychar_init_def mychar_exit_def chardev_init_def fail_cdev_def
  fail_class_def fail_device_def

interpretation chr: kernel_module chardev_init "\<lambda>_. mychar_exit" chr_env_doc
proof unfold_locales
  fix e h
  assume "chr_env_doc e" "fst (chardev_init e) \<noteq> 0"
  then show "replay (snd (chardev_init e)) h = Some h"
    by (auto simp: mychar_defs Let_def split: if_splits)
next
  fix e h
  assume doc: "chr_env_doc e" and ok: "fst (chardev_init e) = 0"
  have "PTR_ERR (class_create e) < 0" if "IS_ERR (class_create e)"
    using doc that by (auto simp: chr_env_doc_def intro: IS_ERR_E)
  moreover have "PTR_ERR (device_create e) < 0" if "IS_ERR (device_create e)"
    using doc that by (auto simp: chr_env_doc_def intro: IS_ERR_E)
  ultimately show "replay (snd (chardev_init e) @ mychar_exit) h = Some h"
    using ok by (auto simp: mychar_defs Let_def ENOMEM_def split: if_splits)
qed

end
