(* ===== verification/ChardevFile.thy ===== *)
theory ChardevFile
  imports Chardev
begin

text \<open>
  Correctness of the file operations of \<open>modules/chardev.c\<close>: the device invariant, what each
  operation does on each branch, and the refinement of a bounded byte file shared by any
  number of open files.
\<close>

section \<open>Invariant and branches\<close>

definition dev_inv :: "chardev \<Rightarrow> bool" where
  "dev_inv d \<longleftrightarrow> int (length (kernel_buffer d)) = PAGE_SIZE \<and>
     0 \<le> data_len d \<and> data_len d \<le> PAGE_SIZE \<and> \<not> dev_mutex d"

text \<open>What the device holds as a file.\<close>

definition file_content :: "chardev \<Rightarrow> char list" where
  "file_content d = take (nat (data_len d)) (kernel_buffer d)"

lemma dev_inv_init: "get_free_page e \<Longrightarrow> mychar_init e = (r, c, d) \<Longrightarrow> dev_inv d \<and> file_content d = []"
  by (auto simp: mychar_defs Let_def dev_inv_def file_content_def chardev_static_def PAGE_SIZE_def
      split: if_splits)

lemma length_file_content: "dev_inv d \<Longrightarrow> int (length (file_content d)) = data_len d"
  by (auto simp: dev_inv_def file_content_def PAGE_SIZE_def)

lemma unlock_lock:
  "\<not> dev_mutex d \<Longrightarrow> mutex_lock d = Inr (d\<lparr>dev_mutex := True\<rparr>)"
  "dev_mutex d \<Longrightarrow> mutex_unlock d = Inr (d\<lparr>dev_mutex := False\<rparr>)"
  by (simp_all add: mutex_lock_def mutex_unlock_def)

lemma mutex_same: "\<not> dev_mutex d \<Longrightarrow> d\<lparr>dev_mutex := False\<rparr> = d"
  by simp

lemma copy_from_user_docE:
  assumes "copy_from_user_doc K" "0 \<le> n" "n \<le> int (length src)"
  obtains u where "0 \<le> u" "u \<le> n"
    "copy_from_user K src n = (u, take (nat (n - u)) src @ replicate (nat u) NUL)"
  using assms unfolding copy_from_user_doc_def by blast

lemma llseek_docD:
  assumes "llseek_doc K" "0 \<le> pos" "0 \<le> sz"
  shows "case fixed_size_llseek K pos off whence sz of (r, p) \<Rightarrow>
    (if r < 0 then p = pos else r \<le> sz \<and> p = r) \<and>
    (whence = SEEK_SET \<and> 0 \<le> off \<and> off \<le> sz \<longrightarrow> r = off)"
  using assms unfolding llseek_doc_def by (auto simp: Let_def)

lemma dev_read_eof: "dev_inv d \<Longrightarrow> data_len d \<le> pos \<Longrightarrow> dev_read K d count pos = Inr (0, [], pos, d)"
  by (simp add: dev_read_def unlock_lock dev_inv_def)

text \<open>A read inside the file: the bytes at the position, as many as could be copied.\<close>

lemma dev_read_inside:
  assumes inv: "dev_inv d" and K: "copy_to_user_doc K"
    and pos: "0 \<le> pos" "pos < data_len d" and count: "0 \<le> count" "count < 4294967296"
  defines "n \<equiv> min count (data_len d - pos)"
  defines "r \<equiv> n - copy_to_user K n"
  shows "dev_read K d count pos = Inr (r, take (nat r) (drop (nat pos) (file_content d)), pos + r, d)"
    and "0 \<le> r" "r \<le> n"
proof -
  have n: "0 \<le> n" "n \<le> data_len d - pos" "n \<le> 4096"
    using inv pos count by (auto simp: n_def dev_inv_def PAGE_SIZE_def)
  have u: "0 \<le> copy_to_user K n" "copy_to_user K n \<le> n"
    using K n by (auto simp: copy_to_user_doc_def)
  then show r: "0 \<le> r" "r \<le> n" by (simp_all add: r_def)
  have avail: "s32 (data_len d - pos) = data_len d - pos" "u32 (data_len d - pos) = data_len d - pos"
    using inv pos by (auto simp: dev_inv_def PAGE_SIZE_def intro!: s32_id u32_id)
  have btr: "s32 (min (u32 count) (u32 (s32 (data_len d - pos)))) = n"
    using n count by (simp add: avail u32_id s32_id n_def [symmetric])
  have "mem_read (kernel_buffer d) pos n = Inr (take (nat n) (drop (nat pos) (kernel_buffer d)))"
    using inv pos n by (intro mem_read_ok) (auto simp: dev_inv_def)
  moreover have "s32 r = r" "s64 (pos + r) = pos + r"
    using r n inv pos by (auto simp: dev_inv_def PAGE_SIZE_def intro!: s32_id s64_id)
  moreover have "take (nat r) (take (nat n) (drop (nat pos) (kernel_buffer d))) =
      take (nat r) (drop (nat pos) (file_content d))"
    using r n pos by (simp add: file_content_def drop_take min_def nat_le_iff)
  ultimately show "dev_read K d count pos =
      Inr (r, take (nat r) (drop (nat pos) (file_content d)), pos + r, d)"
    using inv pos by (simp add: dev_read_def unlock_lock dev_inv_def btr Let_def r_def [symmetric])
qed

lemma dev_write_nospace:
  assumes "dev_inv d" "0 \<le> count" "count < 4294967296" "0 \<le> pos" "PAGE_SIZE \<le> pos \<or> count = 0"
  shows "dev_write K d buf count pos = Inr (- ENOSPC, pos, d)"
proof (cases "PAGE_SIZE \<le> pos")
  case True
  with assms show ?thesis by (simp add: dev_write_def unlock_lock dev_inv_def BUFFER_SIZE_def)
next
  case False
  with assms have "count = 0" by simp
  moreover have "u32 (PAGE_SIZE - pos) = PAGE_SIZE - pos"
    using False assms by (auto simp: PAGE_SIZE_def intro!: u32_id)
  ultimately show ?thesis
    using False assms
    by (simp add: dev_write_def unlock_lock dev_inv_def BUFFER_SIZE_def u32_id s32_id)
qed

text \<open>
  A write with room: the bytes that could be copied, then zeros up to the end of the range
  that was to be written, at the position; the length grows to the last byte written.
\<close>

lemma dev_write_room:
  assumes inv: "dev_inv d" and K: "copy_from_user_doc K"
    and pos: "0 \<le> pos" "pos < PAGE_SIZE"
    and count: "0 < count" "count < 4294967296" "count \<le> int (length buf)"
  defines "n \<equiv> min count (PAGE_SIZE - pos)"
  obtains u where "0 \<le> u" "u \<le> n" "fst (copy_from_user K buf n) = u"
    "dev_write K d buf count pos = Inr (n - u, pos + (n - u),
       d\<lparr>kernel_buffer := overlay (kernel_buffer d) (nat pos) (take (nat (n - u)) buf @ replicate (nat u) NUL),
         data_len := max (data_len d) (pos + (n - u))\<rparr>)"
proof -
  have n: "0 < n" "n \<le> int (length buf)" "pos + n \<le> PAGE_SIZE" "n \<le> 4096"
    using pos count by (auto simp: n_def PAGE_SIZE_def)
  then obtain u where u: "0 \<le> u" "u \<le> n"
    and cfu: "copy_from_user K buf n = (u, take (nat (n - u)) buf @ replicate (nat u) NUL)"
    using copy_from_user_docE [OF K, of n buf] by auto
  have sz: "u32 (PAGE_SIZE - pos) = PAGE_SIZE - pos" "u32 PAGE_SIZE = PAGE_SIZE"
    using pos by (auto simp: PAGE_SIZE_def intro!: u32_id)
  have btw: "s32 (min (u32 count) (PAGE_SIZE - pos)) = n"
    using n count by (simp add: u32_id n_def [symmetric] s32_id)
  have len: "int (length (take (nat (n - u)) buf @ replicate (nat u) NUL)) = n"
    using n u by simp
  have wr: "mem_write (kernel_buffer d) pos (take (nat (n - u)) buf @ replicate (nat u) NUL) =
      Inr (overlay (kernel_buffer d) (nat pos) (take (nat (n - u)) buf @ replicate (nat u) NUL))"
    using inv pos n len by (intro mem_write_ok) (auto simp: dev_inv_def)
  have ids: "s32 (n - u) = n - u" "s64 (pos + (n - u)) = pos + (n - u)"
    "u32 (pos + (n - u)) = pos + (n - u)"
    using n u pos by (auto simp: PAGE_SIZE_def intro!: s32_id s64_id u32_id)
  have "dev_write K d buf count pos = Inr (n - u, pos + (n - u),
       d\<lparr>kernel_buffer := overlay (kernel_buffer d) (nat pos) (take (nat (n - u)) buf @ replicate (nat u) NUL),
         data_len := max (data_len d) (pos + (n - u))\<rparr>)"
  proof (cases "data_len d < pos + (n - u)")
    case True
    moreover have "min (pos + (n - u)) PAGE_SIZE = pos + (n - u)" using n u by simp
    ultimately show ?thesis using inv pos n(1)
      by (simp add: dev_write_def unlock_lock dev_inv_def BUFFER_SIZE_def sz btw cfu wr ids Let_def max_absorb2)
  next
    case False
    with inv pos n(1) show ?thesis
      by (simp add: dev_write_def unlock_lock dev_inv_def BUFFER_SIZE_def sz btw cfu wr ids Let_def max_absorb1)
  qed
  with u cfu show thesis by (intro that) simp_all
qed

lemma dev_llseek_ok:
  assumes "dev_inv d" "llseek_doc K" "0 \<le> pos"
  obtains r p where "dev_llseek K d pos off whence = Inr (r, p, d)"
    "(r, p) = fixed_size_llseek K pos off whence (data_len d)"
    "r < 0 \<and> p = pos \<or> 0 \<le> r \<and> r \<le> data_len d \<and> p = r"
    "whence = SEEK_SET \<Longrightarrow> 0 \<le> off \<Longrightarrow> off \<le> data_len d \<Longrightarrow> r = off"
proof -
  obtain r p where rp: "fixed_size_llseek K pos off whence (data_len d) = (r, p)" by fastforce
  then have "dev_llseek K d pos off whence = Inr (r, p, d)"
    using assms by (simp add: dev_llseek_def unlock_lock dev_inv_def)
  moreover have "(if r < 0 then p = pos else r \<le> data_len d \<and> p = r) \<and>
      (whence = SEEK_SET \<and> 0 \<le> off \<and> off \<le> data_len d \<longrightarrow> r = off)"
    using llseek_docD [OF assms(2,3), where sz = "data_len d" and off = off and whence = whence] assms(1) rp
    by (simp add: dev_inv_def)
  ultimately show thesis using rp by (intro that [of r p]) (auto split: if_splits)
qed

section \<open>Open files sharing the device\<close>

text \<open>
  \<open>fops\<close> binds the operations to system calls on open files. A run is any interleaving of
  calls on any number of open files; the mutex makes each call one step. \<open>ps\<close> is the
  position (\<open>f_pos\<close>) of each open file.
\<close>

datatype fop = Read int | Write "char list" | Seek int int

type_synonym dev_files = "chardev \<times> (nat \<Rightarrow> int)"

fun fops :: "kapi \<Rightarrow> dev_files \<Rightarrow> nat \<times> fop \<Rightarrow> ((int \<times> char list) \<times> dev_files) res" where
  "fops K (d, ps) (fd, Read count) =
     and_then (dev_read K d count (ps fd)) (\<lambda>(r, bs, p, d). Inr ((r, bs), d, ps(fd := p)))"
| "fops K (d, ps) (fd, Write buf) =
     and_then (dev_write K d buf (int (length buf)) (ps fd))
       (\<lambda>(r, p, d). Inr ((r, []), d, ps(fd := p)))"
| "fops K (d, ps) (fd, Seek off whence) =
     and_then (dev_llseek K d (ps fd) off whence) (\<lambda>(r, p, d). Inr ((r, []), d, ps(fd := p)))"

fun fops_run :: "kapi \<Rightarrow> dev_files \<Rightarrow> (nat \<times> fop) list \<Rightarrow> ((int \<times> char list) list \<times> dev_files) res" where
  "fops_run K s [] = Inr ([], s)"
| "fops_run K s (x # xs) =
     and_then (fops K s x) (\<lambda>(out, s). and_then (fops_run K s xs) (\<lambda>(outs, s). Inr (out # outs, s)))"

text \<open>Arguments a system call can pass: \<open>size_t\<close> counts.\<close>

fun fop_ok :: "fop \<Rightarrow> bool" where
  "fop_ok (Read count) \<longleftrightarrow> 0 \<le> count \<and> count < 4294967296"
| "fop_ok (Write buf) \<longleftrightarrow> int (length buf) < 4294967296"
| "fop_ok (Seek off whence) \<longleftrightarrow> True"

definition files_inv :: "dev_files \<Rightarrow> bool" where
  "files_inv s \<longleftrightarrow> dev_inv (fst s) \<and> (\<forall>fd. 0 \<le> snd s fd \<and> snd s fd \<le> data_len (fst s))"

lemma dev_inv_write:
  assumes "dev_inv d" "0 \<le> pos" "pos \<le> PAGE_SIZE" "pos + int (length bs) \<le> PAGE_SIZE"
    "0 \<le> len" "len \<le> PAGE_SIZE"
  shows "dev_inv (d\<lparr>kernel_buffer := overlay (kernel_buffer d) (nat pos) bs, data_len := len\<rparr>)"
  using assms by (auto simp: dev_inv_def)

lemma fops_step:
  assumes K: "kapi_doc K" and inv: "files_inv s" and op: "fop_ok op"
  obtains out s' where "fops K s (fd, op) = Inr (out, s')" "files_inv s'"
    "data_len (fst s) \<le> data_len (fst s')"
proof -
  obtain d ps where s: "s = (d, ps)" by fastforce
  have d: "dev_inv d" and ps: "\<And>fd. 0 \<le> ps fd \<and> ps fd \<le> data_len d"
    using inv by (auto simp: files_inv_def s)
  have len: "0 \<le> data_len d" "data_len d \<le> PAGE_SIZE" using d by (auto simp: dev_inv_def)
  show thesis
  proof (cases op)
    case (Read count)
    show ?thesis
    proof (cases "ps fd < data_len d")
      case True
      have "copy_to_user_doc K" "0 \<le> ps fd" "0 \<le> count" "count < 4294967296"
        using K ps op Read by (auto simp: kapi_doc_def)
      note rd = dev_read_inside [OF d this(1,2) True this(3,4)]
      show ?thesis
        by (rule that) (use rd ps d True in \<open>auto simp: s Read files_inv_def\<close>)
    next
      case False
      then show ?thesis
        by (intro that) (use d ps in \<open>auto simp: s Read dev_read_eof files_inv_def\<close>)
    qed
  next
    case (Write buf)
    show ?thesis
    proof (cases "PAGE_SIZE \<le> ps fd \<or> buf = []")
      case True
      then have "fops K s (fd, op) = Inr ((- ENOSPC, []), s)"
        using dev_write_nospace [OF d, of "int (length buf)" "ps fd" K buf] ps op
        by (auto simp: s Write)
      then show ?thesis using inv by (rule that) simp
    next
      case False
      define n where "n = min (int (length buf)) (PAGE_SIZE - ps fd)"
      have "copy_from_user_doc K" "0 \<le> ps fd" "ps fd < PAGE_SIZE" "0 < int (length buf)"
        "int (length buf) < 4294967296" using K ps op Write False by (auto simp: kapi_doc_def)
      from dev_write_room [OF d this order.refl, folded n_def] obtain u where
        u: "0 \<le> u" "u \<le> n" and wr: "dev_write K d buf (int (length buf)) (ps fd) = Inr (n - u, ps fd + (n - u),
          d\<lparr>kernel_buffer := overlay (kernel_buffer d) (nat (ps fd)) (take (nat (n - u)) buf @ replicate (nat u) NUL),
            data_len := max (data_len d) (ps fd + (n - u))\<rparr>)" by metis
      have n: "n \<le> int (length buf)" "ps fd + n \<le> PAGE_SIZE" by (auto simp: n_def)
      have "int (length (take (nat (n - u)) buf @ replicate (nat u) NUL)) = n"
        using n u by simp
      then have "dev_inv (d\<lparr>kernel_buffer := overlay (kernel_buffer d) (nat (ps fd)) (take (nat (n - u)) buf @ replicate (nat u) NUL),
            data_len := max (data_len d) (ps fd + (n - u))\<rparr>)"
        using ps [of fd] len n u by (intro dev_inv_write d) auto
      moreover have "ps fd' \<le> max (data_len d) (ps fd + (n - u))" for fd'
        using ps [of fd'] by linarith
      ultimately show ?thesis
        by (intro that) (use wr ps u in \<open>auto simp: s Write files_inv_def\<close>)
    qed
  next
    case (Seek off whence)
    have "llseek_doc K" "0 \<le> ps fd" using K ps by (auto simp: kapi_doc_def)
    from dev_llseek_ok [OF d this] obtain r p where
      "dev_llseek K d (ps fd) off whence = Inr (r, p, d)"
      "r < 0 \<and> p = ps fd \<or> 0 \<le> r \<and> r \<le> data_len d \<and> p = r" by metis
    then show ?thesis
      by (intro that) (use ps d in \<open>auto simp: s Seek files_inv_def\<close>)
  qed
qed

text \<open>
  C2: whatever calls user space makes on any number of open files, in whatever order, and
  whichever user accesses fail half-way, the driver never leaves its page, never takes or
  releases its mutex out of turn, and returns to a state that satisfies its invariant.
\<close>

theorem chardev_run_safe:
  assumes "kapi_doc K" "files_inv s" "\<forall>x \<in> set xs. fop_ok (snd x)"
  shows "\<exists>outs s'. fops_run K s xs = Inr (outs, s') \<and> files_inv s'"
  using assms(2,3)
proof (induction xs arbitrary: s)
  case Nil
  then show ?case by simp
next
  case (Cons x xs)
  obtain fd op where x: "x = (fd, op)" by fastforce
  with Cons.prems have "fop_ok op" by simp
  from fops_step [OF assms(1) Cons.prems(1) this] obtain out s' where
    step: "fops K s (fd, op) = Inr (out, s')" and inv: "files_inv s'" by metis
  from Cons.IH [OF inv] Cons.prems(2) obtain outs s'' where
    "fops_run K s' xs = Inr (outs, s'')" "files_inv s''" by auto
  with step show ?case by (simp add: x)
qed

text \<open>A kernel whose user accesses never fail, for concrete runs.\<close>

definition plain_kapi :: kapi where
  "plain_kapi = \<lparr>copy_to_user = (\<lambda>n. 0), copy_from_user = (\<lambda>src n. (0, take (nat n) src)),
     fixed_size_llseek = (\<lambda>pos off whence size.
       if whence = SEEK_SET \<and> 0 \<le> off \<and> off \<le> size then (off, off) else (- EINVAL, pos))\<rparr>"

lemma plain_kapi_doc: "kapi_doc plain_kapi"
  by (auto simp: kapi_doc_def copy_to_user_doc_def copy_from_user_doc_def llseek_doc_def
      plain_kapi_def EINVAL_def)

definition fresh_dev :: chardev where
  "fresh_dev = \<lparr>kernel_buffer = replicate 4096 NUL, data_len = 0, dev_mutex = False\<rparr>"

lemma files_inv_fresh: "files_inv (fresh_dev, \<lambda>_. 0)"
  by (simp add: files_inv_def dev_inv_def fresh_dev_def PAGE_SIZE_def)

theorem chardev_run_safe_witness:
  "\<exists>outs s'. fops_run plain_kapi (fresh_dev, \<lambda>_. 0)
     [(0, Write ''abc''), (1, Read 2), (0, Seek 1 0), (0, Read 9)] = Inr (outs, s') \<and> files_inv s'"
  by (rule chardev_run_safe [OF plain_kapi_doc files_inv_fresh]) simp

section \<open>Refinement of a bounded byte file\<close>

text \<open>
  The specification: a byte string of at most a page and a position per open file. It knows
  neither pages, mutexes nor C integers.
\<close>

fun spec_step :: "kapi \<Rightarrow> char list \<times> (nat \<Rightarrow> int) \<Rightarrow> nat \<times> fop \<Rightarrow> (int \<times> char list) \<times> char list \<times> (nat \<Rightarrow> int)" where
  "spec_step K (f, ps) (fd, Read count) =
     (let bs = take (nat count) (drop (nat (ps fd)) f) in
      ((int (length bs), bs), f, ps(fd := ps fd + int (length bs))))"
| "spec_step K (f, ps) (fd, Write buf) =
     (let bs = take (4096 - nat (ps fd)) buf in
      if bs = [] then ((- ENOSPC, []), f, ps)
      else ((int (length bs), []), overlay f (nat (ps fd)) bs, ps(fd := ps fd + int (length bs))))"
| "spec_step K (f, ps) (fd, Seek off whence) =
     (let (r, p) = fixed_size_llseek K (ps fd) off whence (int (length f)) in ((r, []), f, ps(fd := p)))"

fun spec_run :: "kapi \<Rightarrow> char list \<times> (nat \<Rightarrow> int) \<Rightarrow> (nat \<times> fop) list \<Rightarrow>
    (int \<times> char list) list \<times> char list \<times> (nat \<Rightarrow> int)" where
  "spec_run K s [] = ([], s)"
| "spec_run K s (x # xs) =
     (let (out, s) = spec_step K s x; (outs, s) = spec_run K s xs in (out # outs, s))"

definition no_fault :: "kapi \<Rightarrow> bool" where
  "no_fault K \<longleftrightarrow> (\<forall>n. copy_to_user K n = 0) \<and>
     (\<forall>src n. 0 \<le> n \<and> n \<le> int (length src) \<longrightarrow> fst (copy_from_user K src n) = 0)"

definition abs_files :: "dev_files \<Rightarrow> char list \<times> (nat \<Rightarrow> int)" where
  "abs_files s = (file_content (fst s), snd s)"

lemma file_content_write:
  assumes "dev_inv d" "0 \<le> pos" "pos \<le> data_len d" "pos + int (length bs) \<le> PAGE_SIZE"
  shows "file_content (d\<lparr>kernel_buffer := overlay (kernel_buffer d) (nat pos) bs,
      data_len := max (data_len d) (pos + int (length bs))\<rparr>) = overlay (file_content d) (nat pos) bs"
proof -
  have "nat pos \<le> nat (data_len d)" "nat pos + length bs \<le> 4096" "nat (data_len d) \<le> 4096"
    "length (kernel_buffer d) = 4096" "nat (max (data_len d) (pos + int (length bs))) =
      max (nat (data_len d)) (nat pos + length bs)"
    using assms by (auto simp: dev_inv_def PAGE_SIZE_def max_def)
  then show ?thesis by (simp add: file_content_def overlay_take)
qed

lemma spec_step_refines:
  assumes K: "kapi_doc K" "no_fault K" and inv: "files_inv s" and op: "fop_ok op"
  shows "\<exists>out s'. fops K s (fd, op) = Inr (out, s') \<and> spec_step K (abs_files s) (fd, op) = (out, abs_files s')"
proof -
  obtain d ps where s: "s = (d, ps)" by fastforce
  have d: "dev_inv d" and ps: "0 \<le> ps fd" "ps fd \<le> data_len d"
    using inv by (auto simp: files_inv_def s)
  have len: "0 \<le> data_len d" "data_len d \<le> 4096" "int (length (file_content d)) = data_len d"
    using d length_file_content by (auto simp: dev_inv_def PAGE_SIZE_def)
  show ?thesis
  proof (cases op)
    case (Read count)
    have cnt: "0 \<le> count" "count < 4294967296" using op Read by auto
    show ?thesis
    proof (cases "ps fd < data_len d")
      case True
      have ctu: "copy_to_user_doc K" "\<And>n. copy_to_user K n = 0"
        using K by (auto simp: kapi_doc_def no_fault_def)
      define n where "n = min count (data_len d - ps fd)"
      have "dev_read K d count (ps fd) =
          Inr (n, take (nat n) (drop (nat (ps fd)) (file_content d)), ps fd + n, d)"
        using dev_read_inside(1) [OF d ctu(1) ps(1) True cnt] by (simp add: ctu(2) n_def)
      moreover have "take (nat n) (drop (nat (ps fd)) (file_content d)) =
          take (nat count) (drop (nat (ps fd)) (file_content d))"
        using len by (auto simp: n_def min_def)
      moreover have "int (length (take (nat count) (drop (nat (ps fd)) (file_content d)))) = n"
        using len ps cnt by (auto simp: n_def min_def)
      ultimately show ?thesis by (simp add: s Read abs_files_def)
    next
      case False
      then have "drop (nat (ps fd)) (file_content d) = []" using len by simp
      with False show ?thesis by (simp add: s Read abs_files_def dev_read_eof d)
    qed
  next
    case (Write buf)
    show ?thesis
    proof (cases "PAGE_SIZE \<le> ps fd \<or> buf = []")
      case True
      then have "dev_write K d buf (int (length buf)) (ps fd) = Inr (- ENOSPC, ps fd, d)"
        using dev_write_nospace [OF d, of "int (length buf)" "ps fd" K buf] ps op by (auto simp: Write)
      moreover have "take (4096 - nat (ps fd)) buf = []" using True by (auto simp: PAGE_SIZE_def)
      ultimately show ?thesis by (auto simp: s Write abs_files_def)
    next
      case False
      define n where "n = min (int (length buf)) (PAGE_SIZE - ps fd)"
      have "copy_from_user_doc K" "0 \<le> ps fd" "ps fd < PAGE_SIZE" "0 < int (length buf)"
        "int (length buf) < 4294967296" using K ps op Write False by (auto simp: kapi_doc_def)
      from dev_write_room [OF d this order.refl, folded n_def] obtain u where
        u: "fst (copy_from_user K buf n) = u" and wr: "dev_write K d buf (int (length buf)) (ps fd) = Inr (n - u, ps fd + (n - u),
          d\<lparr>kernel_buffer := overlay (kernel_buffer d) (nat (ps fd)) (take (nat (n - u)) buf @ replicate (nat u) NUL),
            data_len := max (data_len d) (ps fd + (n - u))\<rparr>)" by metis
      have n: "0 < n" "n \<le> int (length buf)" "ps fd + n \<le> PAGE_SIZE"
        "take (nat n) buf = take (4096 - nat (ps fd)) buf"
        using False ps by (auto simp: n_def min_def PAGE_SIZE_def nat_diff_distrib)
      then have u0: "u = 0" using K(2) u by (auto simp: no_fault_def)
      define bs where "bs = take (nat n) buf"
      have bs: "int (length bs) = n" "bs \<noteq> []" "take (4096 - nat (ps fd)) buf = bs"
        using n(1,2) n(4) [symmetric] False by (auto simp: bs_def)
      have "file_content (d\<lparr>kernel_buffer := overlay (kernel_buffer d) (nat (ps fd)) bs,
          data_len := max (data_len d) (ps fd + n)\<rparr>) = overlay (file_content d) (nat (ps fd)) bs"
        using file_content_write [OF d ps, of bs] bs(1) n(3) by simp
      then show ?thesis
        using wr bs by (simp add: s Write abs_files_def u0 Let_def bs_def [symmetric])
    qed
  next
    case (Seek off whence)
    have "llseek_doc K" using K by (simp add: kapi_doc_def)
    from dev_llseek_ok [OF d this ps(1)] obtain r p where
      "dev_llseek K d (ps fd) off whence = Inr (r, p, d)"
      "(r, p) = fixed_size_llseek K (ps fd) off whence (data_len d)" by metis
    then show ?thesis by (auto simp: s Seek abs_files_def len split: prod.splits)
  qed
qed

text \<open>
  C1: as long as user memory can be accessed, the driver is a byte file: the results, the
  bytes handed out, the positions and the content after any interleaving of calls on its
  open files are those of the bounded byte file.
\<close>

theorem chardev_refines_file:
  assumes "kapi_doc K" "no_fault K" "files_inv s" "\<forall>x \<in> set xs. fop_ok (snd x)"
  shows "\<exists>outs s'. fops_run K s xs = Inr (outs, s') \<and> spec_run K (abs_files s) xs = (outs, abs_files s')"
  using assms(3,4)
proof (induction xs arbitrary: s)
  case Nil
  then show ?case by simp
next
  case (Cons x xs)
  obtain fd op where x: "x = (fd, op)" by fastforce
  with Cons.prems have op: "fop_ok op" by simp
  from fops_step [OF assms(1) Cons.prems(1) op] obtain out s' where
    step: "fops K s (fd, op) = Inr (out, s')" and inv: "files_inv s'" by metis
  from spec_step_refines [OF assms(1,2) Cons.prems(1) op, of fd] step have
    spec: "spec_step K (abs_files s) (fd, op) = (out, abs_files s')" by auto
  from Cons.IH [OF inv] Cons.prems(2) obtain outs s'' where
    "fops_run K s' xs = Inr (outs, s'')" "spec_run K (abs_files s') xs = (outs, abs_files s'')" by auto
  with step spec show ?case by (simp add: x Let_def)
qed

lemma plain_kapi_no_fault: "no_fault plain_kapi"
  by (simp add: no_fault_def plain_kapi_def)

theorem chardev_refines_file_witness:
  "\<exists>outs s'. fops_run plain_kapi (fresh_dev, \<lambda>_. 0) [(0, Write ''hello''), (1, Read 3)] = Inr (outs, s') \<and>
     spec_run plain_kapi ([], \<lambda>_. 0) [(0, Write ''hello''), (1, Read 3)] = (outs, abs_files s') \<and>
     outs = [(5, []), (3, ''hel'')]"
proof -
  have "abs_files (fresh_dev, \<lambda>_. 0) = ([], \<lambda>_. 0)"
    by (simp add: abs_files_def file_content_def fresh_dev_def)
  moreover have "fst (spec_run plain_kapi ([], \<lambda>_. 0) [(0, Write ''hello''), (1, Read 3)]) =
      [(5, []), (3, ''hel'')]" by (simp add: Let_def overlay_def)
  ultimately show ?thesis
    using chardev_refines_file [OF plain_kapi_doc plain_kapi_no_fault files_inv_fresh,
        of "[(0, Write ''hello''), (1, Read 3)]"] by auto
qed

end
