(* ===== verification/ChardevProps.thy ===== *)
theory ChardevProps
  imports ChardevFile
begin

text \<open>
  Single-call properties of \<open>modules/chardev.c\<close>: what is read back after a write, what a
  write that faults half-way leaves behind, what \<open>mmap\<close> exposes, and the module's life cycle.
\<close>

lemma write_placed_length:
  "0 \<le> u \<Longrightarrow> u \<le> n \<Longrightarrow> n \<le> int (length buf) \<Longrightarrow>
   int (length (take (nat (n - u)) buf @ replicate (nat u) NUL)) = n"
  by simp

text \<open>
  C14: bytes written anywhere in the page (also beyond the current end) are read back from
  the same position by the next read, and the read ends where the write ended.
\<close>

theorem chardev_write_read_roundtrip:
  assumes "kapi_doc K" "no_fault K" "dev_inv d"
    and "0 \<le> pos" "pos < PAGE_SIZE" "buf \<noteq> []" "int (length buf) < 4294967296"
  shows "\<exists>r d'. dev_write K d buf (int (length buf)) pos = Inr (r, pos + r, d') \<and>
    r = min (int (length buf)) (PAGE_SIZE - pos) \<and>
    dev_read K d' r pos = Inr (r, take (nat r) buf, pos + r, d')"
proof -
  define n where "n = min (int (length buf)) (PAGE_SIZE - pos)"
  have K: "copy_from_user_doc K" "copy_to_user_doc K" "\<And>k. copy_to_user K k = 0"
    using assms(1,2) by (auto simp: kapi_doc_def no_fault_def)
  have n: "0 < n" "n \<le> int (length buf)" "pos + n \<le> PAGE_SIZE" "n < 4294967296"
    using assms by (auto simp: n_def PAGE_SIZE_def)
  have "0 < int (length buf)" using assms(6) by simp
  from dev_write_room [OF assms(3) K(1) assms(4,5) this assms(7) order.refl, folded n_def] obtain u where
    u: "fst (copy_from_user K buf n) = u" and wr: "dev_write K d buf (int (length buf)) pos = Inr (n - u, pos + (n - u),
      d\<lparr>kernel_buffer := overlay (kernel_buffer d) (nat pos) (take (nat (n - u)) buf @ replicate (nat u) NUL),
        data_len := max (data_len d) (pos + (n - u))\<rparr>)" by metis
  have u0: "u = 0" using assms(2) u n by (auto simp: no_fault_def)
  define bs where "bs = take (nat n) buf"
  define d' where "d' = d\<lparr>kernel_buffer := overlay (kernel_buffer d) (nat pos) bs,
        data_len := max (data_len d) (pos + n)\<rparr>"
  have len: "int (length bs) = n" using n by (simp add: bs_def)
  have inv': "dev_inv d'"
    unfolding d'_def using n len assms(3,4) by (intro dev_inv_write) (auto simp: dev_inv_def)
  have room: "nat pos + length bs \<le> length (kernel_buffer d)" "length bs = nat n"
    "length bs \<le> nat (max (data_len d) (pos + n)) - nat pos"
    using n len assms(3,4) by (auto simp: dev_inv_def)
  then have rb: "take (nat n) (drop (nat pos) (file_content d')) = bs"
    using overlay_read_back [OF room(1)]
    by (simp add: d'_def file_content_def drop_take min_absorb1)
  have pos': "pos < data_len d'" "min n (data_len d' - pos) = n"
    using n by (auto simp: d'_def)
  have "dev_read K d' n pos = Inr (n, bs, pos + n, d')"
    using dev_read_inside(1) [OF inv' K(2) assms(4) pos'(1), of n] n pos'(2) rb
    by (simp add: K(3))
  then show ?thesis
    using wr by (intro exI [of _ n] exI [of _ d']) (simp add: u0 d'_def bs_def n_def)
qed

theorem chardev_write_read_roundtrip_witness:
  "\<exists>r d'. dev_write plain_kapi fresh_dev ''tail'' 4 4094 = Inr (r, 4094 + r, d') \<and>
     r = 2 \<and> dev_read plain_kapi d' r 4094 = Inr (r, ''ta'', 4094 + r, d')"
  using chardev_write_read_roundtrip [OF plain_kapi_doc plain_kapi_no_fault, of fresh_dev 4094 "''tail''"]
  by (auto simp: dev_inv_def fresh_dev_def PAGE_SIZE_def)

text \<open>
  C15: byte by byte, what a write leaves in the page. The call reports \<open>n - u\<close> bytes; those
  are the user's. When user memory faulted, the remaining \<open>u\<close> bytes of the range that was to
  be written are zeroed although the call does not report them as written. Nothing outside
  the range changes and the length never shrinks.
\<close>

theorem chardev_write_effect:
  assumes "kapi_doc K" "dev_inv d" "0 \<le> pos" "pos < PAGE_SIZE"
    and "0 < count" "count < 4294967296" "count \<le> int (length buf)"
  shows "\<exists>u d'. dev_write K d buf count pos = Inr (min count (PAGE_SIZE - pos) - u, pos + (min count (PAGE_SIZE - pos) - u), d') \<and>
    0 \<le> u \<and> u \<le> min count (PAGE_SIZE - pos) \<and> dev_inv d' \<and> data_len d \<le> data_len d' \<and>
    (\<forall>i. 0 \<le> i \<and> i < PAGE_SIZE \<longrightarrow> kernel_buffer d' ! nat i =
      (if pos \<le> i \<and> i < pos + (min count (PAGE_SIZE - pos) - u) then buf ! nat (i - pos)
       else if pos \<le> i \<and> i < pos + min count (PAGE_SIZE - pos) then NUL
       else kernel_buffer d ! nat i))"
proof -
  define n where "n = min count (PAGE_SIZE - pos)"
  have "copy_from_user_doc K" using assms(1) by (simp add: kapi_doc_def)
  from dev_write_room [OF assms(2) this assms(3-7), folded n_def] obtain u where
    u: "0 \<le> u" "u \<le> n" and wr: "dev_write K d buf count pos = Inr (n - u, pos + (n - u),
      d\<lparr>kernel_buffer := overlay (kernel_buffer d) (nat pos) (take (nat (n - u)) buf @ replicate (nat u) NUL),
        data_len := max (data_len d) (pos + (n - u))\<rparr>)" by metis
  have n: "0 < n" "n \<le> int (length buf)" "pos + n \<le> PAGE_SIZE"
    using assms by (auto simp: n_def)
  define bs where "bs = take (nat (n - u)) buf @ replicate (nat u) NUL"
  define d' where "d' = d\<lparr>kernel_buffer := overlay (kernel_buffer d) (nat pos) bs,
        data_len := max (data_len d) (pos + (n - u))\<rparr>"
  have len: "int (length bs) = n" "length bs = nat n"
    using n u by (auto simp: bs_def)
  have inv: "dev_inv d'"
    unfolding d'_def using n len u assms(2,3) by (intro dev_inv_write) (auto simp: dev_inv_def)
  have nth: "kernel_buffer d' ! nat i =
      (if pos \<le> i \<and> i < pos + (n - u) then buf ! nat (i - pos)
       else if pos \<le> i \<and> i < pos + n then NUL else kernel_buffer d ! nat i)"
    if i: "0 \<le> i" "i < PAGE_SIZE" for i
  proof -
    have "nat pos + length bs \<le> length (kernel_buffer d)" "nat i < length (kernel_buffer d)"
      using assms(2,3) n len i by (auto simp: dev_inv_def)
    note at = overlay_nth [OF this]
    have bsn: "bs ! nat (i - pos) = (if i < pos + (n - u) then buf ! nat (i - pos) else NUL)"
      if "pos \<le> i" "i < pos + n"
      using that n u by (auto simp: bs_def nth_append)
    show ?thesis
      using at bsn assms(3) i len u n by (auto simp: d'_def nat_diff_distrib nat_less_iff)
  qed
  show ?thesis
    using wr u inv nth unfolding n_def [symmetric]
    by (intro exI [of _ u] exI [of _ d']) (simp add: d'_def bs_def)
qed

text \<open>A kernel where copying from user space fails from the third byte on.\<close>

definition faulty_kapi :: kapi where
  "faulty_kapi = plain_kapi\<lparr>copy_from_user :=
     (\<lambda>src n. (max 0 (n - 2), take (nat (n - max 0 (n - 2))) src @ replicate (nat (max 0 (n - 2))) NUL))\<rparr>"

lemma faulty_kapi_doc: "kapi_doc faulty_kapi"
  using plain_kapi_doc by (auto simp: kapi_doc_def faulty_kapi_def copy_to_user_doc_def
      copy_from_user_doc_def llseek_doc_def)

theorem chardev_write_effect_witness:
  "\<exists>u d'. dev_write faulty_kapi (fresh_dev\<lparr>kernel_buffer := replicate 4096 CHR ''x''\<rparr>) ''abcd'' 4 0 =
       Inr (4 - u, 4 - u, d') \<and> 0 \<le> u \<and> u \<le> 4 \<and> dev_inv d'"
proof -
  have "dev_inv (fresh_dev\<lparr>kernel_buffer := replicate 4096 CHR ''x''\<rparr>)"
    by (simp add: dev_inv_def fresh_dev_def PAGE_SIZE_def)
  from chardev_write_effect [OF faulty_kapi_doc this, of 0 4 "''abcd''"]
  show ?thesis by (auto simp: PAGE_SIZE_def)
qed

text \<open>
  C33: \<open>mmap\<close> succeeds only for offset 0 and at most one page, and then maps exactly the
  requested range onto the buffer's page; every refusal leaves the area unmapped.
\<close>

theorem remap_mm_exposes_one_page:
  assumes "0 \<le> vm_start v" "vm_start v \<le> vm_end v" "vm_end v < 4294967296"
    and "vm_mapping v = None" "remap_mm rpr pfn v = (r, v')"
  shows "(r = 0 \<and> vm_pgoff v = 0 \<and> vm_end v - vm_start v \<le> PAGE_SIZE \<and>
      vm_mapping v' = Some (vm_start v, pfn, vm_end v - vm_start v, vm_page_prot v) \<and>
      set (vm_flags v') = set (vm_flags v) \<union> {VM_IO, VM_DONTEXPAND, VM_DONTDUMP}) \<or>
    (r = - EINVAL \<and> (vm_pgoff v \<noteq> 0 \<or> PAGE_SIZE < vm_end v - vm_start v) \<and> v' = v) \<or>
    (r = - EAGAIN \<and> vm_mapping v' = None)"
proof -
  have "u32 (vm_end v - vm_start v) = vm_end v - vm_start v"
    using assms(1-3) by (intro u32_id) auto
  with assms(4,5) show ?thesis
    by (auto simp: remap_mm_def Let_def split: if_splits)
qed

theorem remap_mm_exposes_one_page_witness:
  "vm_mapping (snd (remap_mm (\<lambda>a p s q. 0) 7
     \<lparr>vm_start = 8192, vm_end = 9216, vm_pgoff = 0, vm_page_prot = 3, vm_flags = [], vm_mapping = None\<rparr>)) =
     Some (8192, 7, 1024, 3)"
proof -
  let ?v = "\<lparr>vm_start = 8192, vm_end = 9216, vm_pgoff = 0, vm_page_prot = 3, vm_flags = [], vm_mapping = None\<rparr>"
  obtain r v' where eq: "remap_mm (\<lambda>a p s q. 0) 7 ?v = (r, v')" by fastforce
  moreover from eq have "r = 0" by (auto simp: remap_mm_def Let_def PAGE_SIZE_def u32_id)
  ultimately show ?thesis
    using remap_mm_exposes_one_page [OF _ _ _ _ eq] by (auto simp: errno_defs)
qed

text \<open>
  Loading and unloading the module any number of times, with any of its kernel calls
  failing each time, holds no resource afterwards that it did not hold before, and gives
  every resource back exactly once, newest first.
\<close>

lemma chardev_cycles_balanced:
  assumes "\<forall>e \<in> set es. chr_env_doc e"
  shows "replay (cycles chardev_init (\<lambda>_. mychar_exit) es) h = Some h"
  using assms by (intro chr.cycles_balanced) simp

lemma chardev_cycles_balanced_example:
  "replay (cycles chardev_init (\<lambda>_. mychar_exit)
     [\<lparr>get_free_page = True, alloc_chrdev_region = 0, cdev_add = 0, class_create = ErrPtr (- 12), device_create = Ptr\<rparr>,
      \<lparr>get_free_page = True, alloc_chrdev_region = 0, cdev_add = 0, class_create = Ptr, device_create = Ptr\<rparr>]) [] = Some []"
  by (rule chardev_cycles_balanced) (simp add: chr_env_doc_def)

end
