(* ===== verification/Clock.thy ===== *)
theory Clock
  imports Prelude
begin

text \<open>
  Time measured with \<open>clock_gettime\<close>: the millisecond difference used by \<open>busy_wait_ms\<close>
  (\<open>C/shared_lock.h\<close>), \<open>C/cpu_hog.c\<close> and \<open>C/health.c\<close>, and the nanosecond differences of
  \<open>C/timer_accuracy.c\<close> and \<open>C/read_counter.h\<close>. \<open>time_t\<close> has 64 bits, \<open>long\<close> 32.
\<close>

record timespec =
  tv_sec :: int
  tv_nsec :: int

definition timespec_ok :: "timespec \<Rightarrow> bool" where
  "timespec_ok t \<longleftrightarrow> 0 \<le> tv_nsec t \<and> tv_nsec t < 1000000000"

text \<open>The instant a \<open>timespec\<close> stands for, in nanoseconds.\<close>

definition ns_of :: "timespec \<Rightarrow> int" where
  "ns_of t = tv_sec t * 1000000000 + tv_nsec t"

section \<open>Milliseconds\<close>

definition elapsed_ms :: "timespec \<Rightarrow> timespec \<Rightarrow> int" where
  "elapsed_ms t1 t2 =
     s32 ((tv_sec t2 - tv_sec t1) * 1000 + (tv_nsec t2 - tv_nsec t1) sdiv 1000000)"

text \<open>The value before it is stored in a \<open>long\<close> is less than one millisecond off.\<close>

lemma raw_ms_bounds:
  fixes t1 t2
  defines "m \<equiv> (tv_sec t2 - tv_sec t1) * 1000 + (tv_nsec t2 - tv_nsec t1) sdiv 1000000"
  shows "m * 1000000 - 1000000 < ns_of t2 - ns_of t1" "ns_of t2 - ns_of t1 < m * 1000000 + 1000000"
proof -
  define a where "a = tv_nsec t2 - tv_nsec t1"
  note b = cdiv_bounds [of 1000000 a]
  have "\<bar>a sdiv 1000000 * 1000000 - a\<bar> < 1000000"
  proof (cases "0 \<le> a")
    case True
    with b show ?thesis by auto
  next
    case False
    with b show ?thesis by auto
  qed
  moreover have "ns_of t2 - ns_of t1 = (tv_sec t2 - tv_sec t1) * 1000000000 + a"
    by (simp add: ns_of_def a_def algebra_simps)
  moreover have "m * 1000000 = (tv_sec t2 - tv_sec t1) * 1000000000 + a sdiv 1000000 * 1000000"
    by (simp add: m_def a_def algebra_simps)
  ultimately show "m * 1000000 - 1000000 < ns_of t2 - ns_of t1"
    "ns_of t2 - ns_of t1 < m * 1000000 + 1000000" by linarith+
qed

text \<open>2147483646 ms are nearly 25 days.\<close>

lemma elapsed_ms_exact:
  assumes "0 \<le> ns_of t2 - ns_of t1" "ns_of t2 - ns_of t1 \<le> 2147483646000000"
  shows "elapsed_ms t1 t2 * 1000000 - 1000000 < ns_of t2 - ns_of t1"
    and "ns_of t2 - ns_of t1 < elapsed_ms t1 t2 * 1000000 + 1000000"
    and "0 \<le> elapsed_ms t1 t2"
proof -
  define m where "m = (tv_sec t2 - tv_sec t1) * 1000 + (tv_nsec t2 - tv_nsec t1) sdiv 1000000"
  note b = raw_ms_bounds [where ?t1.0 = t1 and ?t2.0 = t2, folded m_def]
  have "0 \<le> m" "m < 2147483648" using b assms by linarith+
  then have "elapsed_ms t1 t2 = m"
    unfolding elapsed_ms_def m_def [symmetric] by (intro s32_id) auto
  with b \<open>0 \<le> m\<close> show "elapsed_ms t1 t2 * 1000000 - 1000000 < ns_of t2 - ns_of t1"
    "ns_of t2 - ns_of t1 < elapsed_ms t1 t2 * 1000000 + 1000000" "0 \<le> elapsed_ms t1 t2" by simp_all
qed

section \<open>The busy loop\<close>

text \<open>
  \<open>clk i\<close> is the result of the \<open>i\<close>-th \<open>clock_gettime\<close>; the loop starts at sample \<open>i\<close> and
  returns the index of the first sample it did not take, or \<open>None\<close> if it never leaves.
\<close>

definition busy_wait_ms :: "(nat \<Rightarrow> timespec) \<Rightarrow> nat \<Rightarrow> int \<Rightarrow> nat option" where
  "busy_wait_ms clk i ms =
     map_option Suc (poll_until (\<lambda>k. ms \<le> elapsed_ms (clk i) (clk k)) (Suc i))"

text \<open>A clock that does not go backwards.\<close>

definition clock_mono :: "(nat \<Rightarrow> timespec) \<Rightarrow> bool" where
  "clock_mono clk \<longleftrightarrow> (\<forall>i j. i \<le> j \<longrightarrow> ns_of (clk i) \<le> ns_of (clk j))"

lemma busy_wait_ms_returns:
  assumes mono: "clock_mono clk" and ms: "0 \<le> ms"
    and later: "i < k" "(ms + 1) * 1000000 \<le> ns_of (clk k) - ns_of (clk i)"
    and range: "ns_of (clk k) - ns_of (clk i) \<le> 2147483646000000"
  shows "\<exists>j. busy_wait_ms clk i ms = Some (Suc j) \<and> i < j \<and> j \<le> k \<and>
    (ms - 1) * 1000000 < ns_of (clk j) - ns_of (clk i) \<and>
    (Suc i < j \<longrightarrow> ns_of (clk (j - 1)) - ns_of (clk i) < ms * 1000000)"
proof -
  let ?P = "\<lambda>k. ms \<le> elapsed_ms (clk i) (clk k)"
  have span: "0 \<le> ns_of (clk l) - ns_of (clk i)" "ns_of (clk l) - ns_of (clk i) \<le> 2147483646000000"
    if "i \<le> l" "l \<le> k" for l
  proof -
    have "ns_of (clk i) \<le> ns_of (clk l)" "ns_of (clk l) \<le> ns_of (clk k)"
      using mono that by (auto simp: clock_mono_def)
    with range show "0 \<le> ns_of (clk l) - ns_of (clk i)"
      "ns_of (clk l) - ns_of (clk i) \<le> 2147483646000000" by auto
  qed
  have "?P k"
    using elapsed_ms_exact(2) [OF span [of k]] later by simp
  then obtain j where j: "poll_until ?P (Suc i) = Some j" "j \<le> k"
    using later(1) poll_until_returns [of "Suc i" k ?P] by auto
  from poll_until_SomeD [OF j(1)] have d: "Suc i \<le> j" "?P j" "\<And>l. Suc i \<le> l \<Longrightarrow> l < j \<Longrightarrow> \<not> ?P l"
    by auto
  have "(ms - 1) * 1000000 < ns_of (clk j) - ns_of (clk i)"
    using elapsed_ms_exact(1) [OF span [of j]] d(1,2) j(2) by simp
  moreover have "ns_of (clk (j - 1)) - ns_of (clk i) < ms * 1000000" if "Suc i < j"
  proof -
    have "elapsed_ms (clk i) (clk (j - 1)) \<le> ms - 1" using d(3) [of "j - 1"] that by (cases j) auto
    moreover have "ns_of (clk (j - 1)) - ns_of (clk i) <
        elapsed_ms (clk i) (clk (j - 1)) * 1000000 + 1000000"
      using that j(2) by (intro elapsed_ms_exact(2) span) auto
    ultimately show ?thesis by linarith
  qed
  ultimately show ?thesis
    using j d(1) by (auto simp: busy_wait_ms_def)
qed

text \<open>
  On a clock that never goes backwards and at some sample has advanced by the requested
  time, the busy wait returns; when it does, more than \<open>ms - 1\<close> milliseconds have passed, and
  the sample before the last was still less than \<open>ms\<close> milliseconds away from the start.
\<close>

lemma busy_wait_ms_total:
  assumes mono: "clock_mono clk" and ms: "0 \<le> ms"
    and later: "i < k" "(ms + 1) * 1000000 \<le> ns_of (clk k) - ns_of (clk i)"
    and range: "ns_of (clk k) - ns_of (clk i) \<le> 2147483646000000"
  shows "\<exists>j. busy_wait_ms clk i ms = Some (Suc j) \<and> i < j \<and> j \<le> k \<and>
    (ms - 1) * 1000000 < ns_of (clk j) - ns_of (clk i) \<and>
    (Suc i < j \<longrightarrow> ns_of (clk (j - 1)) - ns_of (clk i) < ms * 1000000)"
  by (rule busy_wait_ms_returns [OF assms])

definition slow_clock :: "nat \<Rightarrow> timespec" where
  "slow_clock i = \<lparr>tv_sec = int i div 10, tv_nsec = (int i mod 10) * 100000000\<rparr>"

lemma ns_of_slow_clock: "ns_of (slow_clock i) = int i * 100000000"
proof -
  have "int i = int i div 10 * 10 + int i mod 10" by simp
  then show ?thesis unfolding ns_of_def slow_clock_def timespec.simps by linarith
qed

lemma busy_wait_ms_total_example:
  "\<exists>j. busy_wait_ms slow_clock 9 100 = Some (Suc j) \<and> j \<le> 11"
proof -
  have "clock_mono slow_clock" by (simp add: clock_mono_def ns_of_slow_clock)
  from busy_wait_ms_total [OF this, of 100 9 11] show ?thesis by (auto simp: ns_of_slow_clock)
qed

end
