(* ===== verification/Counter.thy ===== *)
theory Counter
  imports Clock
begin

text \<open>
  The free-running 64-bit counter read in two halves on a 32-bit machine
  (\<open>C/rdtime.h\<close>, \<open>C/read_counter.h\<close>) and the frequency it counts at
  (\<open>read_freerun_freq\<close>). \<open>tm i\<close> is the 64-bit \<open>time\<close> register at the \<open>i\<close>-th
  CSR read instruction of the process.
\<close>

unbundle bit_operations_syntax

section \<open>Reading the counter\<close>

definition rdtimeh :: "64 word \<Rightarrow> 32 word" where "rdtimeh t = ucast (drop_bit 32 t)"
definition rdtime :: "64 word \<Rightarrow> 32 word" where "rdtime t = ucast t"

definition join_hi_lo :: "32 word \<Rightarrow> 32 word \<Rightarrow> 64 word" where
  "join_hi_lo hi lo = push_bit 32 (ucast hi) OR ucast lo"

text \<open>The assembly loop of \<open>C/rdtime.h\<close>: read high, low, high again; retry if the high half moved.\<close>

partial_function (option) read_time_rv32 :: "(nat \<Rightarrow> 64 word) \<Rightarrow> nat \<Rightarrow> (64 word \<times> nat) option" where
  "read_time_rv32 tm i =
     (let hi = rdtimeh (tm i); lo = rdtime (tm (i + 1)); tmp = rdtimeh (tm (i + 2)) in
      if hi \<noteq> tmp then read_time_rv32 tm (i + 3) else Some (join_hi_lo hi lo, i + 3))"

text \<open>The \<open>do ... while\<close> loop of \<open>C/read_counter.h\<close> on RV32.\<close>

partial_function (option) read_freerun_counter :: "(nat \<Rightarrow> 64 word) \<Rightarrow> nat \<Rightarrow> (64 word \<times> nat) option" where
  "read_freerun_counter tm i =
     (let hi = rdtimeh (tm i); lo = rdtime (tm (i + 1)); hi2 = rdtimeh (tm (i + 2)); i = i + 3 in
      if hi = hi2 then Some (join_hi_lo hi lo, i) else read_freerun_counter tm i)"

text \<open>The readers for the other architectures: one instruction, on x86 and ARM into two registers.\<close>

definition read_freerun_counter_x86 :: "(nat \<Rightarrow> 64 word) \<Rightarrow> nat \<Rightarrow> 64 word \<times> nat" where
  "read_freerun_counter_x86 tsc i =
     (let lo = ucast (tsc i); hi = ucast (drop_bit 32 (tsc i)) in (push_bit 32 (ucast (hi :: 32 word)) OR ucast (lo :: 32 word), i + 1))"

definition read_freerun_counter_rv64 :: "(nat \<Rightarrow> 64 word) \<Rightarrow> nat \<Rightarrow> 64 word \<times> nat" where
  "read_freerun_counter_rv64 tm i = (tm i, i + 1)"

definition read_freerun_counter_aarch64 :: "(nat \<Rightarrow> 64 word) \<Rightarrow> nat \<Rightarrow> 64 word \<times> nat" where
  "read_freerun_counter_aarch64 cntvct i = (cntvct i, i + 1)"

definition read_freerun_counter_arm :: "(nat \<Rightarrow> 64 word) \<Rightarrow> nat \<Rightarrow> 64 word \<times> nat" where
  "read_freerun_counter_arm cntvct i =
     (let lo = ucast (cntvct i); hi = ucast (drop_bit 32 (cntvct i)) in (push_bit 32 (ucast (hi :: 32 word)) OR ucast (lo :: 32 word), i + 1))"

lemma join_halves: "join_hi_lo (rdtimeh t) (rdtime t) = t"
  by (rule bit_word_eqI)
    (auto simp: join_hi_lo_def rdtimeh_def rdtime_def bit_or_iff bit_push_bit_iff bit_ucast_iff
      bit_drop_bit_eq)

lemma one_instruction_readers:
  "read_freerun_counter_x86 tm i = (tm i, i + 1)" "read_freerun_counter_rv64 tm i = (tm i, i + 1)"
  "read_freerun_counter_aarch64 tm i = (tm i, i + 1)" "read_freerun_counter_arm tm i = (tm i, i + 1)"
  using join_halves [of "tm i"]
  by (simp_all add: join_hi_lo_def rdtimeh_def rdtime_def read_freerun_counter_x86_def read_freerun_counter_rv64_def
      read_freerun_counter_aarch64_def read_freerun_counter_arm_def)

lemma unat_rdtimeh: "unat (rdtimeh t) = unat t div 4294967296"
proof -
  have "unat t < 2 ^ 64" using unsigned_less [of t] by simp
  then have "unat t div 4294967296 < 4294967296" by simp
  then show ?thesis
    by (simp add: rdtimeh_def unsigned_ucast_eq drop_bit_eq_div unat_div take_bit_eq_mod)
qed

lemma rdtimeh_eq: "rdtimeh s = rdtimeh t \<longleftrightarrow> unat s div 4294967296 = unat t div 4294967296"
  by (metis unat_rdtimeh word_unat_eq_iff)

text \<open>A counter that does not go backwards (it wraps after 2 to the 64 ticks, which is not reached).\<close>

definition counter_mono :: "(nat \<Rightarrow> 64 word) \<Rightarrow> bool" where
  "counter_mono tm \<longleftrightarrow> (\<forall>i j. i \<le> j \<longrightarrow> tm i \<le> tm j)"

text \<open>
  An accepted triple returns the full register value at the instant of its middle read.
\<close>

lemma stable_high_exact:
  assumes "counter_mono tm" "rdtimeh (tm i) = rdtimeh (tm (i + 2))"
  shows "join_hi_lo (rdtimeh (tm i)) (rdtime (tm (i + 1))) = tm (i + 1)"
proof -
  have "unat (tm i) \<le> unat (tm (i + 1))" "unat (tm (i + 1)) \<le> unat (tm (i + 2))"
    using assms(1) by (auto simp: counter_mono_def word_le_nat_alt)
  then have "unat (tm i) div 4294967296 \<le> unat (tm (i + 1)) div 4294967296"
    "unat (tm (i + 1)) div 4294967296 \<le> unat (tm (i + 2)) div 4294967296"
    by (auto intro: div_le_mono)
  then have "rdtimeh (tm i) = rdtimeh (tm (i + 1))"
    using assms(2) by (simp add: rdtimeh_eq)
  then show ?thesis by (simp add: join_halves)
qed

lemma read_time_rv32_sound:
  assumes mono: "counter_mono tm" and ret: "read_time_rv32 tm i = Some (v, j)"
  shows "i + 3 \<le> j \<and> v = tm (j - 2)"
proof -
  have "counter_mono tm \<longrightarrow> i + 3 \<le> snd (v, j) \<and> fst (v, j) = tm (snd (v, j) - 2)"
  proof (rule read_time_rv32.raw_induct
      [where P = "\<lambda>tm i r. counter_mono tm \<longrightarrow> i + 3 \<le> snd r \<and> fst r = tm (snd r - 2)", OF _ ret])
    fix f tm i r
    assume IH: "\<And>tm i r. f tm i = Some r \<Longrightarrow> counter_mono tm \<longrightarrow> i + 3 \<le> snd r \<and> fst r = tm (snd r - 2)"
      and eq: "(let hi = rdtimeh (tm i); lo = rdtime (tm (i + 1)); tmp = rdtimeh (tm (i + 2)) in
        if hi \<noteq> tmp then f tm (i + 3) else Some (join_hi_lo hi lo, i + 3)) = Some r"
    show "counter_mono tm \<longrightarrow> i + 3 \<le> snd r \<and> fst r = tm (snd r - 2)"
    proof (cases "rdtimeh (tm i) = rdtimeh (tm (i + 2))")
      case True
      with eq have "r = (join_hi_lo (rdtimeh (tm i)) (rdtime (tm (i + 1))), i + 3)"
        by (simp add: Let_def)
      with True stable_high_exact [of tm i] show ?thesis by (auto simp: eval_nat_numeral)
    next
      case False
      with eq have "f tm (i + 3) = Some r" by (simp add: Let_def)
      from IH [OF this] show ?thesis by auto
    qed
  qed
  with mono show ?thesis by simp
qed

lemma read_time_rv32_step:
  "read_time_rv32 tm i =
     (if rdtimeh (tm i) = rdtimeh (tm (i + 2))
      then Some (join_hi_lo (rdtimeh (tm i)) (rdtime (tm (i + 1))), i + 3)
      else read_time_rv32 tm (i + 3))"
  by (subst read_time_rv32.simps) (simp add: Let_def)

text \<open>One or two rounds, and the value of the middle read.\<close>

lemma read_time_rv32_returns:
  assumes mono: "counter_mono tm"
    and slow: "unat (tm (i + 5)) - unat (tm i) < 4294967296"
  shows "\<exists>j. read_time_rv32 tm i = Some (tm (j - 2), j) \<and> (j = i + 3 \<or> j = i + 6)"
proof (cases "rdtimeh (tm i) = rdtimeh (tm (i + 2))")
  case True
  then have "read_time_rv32 tm i = Some (tm (i + 1), i + 3)"
    using stable_high_exact [OF mono True] by (simp add: read_time_rv32_step)
  then show ?thesis by (auto simp: eval_nat_numeral intro!: exI [of _ "i + 3"])
next
  case False
  have le: "unat (tm k) \<le> unat (tm l)" if "k \<le> l" for k l
    using mono that by (auto simp: counter_mono_def word_le_nat_alt)
  let ?q = "\<lambda>k. unat (tm k) div 4294967296"
  have mono_q: "?q k \<le> ?q l" if "k \<le> l" for k l using le [OF that] by (rule div_le_mono)
  have "?q i \<noteq> ?q (i + 2)" using False by (simp add: rdtimeh_eq)
  with mono_q [of i "i + 2"] mono_q [of "i + 2" "i + 3"] have "?q i + 1 \<le> ?q (i + 3)" by simp
  moreover have "?q (i + 5) \<le> ?q i + 1"
  proof -
    have "unat (tm (i + 5)) \<le> unat (tm i) + 4294967296" using slow by simp
    then have "?q (i + 5) \<le> (unat (tm i) + 4294967296) div 4294967296" by (rule div_le_mono)
    then show ?thesis by simp
  qed
  ultimately have "?q (i + 3) = ?q (i + 5)" using mono_q [of "i + 3" "i + 5"] by simp
  moreover have idx: "i + 3 + 2 = i + 5" "i + 3 + 1 = i + 4" "i + 3 + 3 = i + 6" by simp_all
  ultimately have eq: "rdtimeh (tm (i + 3)) = rdtimeh (tm (i + 3 + 2))"
    by (simp only: rdtimeh_eq idx)
  have "read_time_rv32 tm (i + 3) = Some (tm (i + 4), i + 6)"
    using stable_high_exact [OF mono eq] eq
    by (subst read_time_rv32_step) (simp only: idx if_True simp_thms)
  with False have "read_time_rv32 tm i = Some (tm (i + 4), i + 6)"
    by (simp only: read_time_rv32_step [of tm i] if_False)
  moreover have "i + 6 - 2 = i + 4" by simp
  ultimately show ?thesis by (intro exI [of _ "i + 6"]) (simp only: simp_thms)
qed

text \<open>A counter that crosses a 2 to the 32 boundary between the first two reads.\<close>

definition crossing :: "nat \<Rightarrow> 64 word" where
  "crossing k = (if k = 0 then 4294967295 else 4294967296)"

lemma crossing_mono: "counter_mono crossing"
  by (auto simp: counter_mono_def crossing_def word_le_nat_alt)

text \<open>The two loops are the same function.\<close>

lemma read_freerun_counter_eq: "read_freerun_counter = read_time_rv32"
proof -
  have fwd: "read_time_rv32 tm i = Some r" if "read_freerun_counter tm i = Some r" for tm i r
  proof (rule read_freerun_counter.raw_induct
      [where P = "\<lambda>tm i r. read_time_rv32 tm i = Some r", OF _ that])
    fix f tm i r
    assume "\<And>tm i r. f tm i = Some r \<Longrightarrow> read_time_rv32 tm i = Some r"
      and "(let hi = rdtimeh (tm i); lo = rdtime (tm (i + 1)); hi2 = rdtimeh (tm (i + 2)); i = i + 3 in
        if hi = hi2 then Some (join_hi_lo hi lo, i) else f tm i) = Some r"
    then show "read_time_rv32 tm i = Some r"
      by (subst read_time_rv32_step) (auto simp: Let_def split: if_splits)
  qed
  have bwd: "read_freerun_counter tm i = Some r" if "read_time_rv32 tm i = Some r" for tm i r
  proof (rule read_time_rv32.raw_induct
      [where P = "\<lambda>tm i r. read_freerun_counter tm i = Some r", OF _ that])
    fix f tm i r
    assume "\<And>tm i r. f tm i = Some r \<Longrightarrow> read_freerun_counter tm i = Some r"
      and "(let hi = rdtimeh (tm i); lo = rdtime (tm (i + 1)); tmp = rdtimeh (tm (i + 2)) in
        if hi \<noteq> tmp then f tm (i + 3) else Some (join_hi_lo hi lo, i + 3)) = Some r"
    then show "read_freerun_counter tm i = Some r"
      by (subst read_freerun_counter.simps) (auto simp: Let_def split: if_splits)
  qed
  show ?thesis
  proof (intro ext)
    fix tm i
    show "read_freerun_counter tm i = read_time_rv32 tm i"
      using fwd bwd by (metis not_Some_eq)
  qed
qed



section \<open>The counter's frequency\<close>

text \<open>
  \<open>read_freerun_freq\<close> (RISC-V): a value cached in a static variable, else the device tree's
  \<open>timebase-frequency\<close> (four big-endian bytes), else a calibration against the monotonic
  clock over ten milliseconds. \<open>dt\<close> is what \<open>fopen\<close> and \<open>fread\<close> give (\<open>None\<close>: no such
  file), \<open>clk\<close> the successive clock samples and \<open>tm\<close> the successive register reads.
\<close>

definition elapsed_ns :: "timespec \<Rightarrow> timespec \<Rightarrow> int" where
  "elapsed_ns t0 t1 = s64 ((tv_sec t1 - tv_sec t0) * 1000000000 + (tv_nsec t1 - tv_nsec t0))"

definition be32 :: "char list \<Rightarrow> 64 word" where
  "be32 buf = push_bit 24 (of_char (buf ! 0)) OR push_bit 16 (of_char (buf ! 1)) OR
     push_bit 8 (of_char (buf ! 2)) OR of_char (buf ! 3)"

definition dt_freq :: "char list option \<Rightarrow> 64 word" where
  "dt_freq dt = (case dt of None \<Rightarrow> 0
     | Some content \<Rightarrow> if 4 \<le> length content then be32 (take 4 content) else 0)"

definition ticks_to_hz :: "64 word \<Rightarrow> 64 word \<Rightarrow> int \<Rightarrow> 64 word" where
  "ticks_to_hz c0 c1 ns = (c1 - c0) * 1000000000 div word_of_int ns"

definition calibrate :: "(nat \<Rightarrow> timespec) \<Rightarrow> (nat \<Rightarrow> 64 word) \<Rightarrow> 64 word option" where
  "calibrate clk tm =
     (case read_freerun_counter tm 0 of None \<Rightarrow> None
      | Some (c0, i) \<Rightarrow>
        (case poll_until (\<lambda>k. \<not> elapsed_ns (clk 0) (clk k) < 10 * 1000 * 1000) 1 of None \<Rightarrow> None
         | Some k \<Rightarrow>
           (case read_freerun_counter tm i of None \<Rightarrow> None
            | Some (c1, _) \<Rightarrow> Some (ticks_to_hz c0 c1 (elapsed_ns (clk 0) (clk k))))))"

text \<open>The result and the new content of \<open>cached_freq\<close>.\<close>

definition read_freerun_freq ::
    "64 word \<Rightarrow> char list option \<Rightarrow> (nat \<Rightarrow> timespec) \<Rightarrow> (nat \<Rightarrow> 64 word) \<Rightarrow> (64 word \<times> 64 word) option" where
  "read_freerun_freq cached dt clk tm =
     (if cached \<noteq> 0 then Some (cached, cached)
      else let cached = dt_freq dt in
        if cached = 0 then map_option (\<lambda>f. (f, f)) (calibrate clk tm)
        else Some (cached, cached))"

text \<open>
  The x86 variant: CPUID leaf 0x15 (\<open>max_leaf\<close> and the registers it returns) before the
  calibration, whose counter is read by one instruction.
\<close>

definition calibrate_x86 :: "(nat \<Rightarrow> timespec) \<Rightarrow> (nat \<Rightarrow> 64 word) \<Rightarrow> 64 word option" where
  "calibrate_x86 clk tsc =
     (case poll_until (\<lambda>k. \<not> elapsed_ns (clk 0) (clk k) < 10 * 1000 * 1000) 1 of None \<Rightarrow> None
      | Some k \<Rightarrow> Some (ticks_to_hz (fst (read_freerun_counter_x86 tsc 0)) (fst (read_freerun_counter_x86 tsc 1))
          (elapsed_ns (clk 0) (clk k))))"

definition read_freerun_freq_x86 ::
    "64 word \<Rightarrow> 32 word \<Rightarrow> 32 word \<times> 32 word \<times> 32 word \<Rightarrow> (nat \<Rightarrow> timespec) \<Rightarrow> (nat \<Rightarrow> 64 word) \<Rightarrow>
     (64 word \<times> 64 word) option" where
  "read_freerun_freq_x86 cached max_leaf leaf15 clk tsc =
     (if cached \<noteq> 0 then Some (cached, cached)
      else case leaf15 of (eax, ebx, ecx) \<Rightarrow>
        if 0x15 \<le> max_leaf \<and> eax \<noteq> 0 \<and> ebx \<noteq> 0 \<and> ecx \<noteq> 0
        then let f = ucast ecx * ucast ebx div ucast eax in Some (f, f)
        else map_option (\<lambda>f. (f, f)) (calibrate_x86 clk tsc))"

text \<open>On ARM the frequency is a register, of 64 bits on AArch64 and of 32 bits before.\<close>

definition read_freerun_freq_aarch64 :: "64 word \<Rightarrow> 64 word" where "read_freerun_freq_aarch64 cntfrq = cntfrq"
definition read_freerun_freq_arm :: "32 word \<Rightarrow> 64 word" where "read_freerun_freq_arm cntfrq = ucast cntfrq"

lemma arm_freq_exact: "read_freerun_freq_arm f = read_freerun_freq_aarch64 (ucast f) \<and> unat (read_freerun_freq_arm f) = unat f"
proof -
  have "unat f < 2 ^ 64" by (rule order.strict_trans [OF unsigned_less]) simp
  then show ?thesis
    by (simp add: read_freerun_freq_arm_def read_freerun_freq_aarch64_def unsigned_ucast_eq take_bit_nat_eq_self)
qed

text \<open>Where the device tree and CPUID say nothing, both architectures calibrate alike: x86 gets the value that
  RV32 gets, if it reads its counter at the instants of the accepted rounds.\<close>

lemma calibrations_agree:
  assumes "read_freerun_freq 0 None clk tm = Some r"
  shows "\<exists>a b. read_freerun_freq_x86 0 0 leaf15 clk (\<lambda>n. if n = 0 then a else b) = Some r"
  using assms
  by (auto simp: read_freerun_freq_def read_freerun_freq_x86_def dt_freq_def calibrate_def calibrate_x86_def
      one_instruction_readers split: option.splits prod.splits)

lemma elapsed_ns_exact:
  "0 \<le> ns_of t1 - ns_of t0 \<Longrightarrow> ns_of t1 - ns_of t0 < 9223372036854775808 \<Longrightarrow>
   elapsed_ns t0 t1 = ns_of t1 - ns_of t0"
proof -
  assume a: "0 \<le> ns_of t1 - ns_of t0" "ns_of t1 - ns_of t0 < 9223372036854775808"
  have "(tv_sec t1 - tv_sec t0) * 1000000000 + (tv_nsec t1 - tv_nsec t0) = ns_of t1 - ns_of t0"
    by (simp add: ns_of_def algebra_simps)
  with a show ?thesis unfolding elapsed_ns_def by (simp only: s64_id)
qed

lemma ticks_to_hz_exact:
  assumes "c0 \<le> c1" "(unat c1 - unat c0) * 1000000000 < 18446744073709551616"
    and "0 < ns" "ns < 18446744073709551616"
  shows "unat (ticks_to_hz c0 c1 ns) = (unat c1 - unat c0) * 1000000000 div nat ns"
proof -
  have "unat (c1 - c0) = unat c1 - unat c0" using assms(1) by (simp add: unat_sub)
  then have "unat ((c1 - c0) * 1000000000) = (unat c1 - unat c0) * 1000000000"
    using assms(2) by (subst unat_word_ariths) simp
  moreover have "unat (word_of_int ns :: 64 word) = nat ns"
    using assms(3,4) by (simp add: unsigned_of_int take_bit_int_eq_self nat_eq_iff)
  ultimately show ?thesis by (simp add: ticks_to_hz_def unat_div)
qed

text \<open>The device tree's encoding of a cell, and what \<open>be32\<close> makes of it.\<close>

definition be_bytes :: "nat \<Rightarrow> char list" where
  "be_bytes f = [char_of (drop_bit 24 f), char_of (drop_bit 16 f), char_of (drop_bit 8 f), char_of f]"

lemma unat_byte: "unat (of_char (char_of n) :: 64 word) = take_bit 8 (n::nat)"
proof -
  have "(of_char (char_of n) :: 64 word) = of_nat (of_char (char_of n))"
    by (rule of_nat_of_char [symmetric])
  also have "\<dots> = of_nat (take_bit 8 n)" by (simp add: take_bit_eq_mod)
  finally have "unat (of_char (char_of n) :: 64 word) = take_bit 64 (take_bit 8 n)"
    by (simp add: unsigned_of_nat)
  then show ?thesis by simp
qed

lemma be32_bytes: "f < 4294967296 \<Longrightarrow> unat (be32 (be_bytes f)) = f"
proof -
  assume "f < 4294967296"
  then have f: "take_bit 32 f = f" by (simp add: take_bit_nat_eq_self)
  have "unat (be32 (be_bytes f)) = take_bit 64 (push_bit 24 (take_bit 8 (drop_bit 24 f))) OR
      take_bit 64 (push_bit 16 (take_bit 8 (drop_bit 16 f))) OR
      take_bit 64 (push_bit 8 (take_bit 8 (drop_bit 8 f))) OR take_bit 8 f"
    by (simp add: be32_def be_bytes_def unsigned_or_eq unsigned_push_bit_eq unat_byte del: of_char_of)
  also have "\<dots> = take_bit 32 f"
  proof (rule bit_eqI)
    fix n :: nat
    consider "n < 8" | "8 \<le> n" "n < 16" | "16 \<le> n" "n < 24" | "24 \<le> n" "n < 32" | "32 \<le> n" by linarith
    then show "bit (take_bit 64 (push_bit 24 (take_bit 8 (drop_bit 24 f))) OR
      take_bit 64 (push_bit 16 (take_bit 8 (drop_bit 16 f))) OR
      take_bit 64 (push_bit 8 (take_bit 8 (drop_bit 8 f))) OR take_bit 8 f) n = bit (take_bit 32 f) n"
      by cases (simp_all add: bit_or_iff bit_take_bit_iff bit_push_bit_iff bit_drop_bit_eq less_diff_conv2)
  qed
  finally show ?thesis by (simp add: f)
qed

text \<open>
  The frequency a device tree announces is decoded exactly, and without looking at the
  clock or the counter; and whatever a call returned, every later call returns it again
  without looking at anything, unless it was 0.
\<close>

lemma read_freerun_freq_dt_cached:
  assumes "0 < f" "f < 4294967296"
  shows "\<exists>w. unat w = f \<and> read_freerun_freq 0 (Some (be_bytes f @ rest)) clk tm = Some (w, w) \<and>
    (\<forall>dt' clk' tm'. read_freerun_freq w dt' clk' tm' = Some (w, w))"
proof -
  let ?w = "be32 (be_bytes f)"
  have u: "unat ?w = f" using be32_bytes [OF assms(2)] .
  then have "?w \<noteq> 0" using assms(1) by (metis not_less_zero unat_0)
  moreover have "dt_freq (Some (be_bytes f @ rest)) = ?w"
    by (simp add: dt_freq_def be_bytes_def)
  ultimately show ?thesis
    using u by (intro exI [of _ ?w]) (simp add: read_freerun_freq_def Let_def)
qed

lemma read_freerun_freq_dt_cached_example:
  "\<exists>w. unat w = 10000000 \<and> read_freerun_freq 0 (Some (be_bytes 10000000)) slow_clock crossing = Some (w, w)"
  using read_freerun_freq_dt_cached [of 10000000 "[]" slow_clock crossing] by auto

text \<open>
  Without a device tree entry the calibration returns as soon as the clock has moved
  ten milliseconds. The result is the number of ticks between two exact register values,
  scaled by the measured time with one truncation, provided the ticks times 10 to the 9 fit
  in 64 bits.
\<close>

lemma calibrate_total:
  assumes tm: "counter_mono tm" "\<forall>i. unat (tm (i + 5)) - unat (tm i) < 4294967296"
      "\<forall>i. (unat (tm i) - unat (tm 0)) * 1000000000 < 18446744073709551616"
    and clk: "clock_mono clk" "0 < k" "10000000 \<le> ns_of (clk k) - ns_of (clk 0)"
      "ns_of (clk k) - ns_of (clk 0) < 9223372036854775808"
  shows "\<exists>a b l f. read_freerun_freq 0 None clk tm = Some (f, f) \<and> a < b \<and> b \<le> 10 \<and> 0 < l \<and> l \<le> k \<and>
    10000000 \<le> ns_of (clk l) - ns_of (clk 0) \<and>
    unat f = (unat (tm b) - unat (tm a)) * 1000000000 div nat (ns_of (clk l) - ns_of (clk 0))"
proof -
  let ?P = "\<lambda>k. \<not> elapsed_ns (clk 0) (clk k) < 10 * 1000 * 1000"
  have ns: "elapsed_ns (clk 0) (clk l) = ns_of (clk l) - ns_of (clk 0)" if "l \<le> k" for l
  proof (rule elapsed_ns_exact)
    have "ns_of (clk 0) \<le> ns_of (clk l)" "ns_of (clk l) \<le> ns_of (clk k)"
      using clk(1) that by (auto simp: clock_mono_def)
    then show "0 \<le> ns_of (clk l) - ns_of (clk 0)" "ns_of (clk l) - ns_of (clk 0) < 9223372036854775808"
      using clk(4) by auto
  qed
  have "?P k" using clk(3) ns [of k] by simp
  then obtain l where l: "poll_until ?P 1 = Some l" "l \<le> k"
    using poll_until_returns [of 1 k ?P] clk(2) by auto
  from poll_until_SomeD [OF l(1)] l(2) have l': "0 < l" "10000000 \<le> ns_of (clk l) - ns_of (clk 0)"
    using ns [of l] by auto
  obtain j where j: "read_time_rv32 tm 0 = Some (tm (j - 2), j)" "j = 3 \<or> j = 6"
    using read_time_rv32_returns [OF tm(1), of 0] tm(2) [rule_format, of 0] by auto
  obtain j' where j': "read_time_rv32 tm j = Some (tm (j' - 2), j')" "j' = j + 3 \<or> j' = j + 6"
    using read_time_rv32_returns [OF tm(1), of j] tm(2) [rule_format, of j] by auto
  define f where "f = ticks_to_hz (tm (j - 2)) (tm (j' - 2)) (ns_of (clk l) - ns_of (clk 0))"
  have "calibrate clk tm = Some f"
    unfolding calibrate_def read_freerun_counter_eq j l
    by (simp add: j' ns [OF l(2)] f_def)
  then have run: "read_freerun_freq 0 None clk tm = Some (f, f)"
    by (simp add: read_freerun_freq_def dt_freq_def)
  have "tm (j - 2) \<le> tm (j' - 2)" "unat (tm 0) \<le> unat (tm (j - 2))"
    using tm(1) j'(2) by (auto simp: counter_mono_def word_le_nat_alt)
  moreover have "(unat (tm (j' - 2)) - unat (tm (j - 2))) * 1000000000 < 18446744073709551616"
    using tm(3) [rule_format, of "j' - 2"] calculation(2) by linarith
  moreover have "ns_of (clk l) \<le> ns_of (clk k)" using clk(1) l(2) by (simp add: clock_mono_def)
  then have "0 < ns_of (clk l) - ns_of (clk 0)" "ns_of (clk l) - ns_of (clk 0) < 18446744073709551616"
    using l'(2) clk(4) by simp_all
  ultimately have "unat f = (unat (tm (j' - 2)) - unat (tm (j - 2))) * 1000000000 div nat (ns_of (clk l) - ns_of (clk 0))"
    unfolding f_def by (intro ticks_to_hz_exact) auto
  with run l' l j j' show ?thesis
    by (intro exI [of _ "j - 2"] exI [of _ "j' - 2"] exI [of _ l] exI [of _ f]) auto
qed

text \<open>A 10 MHz counter against a clock sampled every 100 ms.\<close>

definition ten_mhz :: "nat \<Rightarrow> 64 word" where
  "ten_mhz i = (if i < 3 then 1000 else 1001000)"

lemma calibrate_total_example:
  "\<exists>f. read_freerun_freq 0 None slow_clock ten_mhz = Some (f, f)"
proof -
  have mono: "counter_mono ten_mhz"
    by (auto simp: counter_mono_def ten_mhz_def word_le_nat_alt)
  have "\<forall>i. unat (ten_mhz (i + 5)) - unat (ten_mhz i) < 4294967296"
    "\<forall>i. (unat (ten_mhz i) - unat (ten_mhz 0)) * 1000000000 < 18446744073709551616"
    by (simp_all add: ten_mhz_def)
  moreover have "clock_mono slow_clock" by (simp add: clock_mono_def ns_of_slow_clock)
  ultimately show ?thesis
    using calibrate_total [OF mono, of slow_clock 1] by (auto simp: ns_of_slow_clock)
qed

end
