(* ===== verification/ChardevUser.thy ===== *)
theory ChardevUser
  imports ChardevProps Counter
begin

text \<open>
  The test program \<open>modules/chardev_user.c\<close> on top of the model of the driver: \<open>lseek\<close>,
  \<open>write\<close> and \<open>read\<close> on its file descriptor go to \<open>fops\<close> (open file 0), and the pointer
  returned by \<open>mmap\<close> is the driver's page. Printed lines are the values of \<open>data_report\<close> and
  \<open>timing_report\<close>.
\<close>

definition TEST_SIZE :: nat where "TEST_SIZE = 1024"
definition ITERATIONS :: nat where "ITERATIONS = 1000"

text \<open>The assembly loop is the one of \<open>C/rdtime.h\<close>.\<close>

definition get_rdtime :: "(nat \<Rightarrow> 64 word) \<Rightarrow> nat \<Rightarrow> (64 word \<times> nat) option" where
  "get_rdtime tm i = read_time_rv32 tm i"

section \<open>Access through the mapping\<close>

definition mmap_load :: "dev_files \<Rightarrow> int \<Rightarrow> int \<Rightarrow> char list res" where
  "mmap_load s off n = mem_read (kernel_buffer (fst s)) off n"

definition mmap_store :: "dev_files \<Rightarrow> int \<Rightarrow> char list \<Rightarrow> dev_files res" where
  "mmap_store s off bs =
     and_then (mem_write (kernel_buffer (fst s)) off bs)
       (\<lambda>kb. Inr ((fst s)\<lparr>kernel_buffer := kb\<rparr>, snd s))"

text \<open>\<open>strncmp(a, b, n) == 0\<close>; running off an array without a terminator is not equal.\<close>

fun strncmp_eq :: "char list \<Rightarrow> char list \<Rightarrow> nat \<Rightarrow> bool" where
  "strncmp_eq a b 0 = True"
| "strncmp_eq (x # xs) (y # ys) (Suc n) = (x = y \<and> (x = NUL \<or> strncmp_eq xs ys n))"
| "strncmp_eq _ _ (Suc n) = False"

lemma strncmp_eq_prefix: "n \<le> length a \<Longrightarrow> take n a = take n b \<Longrightarrow> n \<le> length b \<Longrightarrow> strncmp_eq a b n"
  by (induction a b n rule: strncmp_eq.induct) auto

section \<open>The data flow test\<close>

datatype data_report = WriteToMmapOk string | WriteToMmapFail | MmapToReadOk string | MmapToReadFail

definition test_data :: string where "test_data = ''Hello, mmap and read/write test!''"
definition new_data :: string where "new_data = ''This data is written via mmap!''"

definition run_data_flow_test :: "kapi \<Rightarrow> dev_files \<Rightarrow> (data_report list \<times> dev_files) res" where
  "run_data_flow_test K s =
     (let read_buffer = replicate TEST_SIZE NUL; len = length test_data in
      and_then (fops K s (0, Seek 0 SEEK_SET)) (\<lambda>(_, s).
      and_then (fops K s (0, Write test_data)) (\<lambda>(_, s).
      and_then (mmap_load s 0 (int len)) (\<lambda>bs.
      and_then (mem_write read_buffer 0 bs) (\<lambda>read_buffer.
      let r1 = (if strncmp_eq read_buffer (test_data @ [NUL]) len
                then WriteToMmapOk (c_str read_buffer) else WriteToMmapFail);
          len = length new_data in
      and_then (mmap_store s 0 new_data) (\<lambda>s.
      and_then (fops K s (0, Seek 0 SEEK_SET)) (\<lambda>(_, s).
      and_then (fops K s (0, Read (int len))) (\<lambda>((_, bs), s).
      and_then (mem_write read_buffer 0 bs) (\<lambda>read_buffer.
      let r2 = (if strncmp_eq read_buffer (new_data @ [NUL]) len
                then MmapToReadOk (c_str read_buffer) else MmapToReadFail) in
      Inr ([r1, r2], s))))))))))"

lemma fops_rewind:
  assumes "kapi_doc K" "files_inv s"
  shows "fops K s (0, Seek 0 SEEK_SET) = Inr ((0, []), fst s, (snd s)(0 := 0))"
proof -
  have "dev_inv (fst s)" "llseek_doc K" "0 \<le> snd s 0"
    using assms by (auto simp: files_inv_def kapi_doc_def)
  from dev_llseek_ok [OF this, of 0 SEEK_SET] obtain r p where
    "dev_llseek K (fst s) (snd s 0) 0 SEEK_SET = Inr (r, p, fst s)" "r = 0" "p = 0"
    using \<open>dev_inv (fst s)\<close> by (auto simp: dev_inv_def)
  then show ?thesis by (cases s) simp
qed

text \<open>A write of at most a page from the start of the file, and a read back.\<close>

lemma fops_write_start:
  assumes K: "kapi_doc K" "no_fault K" and d: "dev_inv d" and ps: "ps 0 = 0"
    and buf: "buf \<noteq> []" "length buf \<le> 4096"
  shows "fops K (d, ps) (0, Write buf) = Inr ((int (length buf), []),
    d\<lparr>kernel_buffer := overlay (kernel_buffer d) 0 buf,
      data_len := max (data_len d) (int (length buf))\<rparr>, ps(0 := int (length buf)))"
proof -
  have "copy_from_user_doc K" "(0::int) \<le> 0" "0 < PAGE_SIZE" "0 < int (length buf)" "int (length buf) < 4294967296"
    using K buf by (auto simp: kapi_doc_def PAGE_SIZE_def)
  from dev_write_room [OF d this order.refl] obtain u where
    "fst (copy_from_user K buf (min (int (length buf)) (PAGE_SIZE - 0))) = u"
    "dev_write K d buf (int (length buf)) 0 = Inr (min (int (length buf)) (PAGE_SIZE - 0) - u,
       0 + (min (int (length buf)) (PAGE_SIZE - 0) - u),
       d\<lparr>kernel_buffer := overlay (kernel_buffer d) (nat 0)
           (take (nat (min (int (length buf)) (PAGE_SIZE - 0) - u)) buf @ replicate (nat u) NUL),
         data_len := max (data_len d) (0 + (min (int (length buf)) (PAGE_SIZE - 0) - u))\<rparr>)" by metis
  moreover have "min (int (length buf)) PAGE_SIZE = int (length buf)" using buf by (simp add: PAGE_SIZE_def)
  moreover have "fst (copy_from_user K buf (int (length buf))) = 0" using K by (simp add: no_fault_def)
  ultimately show ?thesis by (simp add: ps)
qed

lemma fops_read_start:
  assumes K: "kapi_doc K" "no_fault K" and d: "dev_inv d" and ps: "ps 0 = 0"
    and n: "0 < n" "int n \<le> data_len d"
  shows "fops K (d, ps) (0, Read (int n)) = Inr ((int n, take n (kernel_buffer d)), d, ps(0 := int n))"
proof -
  have c: "copy_to_user_doc K" "(0::int) \<le> 0" "0 < data_len d" "0 \<le> int n" "int n < 4294967296"
    "\<And>k. copy_to_user K k = 0" "data_len d \<le> 4096"
    using K d n by (auto simp: kapi_doc_def no_fault_def dev_inv_def PAGE_SIZE_def)
  have "min (int n) (data_len d) = int n" using n by simp
  moreover have "take n (file_content d) = take n (kernel_buffer d)"
    using n by (simp add: file_content_def min_absorb1 le_nat_iff)
  ultimately show ?thesis
    using dev_read_inside(1) [OF d c(1-5)] by (simp add: ps c(6))
qed

lemma mmap_store_ok:
  assumes "dev_inv (fst s)" "length bs \<le> 4096"
  shows "mmap_store s 0 bs = Inr ((fst s)\<lparr>kernel_buffer := overlay (kernel_buffer (fst s)) 0 bs\<rparr>, snd s)"
  using assms by (simp add: mmap_store_def mem_write_def dev_inv_def PAGE_SIZE_def)

lemma mmap_load_ok:
  assumes "dev_inv (fst s)" "n \<le> 4096"
  shows "mmap_load s 0 (int n) = Inr (take n (kernel_buffer (fst s)))"
  using assms by (simp add: mmap_load_def mem_read_def dev_inv_def PAGE_SIZE_def)

lemma take_overlay0: "take n (overlay m 0 bs) = take n bs" if "n \<le> length bs"
  using that by (simp add: overlay_def)

text \<open>
  On the driver, whatever it held before, the test program reports success for both
  directions: bytes written with \<open>write\<close> are seen through the mapping, and bytes stored
  through the mapping are returned by \<open>read\<close>. The second line it prints ends with two bytes
  left over from the first test, because the buffer is longer than the second string.
\<close>

lemma data_flow_test_succeeds:
  assumes K: "kapi_doc K" "no_fault K" and inv: "files_inv s"
  shows "\<exists>s'. run_data_flow_test K s =
      Inr ([WriteToMmapOk test_data, MmapToReadOk (new_data @ ''t!'')], s') \<and> files_inv s'"
proof -
  obtain d ps where s: "s = (d, ps)" by fastforce
  have d: "dev_inv d" and lens: "length test_data = 32" "length new_data = 30"
    using inv by (auto simp: files_inv_def s test_data_def new_data_def)
  define d1 where "d1 = d\<lparr>kernel_buffer := overlay (kernel_buffer d) 0 test_data,
      data_len := max (data_len d) 32\<rparr>"
  define d2 where "d2 = d1\<lparr>kernel_buffer := overlay (kernel_buffer d1) 0 new_data\<rparr>"
  define b1 where "b1 = overlay (replicate 1024 NUL) 0 test_data"
  define b2 where "b2 = overlay b1 0 new_data"
  have kb: "length (kernel_buffer d) = 4096" "0 \<le> data_len d" "data_len d \<le> 4096"
    using d by (auto simp: dev_inv_def PAGE_SIZE_def)
  have d1: "dev_inv d1" and d2: "dev_inv d2"
    using d kb lens by (auto simp: dev_inv_def d1_def d2_def PAGE_SIZE_def)
  have ps: "0 \<le> ps fd \<and> ps fd \<le> data_len d" for fd using inv by (auto simp: files_inv_def s)
  have len2: "data_len d2 = max (data_len d) 32" by (simp add: d2_def d1_def)
  have inv2: "files_inv (d2, ps(0 := k))" if "0 \<le> k" "k \<le> 32" for k
    using d2 ps that by (auto simp: files_inv_def len2 max_def intro: order_trans)
  have st1: "fops K s (0, Seek 0 SEEK_SET) = Inr ((0, []), d, ps(0 := 0))"
    using fops_rewind [OF K(1) inv] by (simp add: s)
  have st2: "fops K (d, ps(0 := 0)) (0, Write test_data) = Inr ((32, []), d1, ps(0 := 32))"
    using fops_write_start [OF K d, of "ps(0 := 0)" test_data] lens by (simp add: d1_def test_data_def)
  have st3: "mmap_load (d1, ps(0 := 32)) 0 32 = Inr test_data"
    using mmap_load_ok [of "(d1, ps(0 := 32))" 32] d1 lens by (simp add: d1_def take_overlay0)
  have st4: "mmap_store (d1, ps(0 := 32)) 0 new_data = Inr (d2, ps(0 := 32))"
    using mmap_store_ok [of "(d1, ps(0 := 32))" new_data] d1 lens by (simp add: d2_def)
  have st5: "fops K (d2, ps(0 := 32)) (0, Seek 0 SEEK_SET) = Inr ((0, []), d2, ps(0 := 0))"
    using fops_rewind [OF K(1) inv2 [of 32]] by simp
  have st6: "fops K (d2, ps(0 := 0)) (0, Read 30) = Inr ((30, new_data), d2, ps(0 := 30))"
  proof -
    have "take 30 (kernel_buffer d2) = new_data" "30 \<le> data_len d2"
      using lens by (simp_all add: len2) (simp add: d2_def take_overlay0)
    then show ?thesis using fops_read_start [OF K d2, of "ps(0 := 0)" 30] by simp
  qed
  have w1: "mem_write (replicate 1024 NUL) 0 test_data = Inr b1"
    using lens by (simp add: mem_write_def b1_def)
  have w2: "mem_write b1 0 new_data = Inr b2"
    using lens by (simp add: mem_write_def b1_def b2_def)
  have eq1: "b1 = test_data @ NUL # replicate 991 NUL"
    using lens by (simp add: b1_def overlay_def flip: replicate_Suc)
  have eq2: "b2 = (new_data @ ''t!'') @ NUL # replicate 991 NUL"
    by (simp add: b2_def eq1 overlay_def test_data_def new_data_def)
  have c: "c_str b1 = test_data" "c_str b2 = new_data @ ''t!''"
    unfolding eq1 eq2 by (rule c_str_app, simp add: test_data_def new_data_def NUL_def)+
  have cmp: "strncmp_eq b1 (test_data @ [NUL]) 32" "strncmp_eq b2 (new_data @ [NUL]) 30"
    by (rule strncmp_eq_prefix; simp add: eq1 eq2 lens)+
  have "run_data_flow_test K s = Inr ([WriteToMmapOk test_data, MmapToReadOk (new_data @ ''t!'')], d2, ps(0 := 30))"
    by (simp add: run_data_flow_test_def TEST_SIZE_def lens Let_def st1 st2 st3 st4 st5 st6 w1 w2 c cmp del: fops.simps)
  then show ?thesis using inv2 [of 30] by auto
qed

lemma data_flow_test_succeeds_example:
  "\<exists>s'. run_data_flow_test plain_kapi (fresh_dev, \<lambda>_. 0) =
      Inr ([WriteToMmapOk test_data, MmapToReadOk (new_data @ ''t!'')], s') \<and> files_inv s'"
  by (rule data_flow_test_succeeds [OF plain_kapi_doc plain_kapi_no_fault files_inv_fresh])

section \<open>The timing test\<close>

text \<open>
  \<open>rd k\<close> is the result of the \<open>k\<close>-th call of \<open>get_rdtime\<close>. The totals are \<open>unsigned long\<close>
  (32 bits), the differences \<open>uint64_t\<close>. Each loop returns its total, the next call's index,
  the buffer and the driver.
\<close>

type_synonym bench = "int \<times> nat \<times> char list \<times> dev_files"

fun warm_up :: "kapi \<Rightarrow> nat \<Rightarrow> char list \<Rightarrow> dev_files \<Rightarrow> dev_files res" where
  "warm_up K 0 temp s = Inr s"
| "warm_up K (Suc n) temp s =
     and_then (fops K s (0, Seek 0 SEEK_SET)) (\<lambda>(_, s).
     and_then (fops K s (0, Write temp)) (\<lambda>(_, s).
     and_then (mmap_store s 0 temp) (\<lambda>s. warm_up K n temp s)))"

fun time_write :: "kapi \<Rightarrow> (nat \<Rightarrow> int) \<Rightarrow> nat \<Rightarrow> bench \<Rightarrow> bench res" where
  "time_write K rd 0 b = Inr b"
| "time_write K rd (Suc n) (tot, k, temp, s) =
     and_then (fops K s (0, Seek 0 SEEK_SET)) (\<lambda>(_, s).
     and_then (fops K s (0, Write temp)) (\<lambda>(_, s).
     time_write K rd n (u32 (tot + u64 (rd (k + 1) - rd k)), k + 2, temp, s)))"

fun time_mmap_write :: "(nat \<Rightarrow> int) \<Rightarrow> nat \<Rightarrow> bench \<Rightarrow> bench res" where
  "time_mmap_write rd 0 b = Inr b"
| "time_mmap_write rd (Suc n) (tot, k, temp, s) =
     and_then (mmap_store s 0 temp) (\<lambda>s.
     time_mmap_write rd n (u32 (tot + u64 (rd (k + 1) - rd k)), k + 2, temp, s))"

fun time_read :: "kapi \<Rightarrow> (nat \<Rightarrow> int) \<Rightarrow> nat \<Rightarrow> bench \<Rightarrow> bench res" where
  "time_read K rd 0 b = Inr b"
| "time_read K rd (Suc n) (tot, k, temp, s) =
     and_then (fops K s (0, Seek 0 SEEK_SET)) (\<lambda>(_, s).
     and_then (fops K s (0, Read (int TEST_SIZE))) (\<lambda>((_, bs), s).
     and_then (mem_write temp 0 bs) (\<lambda>temp.
     time_read K rd n (u32 (tot + u64 (rd (k + 1) - rd k)), k + 2, temp, s))))"

fun time_mmap_read :: "(nat \<Rightarrow> int) \<Rightarrow> nat \<Rightarrow> bench \<Rightarrow> bench res" where
  "time_mmap_read rd 0 b = Inr b"
| "time_mmap_read rd (Suc n) (tot, k, temp, s) =
     and_then (mmap_load s 0 (int TEST_SIZE)) (\<lambda>temp.
     time_mmap_read rd n (u32 (tot + u64 (rd (k + 1) - rd k)), k + 2, temp, s))"

datatype timing_report = Average nat int | MmapFaster | NotSoDifferent

definition run_timing_test :: "kapi \<Rightarrow> (nat \<Rightarrow> int) \<Rightarrow> char list \<Rightarrow> dev_files \<Rightarrow> (timing_report list \<times> dev_files) res" where
  "run_timing_test K rd temp_data s =
     and_then (warm_up K 10 temp_data s) (\<lambda>s.
     and_then (time_write K rd ITERATIONS (0, 0, temp_data, s)) (\<lambda>(write_total, k, temp_data, s).
     and_then (time_mmap_write rd ITERATIONS (0, k, temp_data, s)) (\<lambda>(mmap_write_total, k, temp_data, s).
     and_then (time_read K rd ITERATIONS (0, k, temp_data, s)) (\<lambda>(read_total, k, temp_data, s).
     and_then (time_mmap_read rd ITERATIONS (0, k, temp_data, s)) (\<lambda>(mmap_read_total, k, temp_data, s).
     Inr ([Average 1 (write_total div int ITERATIONS), Average 2 (mmap_write_total div int ITERATIONS),
           Average 3 (read_total div int ITERATIONS), Average 4 (mmap_read_total div int ITERATIONS),
           if mmap_write_total < write_total \<and> mmap_read_total < read_total
           then MmapFaster else NotSoDifferent], s))))))"

text \<open>
  \<open>main\<close>: the exit status, the calls on the descriptor, and what the two tests print.
\<close>

datatype user_call = OpenDev | MmapDev | MunmapDev | CloseDev

definition chardev_user_main :: "kapi \<Rightarrow> bool \<Rightarrow> bool \<Rightarrow> (nat \<Rightarrow> int) \<Rightarrow> char list \<Rightarrow> dev_files \<Rightarrow>
    (int \<times> user_call list \<times> data_report list \<times> timing_report list \<times> dev_files) res" where
  "chardev_user_main K opened mapped rd temp_data s =
     (if \<not> opened then Inr (1, [OpenDev], [], [], s)
      else if \<not> mapped then Inr (1, [OpenDev, MmapDev, CloseDev], [], [], s)
      else
        and_then (run_data_flow_test K s) (\<lambda>(out1, s).
        and_then (run_timing_test K rd temp_data s) (\<lambda>(out2, s).
        Inr (0, [OpenDev, MmapDev, MunmapDev, CloseDev], out1, out2, s))))"

text \<open>The sum of the \<open>n\<close> measured intervals from the \<open>k\<close>-th reading on.\<close>

fun span_sum :: "(nat \<Rightarrow> int) \<Rightarrow> nat \<Rightarrow> nat \<Rightarrow> int" where
  "span_sum rd 0 k = 0"
| "span_sum rd (Suc n) k = u64 (rd (k + 1) - rd k) + span_sum rd n (k + 2)"

lemma u32_add: "u32 (u32 a + b) = u32 (a + b)"
  by (simp add: u32_mod mod_add_left_eq)

lemma mmap_store_ex:
  assumes "files_inv s" "length bs \<le> 4096"
  shows "\<exists>s'. mmap_store s 0 bs = Inr s' \<and> files_inv s'"
proof -
  have "dev_inv (fst s)" using assms by (simp add: files_inv_def)
  note st = mmap_store_ok [OF this assms(2)]
  have "files_inv ((fst s)\<lparr>kernel_buffer := overlay (kernel_buffer (fst s)) 0 bs\<rparr>, snd s)"
    using assms by (auto simp: files_inv_def dev_inv_def PAGE_SIZE_def)
  with st show ?thesis by blast
qed

lemma fops_step_ex:
  "kapi_doc K \<Longrightarrow> files_inv s \<Longrightarrow> fop_ok op \<Longrightarrow> \<exists>out s'. fops K s (fd, op) = Inr (out, s') \<and> files_inv s'"
  by (metis fops_step)

lemma warm_up_ok:
  "kapi_doc K \<Longrightarrow> files_inv s \<Longrightarrow> length temp = 1024 \<Longrightarrow>
   \<exists>s'. warm_up K n temp s = Inr s' \<and> files_inv s'"
proof (induction n arbitrary: s)
  case 0
  then show ?case by simp
next
  case (Suc n)
  obtain o1 s1 where 1: "fops K s (0, Seek 0 SEEK_SET) = Inr (o1, s1)" "files_inv s1"
    using fops_step_ex [OF Suc.prems(1,2), of "Seek 0 SEEK_SET" 0] by (auto simp del: fops.simps)
  obtain o2 s2 where 2: "fops K s1 (0, Write temp) = Inr (o2, s2)" "files_inv s2"
    using fops_step_ex [OF Suc.prems(1) 1(2), of "Write temp" 0] Suc.prems(3) by (auto simp del: fops.simps)
  obtain s3 where 3: "mmap_store s2 0 temp = Inr s3" "files_inv s3"
    using mmap_store_ex [OF 2(2), of temp] Suc.prems(3) by auto
  from Suc.IH [OF Suc.prems(1) 3(2) Suc.prems(3)] show ?case by (simp add: 1 2 3 del: fops.simps)
qed

lemma time_write_ok:
  "kapi_doc K \<Longrightarrow> files_inv s \<Longrightarrow> length temp = 1024 \<Longrightarrow>
   \<exists>s'. time_write K rd n (u32 tot, k, temp, s) = Inr (u32 (tot + span_sum rd n k), k + 2 * n, temp, s') \<and> files_inv s'"
proof (induction n arbitrary: s tot k)
  case 0
  then show ?case by simp
next
  case (Suc n)
  obtain o1 s1 where 1: "fops K s (0, Seek 0 SEEK_SET) = Inr (o1, s1)" "files_inv s1"
    using fops_step_ex [OF Suc.prems(1,2), of "Seek 0 SEEK_SET" 0] by (auto simp del: fops.simps)
  obtain o2 s2 where 2: "fops K s1 (0, Write temp) = Inr (o2, s2)" "files_inv s2"
    using fops_step_ex [OF Suc.prems(1) 1(2), of "Write temp" 0] Suc.prems(3) by (auto simp del: fops.simps)
  from Suc.IH [OF Suc.prems(1) 2(2) Suc.prems(3), of "tot + u64 (rd (k + 1) - rd k)" "k + 2"] show ?case
    by (simp add: 1 2 u32_add add.assoc del: fops.simps)
qed

lemma time_mmap_write_ok:
  "files_inv s \<Longrightarrow> length temp = 1024 \<Longrightarrow>
   \<exists>s'. time_mmap_write rd n (u32 tot, k, temp, s) = Inr (u32 (tot + span_sum rd n k), k + 2 * n, temp, s') \<and> files_inv s'"
proof (induction n arbitrary: s tot k)
  case 0
  then show ?case by simp
next
  case (Suc n)
  obtain s1 where 1: "mmap_store s 0 temp = Inr s1" "files_inv s1"
    using mmap_store_ex [OF Suc.prems(1), of temp] Suc.prems(2) by auto
  from Suc.IH [OF 1(2) Suc.prems(2), of "tot + u64 (rd (k + 1) - rd k)" "k + 2"] show ?case
    by (simp add: 1 u32_add add.assoc del: fops.simps)
qed

text \<open>A read hands out at most as many bytes as were asked for.\<close>

lemma fops_read_length:
  assumes "kapi_doc K" "files_inv s" "fops K s (fd, Read (int n)) = Inr ((r, bs), s')" "int n < 4294967296"
  shows "length bs \<le> n"
proof -
  obtain d ps where s: "s = (d, ps)" by fastforce
  have d: "dev_inv d" "0 \<le> ps fd" "copy_to_user_doc K"
    using assms(1,2) by (auto simp: files_inv_def s kapi_doc_def)
  show ?thesis
  proof (cases "ps fd < data_len d")
    case True
    note rd = dev_read_inside [OF d(1,3,2) True of_nat_0_le_iff assms(4)]
    have "length (take (nat r) xs) \<le> n" if "r \<le> min (int n) z" for r z and xs :: "char list"
      using that by (simp add: min_le_iff_disj nat_le_iff)
    from this [OF rd(3), of "drop (nat (ps fd)) (file_content d)"] rd(1) assms(3)
    show ?thesis by (auto simp: s simp del: length_take)
  next
    case False
    with assms(3) show ?thesis by (auto simp: s dev_read_eof [OF d(1)])
  qed
qed

lemma time_read_ok:
  "kapi_doc K \<Longrightarrow> files_inv s \<Longrightarrow> length temp = 1024 \<Longrightarrow>
   \<exists>temp' s'. time_read K rd n (u32 tot, k, temp, s) = Inr (u32 (tot + span_sum rd n k), k + 2 * n, temp', s') \<and>
     length temp' = 1024 \<and> files_inv s'"
proof (induction n arbitrary: s tot k temp)
  case 0
  then show ?case by simp
next
  case (Suc n)
  obtain o1 s1 where 1: "fops K s (0, Seek 0 SEEK_SET) = Inr (o1, s1)" "files_inv s1"
    using fops_step_ex [OF Suc.prems(1,2), of "Seek 0 SEEK_SET" 0] by (auto simp del: fops.simps)
  obtain r bs s2 where 2: "fops K s1 (0, Read 1024) = Inr ((r, bs), s2)" "files_inv s2"
    using fops_step_ex [OF Suc.prems(1) 1(2), of "Read 1024" 0] by (auto simp del: fops.simps)
  have bs: "length bs \<le> 1024" using fops_read_length [OF Suc.prems(1) 1(2), of 0 1024] 2(1) by simp
  then have 3: "mem_write temp 0 bs = Inr (overlay temp 0 bs)" "length (overlay temp 0 bs) = 1024"
    using Suc.prems(3) by (simp_all add: mem_write_def)
  from Suc.IH [OF Suc.prems(1) 2(2) 3(2), of "tot + u64 (rd (k + 1) - rd k)" "k + 2"] show ?case
    by (simp add: 1 2 3 TEST_SIZE_def u32_add add.assoc del: fops.simps)
qed

lemma time_mmap_read_ok:
  "files_inv s \<Longrightarrow> length temp = 1024 \<Longrightarrow>
   \<exists>temp'. time_mmap_read rd n (u32 tot, k, temp, s) = Inr (u32 (tot + span_sum rd n k), k + 2 * n, temp', s)"
proof (induction n arbitrary: tot k temp)
  case 0
  then show ?case by simp
next
  case (Suc n)
  have "dev_inv (fst s)" using Suc.prems(1) by (simp add: files_inv_def)
  then have 1: "mmap_load s 0 1024 = Inr (take 1024 (kernel_buffer (fst s)))"
    "length (take 1024 (kernel_buffer (fst s))) = 1024"
    using mmap_load_ok [of s 1024] by (auto simp: dev_inv_def PAGE_SIZE_def)
  from Suc.IH [OF Suc.prems(1) 1(2), of "tot + u64 (rd (k + 1) - rd k)" "k + 2"] show ?case
    by (simp add: 1 TEST_SIZE_def u32_add add.assoc del: fops.simps)
qed

text \<open>
  The timing test runs to its end on the driver, also when user accesses fault, leaves
  the driver in a good state, and each average it prints is the sum of its 1000 measured
  intervals, reduced to 32 bits, divided by 1000. The intervals of the four loops do not
  overlap.
\<close>

lemma timing_test_averages:
  assumes "kapi_doc K" "files_inv s" "length temp = 1024"
  shows "\<exists>v s'. run_timing_test K rd temp s = Inr ([Average 1 (u32 (span_sum rd 1000 0) div 1000),
      Average 2 (u32 (span_sum rd 1000 2000) div 1000), Average 3 (u32 (span_sum rd 1000 4000) div 1000),
      Average 4 (u32 (span_sum rd 1000 6000) div 1000), v], s') \<and> files_inv s' \<and>
    (v = MmapFaster \<longleftrightarrow> u32 (span_sum rd 1000 2000) < u32 (span_sum rd 1000 0) \<and>
       u32 (span_sum rd 1000 6000) < u32 (span_sum rd 1000 4000))"
proof -
  obtain s0 where 0: "warm_up K 10 temp s = Inr s0" "files_inv s0"
    using warm_up_ok [OF assms] by blast
  have z: "u32 0 = 0" by (simp add: u32_id)
  obtain s1 where 1: "time_write K rd 1000 (0, 0, temp, s0) = Inr (u32 (span_sum rd 1000 0), 2000, temp, s1)" "files_inv s1"
    using time_write_ok [OF assms(1) 0(2) assms(3), of rd 1000 0 0] by (auto simp: z)
  obtain s2 where 2: "time_mmap_write rd 1000 (0, 2000, temp, s1) = Inr (u32 (span_sum rd 1000 2000), 4000, temp, s2)" "files_inv s2"
    using time_mmap_write_ok [OF 1(2) assms(3), of rd 1000 0 2000] by (auto simp: z)
  obtain temp' s3 where 3: "time_read K rd 1000 (0, 4000, temp, s2) = Inr (u32 (span_sum rd 1000 4000), 6000, temp', s3)"
      "length temp' = 1024" "files_inv s3"
    using time_read_ok [OF assms(1) 2(2) assms(3), of rd 1000 0 4000] by (auto simp: z)
  obtain temp'' where 4: "time_mmap_read rd 1000 (0, 6000, temp', s3) = Inr (u32 (span_sum rd 1000 6000), 8000, temp'', s3)"
    using time_mmap_read_ok [OF 3(3,2), of rd 1000 0 6000] by (auto simp: z)
  show ?thesis
    using 3(3) by (simp add: run_timing_test_def ITERATIONS_def 0 1 2 3 4)
qed

lemma timing_test_averages_example:
  "\<exists>v s'. run_timing_test faulty_kapi (\<lambda>k. 3 * int k) (replicate 1024 NUL) (fresh_dev, \<lambda>_. 0) =
     Inr ([Average 1 (u32 (span_sum (\<lambda>k. 3 * int k) 1000 0) div 1000),
      Average 2 (u32 (span_sum (\<lambda>k. 3 * int k) 1000 2000) div 1000),
      Average 3 (u32 (span_sum (\<lambda>k. 3 * int k) 1000 4000) div 1000),
      Average 4 (u32 (span_sum (\<lambda>k. 3 * int k) 1000 6000) div 1000), v], s') \<and> files_inv s'"
  using timing_test_averages [OF faulty_kapi_doc files_inv_fresh, of "replicate 1024 NUL" "\<lambda>k. 3 * int k"]
  by auto

end
