(* ===== verification/AccessTime.thy ===== *)
theory AccessTime
  imports Counter
begin

text \<open>
  \<open>C/access_time.c\<close>: the time of one load, the average of 1000 loads of a resident page with
  outliers dropped, and the comparison with a load that faults. The loads themselves and the
  \<open>mmap\<close>, \<open>madvise\<close> and \<open>munmap\<close> calls are seen through their results and through the time
  register \<open>tm\<close>.
\<close>

definition REPEAT :: nat where "REPEAT = 1000"

text \<open>The file has a reader of its own, the assembly of \<open>rdtime.h\<close> once more.\<close>

definition access_read_time :: "(nat \<Rightarrow> 64 word) \<Rightarrow> nat \<Rightarrow> (64 word \<times> nat) option" where
  "access_read_time tm i = read_time_rv32 tm i"

text \<open>One measurement: start, end and the duration stored through the pointer.\<close>

definition measure_access_time :: "(nat \<Rightarrow> 64 word) \<Rightarrow> nat \<Rightarrow> (64 word \<times> nat) option" where
  "measure_access_time tm i =
     (case read_time_rv32 tm i of None \<Rightarrow> None
      | Some (start, i) \<Rightarrow>
        (case read_time_rv32 tm i of None \<Rightarrow> None
         | Some (end_, i) \<Rightarrow> Some (if start < end_ then end_ - start else 0, i)))"

text \<open>The measuring loop over \<open>total_nofault\<close> and \<open>valid_count\<close>.\<close>

fun measure_loop :: "(nat \<Rightarrow> 64 word) \<Rightarrow> nat \<Rightarrow> 64 word \<Rightarrow> nat \<Rightarrow> nat \<Rightarrow> (64 word \<times> nat \<times> nat) option" where
  "measure_loop tm 0 tot valid i = Some (tot, valid, i)"
| "measure_loop tm (Suc n) tot valid i =
     (case measure_access_time tm i of None \<Rightarrow> None
      | Some (duration, i) \<Rightarrow>
        if 0 < duration \<and> duration < 10000
        then measure_loop tm n (tot + duration) (Suc valid) i
        else measure_loop tm n tot valid i)"

datatype access_report =
    TimerTest "64 word" "64 word" "64 word"
  | NoFault nat "64 word"
  | WithFault "64 word"
  | Difference "64 word"
  | Unexpected

text \<open>
  \<open>main\<close>: the exit status and the lines printed. \<open>mapped1\<close> and \<open>mapped2\<close> tell whether the two
  mappings succeeded.
\<close>

definition access_time_main :: "bool \<Rightarrow> bool \<Rightarrow> (nat \<Rightarrow> 64 word) \<Rightarrow> (int \<times> access_report list) option" where
  "access_time_main mapped1 mapped2 tm =
     (case read_time_rv32 tm 0 of None \<Rightarrow> None
      | Some (t1, i) \<Rightarrow>
     (case read_time_rv32 tm i of None \<Rightarrow> None
      | Some (t2, i) \<Rightarrow>
      let out = [TimerTest t1 t2 (t2 - t1)] in
      if \<not> mapped1 then Some (1, out)
      else
     (case measure_loop tm REPEAT 0 0 i of None \<Rightarrow> None
      | Some (total_nofault, valid_count, i) \<Rightarrow>
      let avg_nofault = (if 0 < valid_count then total_nofault div of_nat valid_count else 0);
          out = out @ [NoFault valid_count avg_nofault] in
      if \<not> mapped2 then Some (1, out)
      else
     (case measure_access_time tm i of None \<Rightarrow> None
      | Some (duration, i) \<Rightarrow>
      let out = out @ [WithFault duration] in
      if avg_nofault < duration \<and> duration < 1000000000
      then Some (0, out @ [Difference (duration - avg_nofault)])
      else Some (0, out @ [Unexpected])))))"

lemma measure_access_time_total:
  assumes "counter_mono tm" "\<forall>i. unat (tm (i + 5)) - unat (tm i) < 4294967296"
  obtains a b j where "measure_access_time tm i = Some (tm b - tm a, j)" "i \<le> a" "a \<le> b" "b < j"
    "j \<le> i + 12"
proof -
  note tot = read_time_rv32_returns [OF assms(1) assms(2) [rule_format]]
  obtain p where p: "read_time_rv32 tm i = Some (tm (p - 2), p)" "p = i + 3 \<or> p = i + 6"
    using tot [of i] by blast
  obtain q where q: "read_time_rv32 tm p = Some (tm (q - 2), q)" "q = p + 3 \<or> q = p + 6"
    using tot [of p] by blast
  have le: "tm (p - 2) \<le> tm (q - 2)"
    using assms(1) q(2) by (auto simp: counter_mono_def)
  have "measure_access_time tm i = Some (tm (q - 2) - tm (p - 2), q)"
    using le by (auto simp: measure_access_time_def p q)
  then show thesis
    using p(2) q(2) by (intro that [of "q - 2" "p - 2" q]) auto
qed

lemma measure_loop_total:
  assumes tm: "counter_mono tm" "\<forall>i. unat (tm (i + 5)) - unat (tm i) < 4294967296"
    and "unat tot \<le> valid * 9999" "valid + n \<le> 1000"
  shows "\<exists>tot' valid' i'. measure_loop tm n tot valid i = Some (tot', valid', i') \<and>
    valid \<le> valid' \<and> valid' \<le> valid + n \<and> unat tot' \<le> valid' * 9999 \<and>
    unat tot + (valid' - valid) \<le> unat tot'"
  using assms(3,4)
proof (induction n arbitrary: tot valid i)
  case 0
  then show ?case by simp
next
  case (Suc n)
  obtain a b j where m: "measure_access_time tm i = Some (tm b - tm a, j)"
    using measure_access_time_total [OF tm] by metis
  define d where "d = tm b - tm a"
  show ?case
  proof (cases "0 < d \<and> d < 10000")
    case True
    then have d: "0 < unat d" "unat d \<le> 9999"
      by (auto simp: word_less_nat_alt unat_gt_0)
    then have sum: "unat (tot + d) = unat tot + unat d"
      using Suc.prems by (subst unat_add_lem [THEN iffD1]) auto
    with d Suc.prems have "unat (tot + d) \<le> Suc valid * 9999" "Suc valid + n \<le> 1000" by auto
    from Suc.IH [OF this, of j] True d sum show ?thesis
      by (fastforce simp: m d_def [symmetric])
  next
    case False
    from Suc.prems have "valid + n \<le> 1000" by simp
    from Suc.IH [OF Suc.prems(1) this, of j] False show ?thesis
      by (fastforce simp: m d_def [symmetric])
  qed
qed

text \<open>
  The program always returns. The resident-page average is taken over at most 1000
  measurements, lies strictly between 0 and 10000 ticks when any was kept, is 0 otherwise,
  and the printed difference never wraps below zero.
\<close>

lemma access_time_main_total:
  assumes "counter_mono tm" "\<forall>i. unat (tm (i + 5)) - unat (tm i) < 4294967296"
  shows "\<exists>t1 t2 n avg d last. t1 \<le> t2 \<and> n \<le> 1000 \<and>
    (0 < n \<longrightarrow> 0 < avg \<and> avg < 10000) \<and> (n = 0 \<longrightarrow> avg = 0) \<and>
    access_time_main True True tm = Some (0, [TimerTest t1 t2 (t2 - t1), NoFault n avg, WithFault d, last]) \<and>
    (last = Unexpected \<and> (d \<le> avg \<or> 1000000000 \<le> d) \<or>
     last = Difference (d - avg) \<and> unat (d - avg) = unat d - unat avg \<and> avg < d)"
proof -
  note tot = read_time_rv32_returns [OF assms(1) assms(2) [rule_format]]
  obtain p where p: "read_time_rv32 tm 0 = Some (tm (p - 2), p)" "p = 3 \<or> p = 6"
    using tot [of 0] by auto
  obtain q where q: "read_time_rv32 tm p = Some (tm (q - 2), q)" "q = p + 3 \<or> q = p + 6"
    using tot [of p] by blast
  have le: "tm (p - 2) \<le> tm (q - 2)"
    using assms(1) q(2) by (auto simp: counter_mono_def)
  obtain sum' n i' where loop: "measure_loop tm 1000 0 0 q = Some (sum', n, i')"
    "n \<le> 1000" "unat sum' \<le> n * 9999" "n \<le> unat sum'"
    using measure_loop_total [OF assms, of 0 0 1000 q] by auto
  obtain a b j where m: "measure_access_time tm i' = Some (tm b - tm a, j)"
    using measure_access_time_total [OF assms] by metis
  define avg where "avg = (if 0 < n then sum' div of_nat n else 0)"
  have avg: "0 < avg \<and> avg < 10000" if "0 < n"
  proof -
    have "unat (of_nat n :: 64 word) = n"
      using loop(2) by (simp add: unsigned_of_nat take_bit_nat_eq_self)
    then have eq: "unat avg = unat sum' div n" using that by (simp add: avg_def unat_div)
    have "0 < unat sum' div n" using that loop(4) by (simp add: div_greater_zero_iff)
    moreover have "unat sum' div n \<le> 9999"
      using div_le_mono [OF loop(3), of n] that by simp
    ultimately show ?thesis
      using eq by (auto simp: word_less_nat_alt)
  qed
  define d where "d = tm b - tm a"
  define r where "r = (if avg < d \<and> d < 1000000000 then Difference (d - avg) else Unexpected)"
  have "access_time_main True True tm =
      Some (0, [TimerTest (tm (p - 2)) (tm (q - 2)) (tm (q - 2) - tm (p - 2)), NoFault n avg, WithFault d, r])"
    by (simp add: access_time_main_def p q loop(1) m REPEAT_def Let_def avg_def [symmetric]
        d_def [symmetric] r_def)
  moreover have "r = Unexpected \<and> (d \<le> avg \<or> 1000000000 \<le> d) \<or>
      r = Difference (d - avg) \<and> unat (d - avg) = unat d - unat avg \<and> avg < d"
    by (auto simp: r_def unat_sub not_less)
  moreover have "n = 0 \<longrightarrow> avg = 0" by (simp add: avg_def)
  ultimately show ?thesis using le loop(2) avg by blast
qed

definition steady :: "nat \<Rightarrow> 64 word" where "steady i = (if i < 3 then 10 else 17)"

lemma access_time_main_total_example:
  "\<exists>out. access_time_main True True steady = Some (0, out) \<and> length out = 4"
proof -
  have "counter_mono steady" "\<forall>i. unat (steady (i + 5)) - unat (steady i) < 4294967296"
    by (auto simp: counter_mono_def steady_def)
  from access_time_main_total [OF this] show ?thesis by auto
qed

end
