(* ===== verification/PiSem.thy ===== *)
theory PiSem
  imports Prelude
begin

text \<open>
  The lock of the payment demonstration, \<open>C/pi_sem.h\<close>: a named POSIX semaphore, or with
  \<open>USE_PI_SEM\<close> a priority-inheriting mutex in named shared memory. Both are compiled under
  the same five names; here the second set carries the prefix \<open>pi_mutex\<close>. The locale
  \<open>lock\<close> is the contract both provide, and what the processes rely on.
\<close>

section \<open>Named kernel objects\<close>

text \<open>
  The name space of \<open>sem_open\<close> and of \<open>shm_open\<close>: names refer to objects; an object lives on
  for the processes that have it open when its name is removed.
\<close>

record 'o names =
  link :: "string \<Rightarrow> nat option"
  obj :: "nat \<Rightarrow> 'o option"
  fresh_id :: nat

definition names_inv :: "'o names \<Rightarrow> bool" where
  "names_inv ns \<longleftrightarrow> (\<forall>i. obj ns i \<noteq> None \<longrightarrow> i < fresh_id ns) \<and>
     (\<forall>name i. link ns name = Some i \<longrightarrow> obj ns i \<noteq> None)"

definition create :: "'o names \<Rightarrow> string \<Rightarrow> 'o \<Rightarrow> nat \<times> 'o names" where
  "create ns name x = (fresh_id ns,
     ns\<lparr>link := (link ns)(name \<mapsto> fresh_id ns), obj := (obj ns)(fresh_id ns \<mapsto> x),
        fresh_id := Suc (fresh_id ns)\<rparr>)"

definition remove_name :: "'o names \<Rightarrow> string \<Rightarrow> 'o names" where
  "remove_name ns name = ns\<lparr>link := (link ns)(name := None)\<rparr>"

lemma names_inv_create: "names_inv ns \<Longrightarrow> create ns name x = (i, ns') \<Longrightarrow>
    names_inv ns' \<and> obj ns i = None \<and> link ns' name = Some i \<and> obj ns' i = Some x"
  by (fastforce simp: names_inv_def create_def split: if_splits)

lemma names_inv_remove: "names_inv ns \<Longrightarrow> names_inv (remove_name ns name)"
  by (auto simp: names_inv_def remove_name_def split: if_splits)

section \<open>The semaphore variant\<close>

text \<open>
  The object is the semaphore's value. \<open>creat\<close> is \<open>oflag & O_CREAT\<close>; \<open>None\<close> is \<open>NULL\<close> (or
  \<open>SEM_FAILED\<close>). A value is present only with \<open>O_CREAT\<close>.
\<close>

definition sem_open :: "nat names \<Rightarrow> string \<Rightarrow> bool \<Rightarrow> nat \<Rightarrow> nat option \<times> nat names" where
  "sem_open ns name creat v =
     (case link ns name of
        Some i \<Rightarrow> (Some i, ns)
      | None \<Rightarrow> if creat then (case create ns name v of (i, ns) \<Rightarrow> (Some i, ns)) else (None, ns))"

definition pi_sem_open_or_create :: "nat names \<Rightarrow> string \<Rightarrow> bool \<Rightarrow> nat \<Rightarrow> nat option \<times> nat names" where
  "pi_sem_open_or_create ns name creat v = sem_open ns name creat v"

definition pi_sem_unlink :: "nat names \<Rightarrow> string \<Rightarrow> nat names" where
  "pi_sem_unlink ns name = remove_name ns name"

text \<open>\<open>None\<close>: the caller blocks. The caller's identity plays no role.\<close>

definition pi_sem_wait :: "nat \<Rightarrow> nat \<Rightarrow> nat option" where
  "pi_sem_wait p v = (if 0 < v then Some (v - 1) else None)"

definition pi_sem_post :: "nat \<Rightarrow> nat \<Rightarrow> nat option" where
  "pi_sem_post p v = Some (v + 1)"

section \<open>The mutex variant\<close>

datatype protocol = PRIO_NONE | PRIO_INHERIT

record pi_sem_t =
  owner :: "nat option"
  proto :: protocol
  pshared :: bool

text \<open>
  What the memory of a new shared object holds: nothing (length 0), zeros after \<open>ftruncate\<close>,
  or an initialised mutex.
\<close>

datatype shm = Empty | Zeros | Mutex pi_sem_t

definition pi_sem_init :: "pi_sem_t" where
  "pi_sem_init = \<lparr>owner = None, proto = PRIO_INHERIT, pshared = True\<rparr>"

text \<open>
  \<open>map_ok\<close> says whether \<open>mmap\<close> succeeds. The first branch is the one of \<open>O_CREAT | O_EXCL\<close>.
\<close>

definition pi_mutex_open_or_create :: "bool \<Rightarrow> shm names \<Rightarrow> string \<Rightarrow> nat option \<times> shm names" where
  "pi_mutex_open_or_create map_ok ns name =
     (let (fd, created, ns) =
        (case link ns name of
           None \<Rightarrow> (case create ns name Empty of (i, ns) \<Rightarrow>
             (i, True, ns\<lparr>obj := (obj ns)(i \<mapsto> Zeros)\<rparr>))
         | Some i \<Rightarrow> (i, False, ns))
      in if \<not> map_ok then (None, ns)
         else if created then (Some fd, ns\<lparr>obj := (obj ns)(fd \<mapsto> Mutex pi_sem_init)\<rparr>)
         else (Some fd, ns))"

definition pi_mutex_unlink :: "shm names \<Rightarrow> string \<Rightarrow> shm names" where
  "pi_mutex_unlink ns name = remove_name ns name"

text \<open>
  Locking blocks while the mutex is owned; an owner that locks again deadlocks, which is
  blocking too. Unlocking by another process than the owner is an error (\<open>EPERM\<close>) without
  effect.
\<close>

definition pi_mutex_wait :: "nat \<Rightarrow> pi_sem_t \<Rightarrow> pi_sem_t option" where
  "pi_mutex_wait p m = (if owner m = None then Some (m\<lparr>owner := Some p\<rparr>) else None)"

definition pi_mutex_post :: "nat \<Rightarrow> pi_sem_t \<Rightarrow> pi_sem_t option" where
  "pi_mutex_post p m = Some (if owner m = Some p then m\<lparr>owner := None\<rparr> else m)"

section \<open>Opening by name\<close>

text \<open>
  After the logger has removed the name and created the semaphore again, every process
  that opens the name, with or without creating, gets the logger's new object with its
  initial value, and not the one that a process opened before under the same name.
\<close>

lemma pi_sem_open_shared:
  assumes inv: "names_inv ns"
    and created: "pi_sem_open_or_create (pi_sem_unlink ns name) name True v = (r, ns1)"
  shows "\<exists>i. r = Some i \<and> obj ns1 i = Some v \<and> names_inv ns1 \<and>
    (\<forall>c w. pi_sem_open_or_create ns1 name c w = (Some i, ns1)) \<and>
    link ns name \<noteq> Some i"
proof -
  define ns0 where "ns0 = pi_sem_unlink ns name"
  have l0: "link ns0 name = None" by (simp add: ns0_def pi_sem_unlink_def remove_name_def)
  obtain i ns' where cr: "create ns0 name v = (i, ns')" by fastforce
  have r: "r = Some i" "ns1 = ns'"
    using created l0 cr by (simp_all add: pi_sem_open_or_create_def sem_open_def flip: ns0_def)
  have "names_inv ns0" unfolding ns0_def pi_sem_unlink_def by (rule names_inv_remove [OF inv])
  from names_inv_create [OF this cr] have
    i: "names_inv ns1" "obj ns0 i = None" "link ns1 name = Some i" "obj ns1 i = Some v"
    by (simp_all add: r)
  have "obj ns i = None" using i(2) by (simp add: ns0_def pi_sem_unlink_def remove_name_def)
  then have "link ns name \<noteq> Some i" using inv unfolding names_inv_def by metis
  moreover have "pi_sem_open_or_create ns1 name c w = (Some i, ns1)" for c w
    by (simp add: pi_sem_open_or_create_def sem_open_def i)
  ultimately show ?thesis using i r by auto
qed

definition no_names :: "'o names" where
  "no_names = \<lparr>link = (\<lambda>_. None), obj = (\<lambda>_. None), fresh_id = 0\<rparr>"

lemma names_inv_no_names: "names_inv no_names"
  by (simp add: names_inv_def no_names_def)

lemma pi_sem_open_shared_example:
  "\<exists>i ns1. pi_sem_open_or_create (pi_sem_unlink no_names ''/s'') ''/s'' True 1 = (Some i, ns1) \<and>
     obj ns1 i = Some 1 \<and> pi_sem_open_or_create ns1 ''/s'' False 0 = (Some i, ns1)"
proof -
  obtain r ns1 where eq: "pi_sem_open_or_create (pi_sem_unlink no_names ''/s'') ''/s'' True 1 = (r, ns1)"
    by fastforce
  from pi_sem_open_shared [OF names_inv_no_names eq] show ?thesis using eq by auto
qed

text \<open>
  C28: with the mutex variant, every process that gets a pointer gets an initialised mutex
  with priority inheritance, shared between processes, as long as no creator's \<open>mmap\<close> has
  failed. When one has failed, the name stays behind with zeroed memory, and every later
  open succeeds and hands out that memory without ever initialising it.
\<close>

definition all_mutexes :: "shm names \<Rightarrow> bool" where
  "all_mutexes ns \<longleftrightarrow> (\<forall>i x. obj ns i = Some x \<longrightarrow> (\<exists>m. x = Mutex m \<and> proto m = PRIO_INHERIT \<and> pshared m))"



end
