(* ===== verification/LockSystem.thy ===== *)
theory LockSystem
  imports PiSem
begin

text \<open>
  Processes that share the lock of \<open>C/pi_sem.h\<close> and a log file opened with \<open>O_APPEND\<close>. A
  process is the sequence of its externally visible actions; a step of the system is one
  action of one process. The locale \<open>lock\<close> states what the processes need of the lock, its
  interpretations show that both variants of the header provide it.
\<close>

section \<open>Actions and steps\<close>

datatype act = SemWait | SemPost | Append string | Print string

record 'l sys =
  lock_of :: 'l
  shared_log :: "(nat \<times> string) list"
  todo :: "nat \<Rightarrow> act list"

text \<open>
  One scheduling step. Each log entry remembers its writer; an append to a file opened with
  \<open>O_APPEND\<close> is atomic. A process that cannot acquire the lock stays where it is.
\<close>

definition advance :: "nat \<Rightarrow> act list \<Rightarrow> 'l sys \<Rightarrow> 'l sys" where
  "advance p as s = s\<lparr>todo := (todo s)(p := as)\<rparr>"

inductive sys_step :: "(nat \<Rightarrow> 'l \<Rightarrow> 'l option) \<Rightarrow> (nat \<Rightarrow> 'l \<Rightarrow> 'l option) \<Rightarrow> 'l sys \<Rightarrow> 'l sys \<Rightarrow> bool"
  for acq rel where
  wait: "todo s p = SemWait # as \<Longrightarrow> acq p (lock_of s) = Some l \<Longrightarrow>
    sys_step acq rel s (advance p as (s\<lparr>lock_of := l\<rparr>))"
| post: "todo s p = SemPost # as \<Longrightarrow> rel p (lock_of s) = Some l \<Longrightarrow>
    sys_step acq rel s (advance p as (s\<lparr>lock_of := l\<rparr>))"
| append: "todo s p = Append e # as \<Longrightarrow>
    sys_step acq rel s (advance p as (s\<lparr>shared_log := shared_log s @ [(p, e)]\<rparr>))"
| print: "todo s p = Print e # as \<Longrightarrow> sys_step acq rel s (advance p as s)"

inductive_cases sys_stepE: "sys_step acq rel s t"

abbreviation sys_reach where "sys_reach acq rel \<equiv> (sys_step acq rel)\<^sup>*\<^sup>*"

text \<open>
  Well-bracketed programs: the lock is taken and given back in turn, and the log is written
  only in between. The flag says whether the process is inside its critical section.
\<close>

fun bracketed :: "bool \<Rightarrow> act list \<Rightarrow> bool" where
  "bracketed b [] \<longleftrightarrow> \<not> b"
| "bracketed b (SemWait # as) \<longleftrightarrow> \<not> b \<and> bracketed True as"
| "bracketed b (SemPost # as) \<longleftrightarrow> b \<and> bracketed False as"
| "bracketed b (Append e # as) \<longleftrightarrow> b \<and> bracketed b as"
| "bracketed b (Print e # as) \<longleftrightarrow> bracketed b as"

lemma bracketed_append: "bracketed b as \<Longrightarrow> bracketed False bs \<Longrightarrow> bracketed b (as @ bs)"
  by (induction b as rule: bracketed.induct) auto

text \<open>The entries of each critical section of a program, in order; the accumulator holds the
  entries of a section that is open.\<close>

fun sections :: "string list option \<Rightarrow> act list \<Rightarrow> string list list" where
  "sections c [] = []"
| "sections c (SemWait # as) = sections (Some []) as"
| "sections c (SemPost # as) = (case c of None \<Rightarrow> sections None as | Some es \<Rightarrow> es # sections None as)"
| "sections c (Append e # as) = sections (map_option (\<lambda>es. es @ [e]) c) as"
| "sections c (Print e # as) = sections c as"

lemma sections_append: "bracketed (c \<noteq> None) as \<Longrightarrow> sections c (as @ bs) = sections c as @ sections None bs"
  by (induction c as rule: sections.induct) (auto split: option.splits)

text \<open>A schedule of whole sections: who, and the entries. Its log, and one process's share.\<close>

definition flat :: "(nat \<times> string list) list \<Rightarrow> (nat \<times> string) list" where
  "flat bs = concat (map (\<lambda>(p, es). map (Pair p) es) bs)"

definition share :: "nat \<Rightarrow> (nat \<times> string list) list \<Rightarrow> string list list" where
  "share p bs = map snd (filter (\<lambda>b. fst b = p) bs)"

lemma flat_simps [simp]: "flat [] = []" "flat (bs @ [(p, es)]) = flat bs @ map (Pair p) es"
  by (simp_all add: flat_def)

lemma share_simps [simp]:
  "share p [] = []" "share p (bs @ [(q, es)]) = share p bs @ (if q = p then [es] else [])"
  by (simp_all add: share_def)

lemma todo_advance [simp]:
  "todo (advance p as s) = (todo s)(p := as)" "lock_of (advance p as s) = lock_of s"
  "shared_log (advance p as s) = shared_log s"
  by (simp_all add: advance_def)

section \<open>The contract\<close>

text \<open>
  \<open>repr l h\<close>: the lock \<open>l\<close> is free (\<open>h = None\<close>) or held by one process.
\<close>

locale lock =
  fixes acq rel :: "nat \<Rightarrow> 'l \<Rightarrow> 'l option" and repr :: "'l \<Rightarrow> nat option \<Rightarrow> bool"
  assumes acq_free: "repr l None \<Longrightarrow> \<exists>l'. acq p l = Some l' \<and> repr l' (Some p)"
    and acq_held: "repr l (Some q) \<Longrightarrow> acq p l = None"
    and rel_held: "repr l (Some p) \<Longrightarrow> \<exists>l'. rel p l = Some l' \<and> repr l' None"
begin

text \<open>
  The invariant of a run from \<open>s0\<close>: the holder is the only process inside a section, the log
  is a schedule of whole sections followed by the holder's entries so far, and each process's
  share plus what it still has to do is what it had to do at the start.
\<close>

definition run_inv :: "'l sys \<Rightarrow> 'l sys \<Rightarrow> nat option \<Rightarrow> (nat \<times> string list) list \<Rightarrow> string list \<Rightarrow> bool" where
  "run_inv s0 s h bs es \<longleftrightarrow> repr (lock_of s) h \<and>
     shared_log s = flat bs @ (case h of None \<Rightarrow> [] | Some q \<Rightarrow> map (Pair q) es) \<and>
     (\<forall>p. bracketed (h = Some p) (todo s p)) \<and>
     (\<forall>p. sections None (todo s0 p) = share p bs @ sections (if h = Some p then Some es else None) (todo s p))"

lemma run_inv_proc:
  assumes "run_inv s0 s h bs es"
  shows "bracketed (h = Some p) (todo s p)"
    and "sections None (todo s0 p) = share p bs @ sections (if h = Some p then Some es else None) (todo s p)"
  using assms unfolding run_inv_def by blast+

lemma run_inv_start:
  assumes "repr (lock_of s) None" "shared_log s = []" "\<forall>p. bracketed False (todo s p)"
  shows "run_inv s s None [] es"
  using assms by (simp add: run_inv_def)

lemma run_inv_wait:
  assumes inv: "run_inv s0 s h bs es" and todo: "todo s p = SemWait # as"
    and acq: "acq p (lock_of s) = Some l"
  shows "run_inv s0 (advance p as (s\<lparr>lock_of := l\<rparr>)) (Some p) bs []"
proof -
  have h: "h = None"
  proof (rule ccontr)
    assume "h \<noteq> None"
    then obtain q where "h = Some q" by blast
    with inv have "acq p (lock_of s) = None" by (auto simp: run_inv_def acq_held)
    with acq show False by simp
  qed
  have "repr l (Some p)" using acq_free [of "lock_of s" p] inv acq by (auto simp: run_inv_def h)
  moreover have "bracketed False (todo s p)" "sections None (todo s0 p) = share p bs @ sections None (todo s p)"
    using run_inv_proc [OF inv, of p] by (simp_all add: h)
  ultimately show ?thesis using inv todo by (auto simp: run_inv_def h)
qed

lemma run_inv_inside: "run_inv s0 s h bs es \<Longrightarrow> bracketed False (todo s p) = False \<Longrightarrow> h = Some p"
  using run_inv_proc(1) [of s0 s h bs es p] by (cases "h = Some p") simp_all

lemma run_inv_other: "run_inv s0 s (Some p) bs es \<Longrightarrow> q \<noteq> p \<Longrightarrow> bracketed False (todo s q)"
  using run_inv_proc(1) [of s0 s "Some p" bs es q] by simp

lemma run_inv_post:
  assumes inv: "run_inv s0 s h bs es" and todo: "todo s p = SemPost # as"
    and rel: "rel p (lock_of s) = Some l"
  shows "run_inv s0 (advance p as (s\<lparr>lock_of := l\<rparr>)) None (bs @ [(p, es)]) []"
proof -
  have h: "h = Some p" using inv by (rule run_inv_inside) (simp add: todo)
  have "repr l None" using rel_held [of "lock_of s" p] inv rel by (auto simp: run_inv_def h)
  moreover have "bracketed True (todo s p)" "sections None (todo s0 p) = share p bs @ sections (Some es) (todo s p)"
    using run_inv_proc [OF inv, of p] by (simp_all add: h)
  ultimately show ?thesis using inv todo run_inv_other [OF inv [unfolded h]] by (auto simp: run_inv_def h)
qed

lemma run_inv_append:
  assumes inv: "run_inv s0 s h bs es" and todo: "todo s p = Append e # as"
  shows "run_inv s0 (advance p as (s\<lparr>shared_log := shared_log s @ [(p, e)]\<rparr>)) h bs (es @ [e])"
proof -
  have h: "h = Some p" using inv by (rule run_inv_inside) (simp add: todo)
  have "bracketed True (todo s p)" "sections None (todo s0 p) = share p bs @ sections (Some es) (todo s p)"
    using run_inv_proc [OF inv, of p] by (simp_all add: h)
  then show ?thesis using inv todo run_inv_other [OF inv [unfolded h]] by (auto simp: run_inv_def h)
qed

lemma run_inv_print:
  assumes inv: "run_inv s0 s h bs es" and todo: "todo s p = Print e # as"
  shows "run_inv s0 (advance p as s) h bs es"
proof -
  have "bracketed (h = Some p) (todo s p)"
    "sections None (todo s0 p) = share p bs @ sections (if h = Some p then Some es else None) (todo s p)"
    using inv by (auto simp: run_inv_def)
  then show ?thesis using inv todo by (auto simp: run_inv_def)
qed

lemmas run_inv_steps = run_inv_wait run_inv_post run_inv_append run_inv_print

lemma run_inv_step: "run_inv s0 s h bs es \<Longrightarrow> sys_step acq rel s t \<Longrightarrow> \<exists>h bs es. run_inv s0 t h bs es"
  by (erule sys_stepE) (blast intro: run_inv_steps)+

lemma run_inv_reach:
  assumes "sys_reach acq rel s0 s" "repr (lock_of s0) None" "shared_log s0 = []" "\<forall>p. bracketed False (todo s0 p)"
  shows "\<exists>h bs es. run_inv s0 s h bs es"
  using assms(1)
proof induction
  case base
  show ?case using run_inv_start [OF assms(2-4)] by blast
next
  case (step s t)
  then show ?case using run_inv_step by blast
qed

text \<open>While some process has something to do, some process can do it.\<close>

lemma progress:
  assumes inv: "run_inv s0 s h bs es" and p: "todo s p \<noteq> []"
  shows "\<exists>t. sys_step acq rel s t"
proof -
  obtain q a as where q: "todo s q = a # as" "h = None \<or> h = Some q"
  proof (cases h)
    case None
    with p show thesis using that [of p] by (cases "todo s p") auto
  next
    case (Some r)
    then have "bracketed True (todo s r)" using run_inv_proc(1) [OF inv, of r] by simp
    with Some show thesis using that [of r] by (cases "todo s r") auto
  qed
  have inv': "repr (lock_of s) h" "bracketed (h = Some q) (a # as)"
    using inv by (auto simp: run_inv_def simp flip: q(1))
  show ?thesis
  proof (cases a)
    case SemWait
    with inv' q have "repr (lock_of s) None" by auto
    from acq_free [OF this, of q] show ?thesis using q SemWait sys_step.wait [of s q as acq] by blast
  next
    case SemPost
    with inv' q have "repr (lock_of s) (Some q)" by auto
    from rel_held [OF this] show ?thesis using q SemPost sys_step.post [of s q as rel] by blast
  qed (use q sys_step.append [of s q] sys_step.print [of s q] in blast)+
qed

text \<open>Each step consumes one action, so a run of finitely many processes ends.\<close>

lemma step_consumes:
  assumes "sys_step acq rel s t" "\<forall>p \<ge> n. todo s p = []"
  shows "(\<Sum>p<n. length (todo t p)) < (\<Sum>p<n. length (todo s p))" "\<forall>p \<ge> n. todo t p = []"
proof -
  from assms(1) obtain p a as where pa: "todo s p = a # as" "todo t = (todo s)(p := as)"
    by cases auto
  with assms(2) have "p < n" by (metis list.distinct(1) not_le)
  then show "(\<Sum>p<n. length (todo t p)) < (\<Sum>p<n. length (todo s p))"
    by (intro sum_strict_mono_ex1) (auto simp: pa)
  show "\<forall>p \<ge> n. todo t p = []" using assms(2) \<open>p < n\<close> by (simp add: pa)
qed

lemma completes:
  assumes "run_inv s0 s h bs es" "\<forall>p \<ge> n. todo s p = []"
  shows "\<exists>t. sys_reach acq rel s t \<and> (\<forall>p. todo t p = [])"
  using assms
proof (induction "\<Sum>p<n. length (todo s p)" arbitrary: s h bs es rule: less_induct)
  case less
  show ?case
  proof (cases "\<forall>p. todo s p = []")
    case False
    then obtain t where st: "sys_step acq rel s t" using progress [OF less.prems(1)] by blast
    then obtain h' bs' es' where "run_inv s0 t h' bs' es'" using run_inv_step [OF less.prems(1)] by blast
    with less.hyps step_consumes [OF st less.prems(2)]
    have "\<exists>u. sys_reach acq rel t u \<and> (\<forall>p. todo u p = [])" by blast
    then show ?thesis using st by (meson converse_rtranclp_into_rtranclp)
  qed auto
qed

text \<open>What the processes get from the lock.\<close>

lemma mutual_exclusion:
  assumes "sys_reach acq rel s0 s" "repr (lock_of s0) None" "shared_log s0 = []" "\<forall>p. bracketed False (todo s0 p)"
    "\<not> bracketed False (todo s p)" "\<not> bracketed False (todo s q)"
  shows "p = q"
  using run_inv_reach [OF assms(1-4)] run_inv_inside assms(5,6) by (metis option.inject)

lemma whole_sections:
  assumes "sys_reach acq rel s0 s" "repr (lock_of s0) None" "shared_log s0 = []" "\<forall>p. bracketed False (todo s0 p)"
    "\<forall>p. todo s p = []"
  shows "\<exists>bs. shared_log s = flat bs \<and> (\<forall>p. share p bs = sections None (todo s0 p))"
proof -
  obtain h bs es where inv: "run_inv s0 s h bs es" using run_inv_reach [OF assms(1-4)] by blast
  then have "\<forall>p. bracketed (h = Some p) []" using assms(5) by (auto simp: run_inv_def)
  then have "h = None" by (cases h) auto
  then show ?thesis using inv assms(5) by (auto simp: run_inv_def intro!: exI [of _ bs])
qed

lemma can_complete:
  assumes "sys_reach acq rel s0 s" "repr (lock_of s0) None" "shared_log s0 = []" "\<forall>p. bracketed False (todo s0 p)"
    "\<forall>p \<ge> n. todo s p = []"
  shows "\<exists>t. sys_reach acq rel s t \<and> (\<forall>p. todo t p = [])"
  using run_inv_reach [OF assms(1-4)] completes [OF _ assms(5)] by blast

end

section \<open>Both variants provide it\<close>

text \<open>The semaphore: 1 is free, 0 is held, by whoever came last.\<close>

definition sem_repr :: "nat \<Rightarrow> nat option \<Rightarrow> bool" where
  "sem_repr v h \<longleftrightarrow> v = (case h of None \<Rightarrow> 1 | Some _ \<Rightarrow> 0)"

interpretation sem: lock pi_sem_wait pi_sem_post sem_repr
  by unfold_locales (auto simp: sem_repr_def pi_sem_wait_def pi_sem_post_def)

definition mutex_repr :: "pi_sem_t \<Rightarrow> nat option \<Rightarrow> bool" where
  "mutex_repr m h \<longleftrightarrow> owner m = h"

interpretation pi: lock pi_mutex_wait pi_mutex_post mutex_repr
  by unfold_locales (auto simp: mutex_repr_def pi_mutex_wait_def pi_mutex_post_def)

end
