(* ===== verification/Logger.thy ===== *)
theory Logger
  imports LockSystem
begin

text \<open>
  The log writer \<open>C/logger.c\<close>. Each turn of its endless loop is one element of the input
  list: the result of \<open>poll\<close>, and of \<open>read\<close> and \<open>strftime\<close> if they are reached. A turn
  yields the actions of \<open>LockSystem\<close>.
\<close>

definition SEM_NAME :: string where "SEM_NAME = ''/health_payment_log_sem''"

record fifo_turn =
  poll_ready :: bool
  read_got :: "char list option"
  stamp :: string

text \<open>\<open>buf[256]\<close> keeps its bytes from turn to turn; \<open>cnt\<close> is the static counter.\<close>

record logger =
  log_buf :: "char list"
  cnt :: int

definition log_line :: "string \<Rightarrow> int \<Rightarrow> string \<Rightarrow> string" where
  "log_line t k msg = t @ '' [LOG sem='' @ dec_int k @ ''] '' @ msg @ [NL]"

definition logger_turn :: "logger \<Rightarrow> fifo_turn \<Rightarrow> (act list \<times> logger) res" where
  "logger_turn lg t =
     (if poll_ready t
      then (case read_got t of
          None \<Rightarrow> Inr ([SemWait, SemPost], lg)
        | Some bs \<Rightarrow>
            let n = int (length bs) in
            and_then (mem_write (log_buf lg) 0 bs) (\<lambda>buf.
            if 0 < n
            then and_then (mem_write buf n [NUL]) (\<lambda>buf.
                 and_then (mem_read buf (n - 1) 1) (\<lambda>c.
                 and_then (if c = [NL] then mem_write buf (n - 1) [NUL] else Inr buf) (\<lambda>buf.
                 let cnt = s32 (cnt lg + 1) in
                 Inr ([SemWait, Append (log_line (stamp t) cnt (c_str buf)), Print (''[LOG] '' @ c_str buf), SemPost],
                      \<lparr>log_buf = buf, cnt = cnt\<rparr>))))
            else Inr ([SemWait, SemPost], lg\<lparr>log_buf := buf\<rparr>)))
      else Inr ([], lg))"

fun logger_loop :: "logger \<Rightarrow> fifo_turn list \<Rightarrow> (act list \<times> logger) res" where
  "logger_loop lg [] = Inr ([], lg)"
| "logger_loop lg (t # ts) =
     and_then (logger_turn lg t) (\<lambda>(as, lg).
     and_then (logger_loop lg ts) (\<lambda>(bs, lg). Inr (as @ bs, lg)))"

text \<open>
  \<open>main\<close> up to the given turns: \<open>Some 1\<close> is \<open>exit(1)\<close>, \<open>None\<close> is still running. The second
  component is the semaphore, the third the name space it leaves.
\<close>

definition logger_main :: "nat names \<Rightarrow> bool \<Rightarrow> char list \<Rightarrow> fifo_turn list \<Rightarrow>
    (int option \<times> nat option \<times> nat names \<times> act list) res" where
  "logger_main ns logfd_ok buf0 ts =
     (case pi_sem_open_or_create (pi_sem_unlink ns SEM_NAME) SEM_NAME True 1 of
        (None, ns) \<Rightarrow> Inr (Some 1, None, ns, [])
      | (Some sem, ns) \<Rightarrow>
          if \<not> logfd_ok then Inr (Some 1, Some sem, ns, [])
          else and_then (logger_loop \<lparr>log_buf = buf0, cnt = 0\<rparr> ts) (\<lambda>(as, _). Inr (None, Some sem, ns, as)))"

section \<open>What is logged\<close>

text \<open>The messages of a run with their time stamps, and the text of one: up to the first
  NUL, without a newline at its end.\<close>

definition fifo_messages :: "fifo_turn list \<Rightarrow> (string \<times> char list) list" where
  "fifo_messages ts = concat (map (\<lambda>t. if poll_ready t
     then (case read_got t of None \<Rightarrow> [] | Some bs \<Rightarrow> if bs = [] then [] else [(stamp t, bs)]) else []) ts)"

definition message_text :: "char list \<Rightarrow> string" where
  "message_text bs = c_str (if last bs = NL then butlast bs else bs)"

definition fifo_turn_ok :: "fifo_turn \<Rightarrow> bool" where
  "fifo_turn_ok t \<longleftrightarrow> (case read_got t of None \<Rightarrow> True | Some bs \<Rightarrow> length bs \<le> 255)"

lemma fifo_messages_Cons: "fifo_messages (t # ts) = fifo_messages [t] @ fifo_messages ts"
  by (simp add: fifo_messages_def)

lemma logger_turn_message:
  assumes "length (log_buf lg) = 256" "bs \<noteq> []" "length bs \<le> 255" "poll_ready t" "read_got t = Some bs"
  shows "\<exists>buf. length buf = 256 \<and> c_str buf = message_text bs \<and> logger_turn lg t = Inr
    ([SemWait, Append (log_line (stamp t) (s32 (cnt lg + 1)) (message_text bs)),
      Print (''[LOG] '' @ message_text bs), SemPost], \<lparr>log_buf = buf, cnt = s32 (cnt lg + 1)\<rparr>)"
proof -
  define b1 where "b1 = overlay (log_buf lg) 0 bs"
  define b2 where "b2 = overlay b1 (length bs) [NUL]"
  define b3 where "b3 = (if last bs = NL then overlay b2 (length bs - 1) [NUL] else b2)"
  have len: "length b1 = 256" "length b2 = 256" "length b3 = 256"
    using assms by (auto simp: b1_def b2_def b3_def)
  have b2: "b2 = bs @ NUL # drop (Suc (length bs)) (log_buf lg)"
    by (simp add: b2_def b1_def overlay_def)
  have b2': "b2 = butlast bs @ last bs # NUL # drop (Suc (length bs)) (log_buf lg)"
    using assms(2) by (simp add: b2)
  have rd: "mem_read b2 (int (length bs) - 1) 1 = Inr [last bs]"
    using assms len by (simp add: mem_read_def nat_diff_distrib') (simp add: b2' flip: length_butlast)
  have w: "mem_write (log_buf lg) 0 bs = Inr b1" "mem_write b1 (int (length bs)) [NUL] = Inr b2"
    "last bs = NL \<Longrightarrow> mem_write b2 (int (length bs) - 1) [NUL] = Inr b3"
    using assms len by (simp_all add: mem_write_def b1_def b2_def b3_def nat_diff_distrib')
  have "c_str b3 = message_text bs"
  proof (cases "last bs = NL")
    case True
    moreover obtain xs x where "bs = xs @ [x]" using assms(2) by (cases bs rule: rev_exhaust) auto
    ultimately have "b3 = butlast bs @ NUL # NUL # drop (Suc (length bs)) (log_buf lg)"
      unfolding b3_def by (simp add: b2 overlay_def)
    with True show ?thesis by (simp add: c_str_upto message_text_def)
  next
    case False
    then show ?thesis by (simp add: b3_def b2 c_str_upto message_text_def)
  qed
  moreover have "last bs \<noteq> NL \<Longrightarrow> b3 = b2" by (simp add: b3_def)
  ultimately show ?thesis using assms(2,4,5) len
    by (intro exI [of _ b3]) (cases "last bs = NL"; simp add: logger_turn_def w rd Let_def)
qed

lemma logger_turn_quiet:
  assumes "length (log_buf lg) = 256" "fifo_messages [t] = []"
  shows "\<exists>as lg'. logger_turn lg t = Inr (as, lg') \<and> bracketed False as \<and> concat (sections None as) = [] \<and>
    length (log_buf lg') = 256 \<and> cnt lg' = cnt lg"
  using assms by (auto simp: logger_turn_def fifo_messages_def mem_write_def Let_def split: option.splits if_splits)

lemma logger_loop_logs:
  assumes "length (log_buf lg) = 256" "\<forall>t \<in> set ts. fifo_turn_ok t" "0 \<le> cnt lg"
    "cnt lg + int (length (fifo_messages ts)) < 2147483648"
  shows "\<exists>as lg'. logger_loop lg ts = Inr (as, lg') \<and> bracketed False as \<and>
    concat (sections None as) = map (\<lambda>(i, t, bs). log_line t (cnt lg + int i + 1) (message_text bs))
      (enumerate 0 (fifo_messages ts))"
  using assms
proof (induction ts arbitrary: lg)
  case Nil
  then show ?case by (simp add: fifo_messages_def)
next
  case (Cons t ts)
  show ?case
  proof (cases "fifo_messages [t] = []")
    case True
    from logger_turn_quiet [OF Cons.prems(1) True] obtain as lg1 where
      1: "logger_turn lg t = Inr (as, lg1)" "bracketed False as" "concat (sections None as) = []"
        "length (log_buf lg1) = 256" "cnt lg1 = cnt lg" by blast
    then show ?thesis
      using Cons.IH [OF 1(4)] Cons.prems(2-4) True
      by (auto simp: fifo_messages_Cons [of t ts] bracketed_append sections_append)
  next
    case False
    then obtain bs where t: "poll_ready t" "read_got t = Some bs" "bs \<noteq> []" "fifo_messages [t] = [(stamp t, bs)]"
      by (auto simp: fifo_messages_def split: if_splits option.splits)
    have "length bs \<le> 255" using Cons.prems(2) t by (simp add: fifo_turn_ok_def)
    from logger_turn_message [OF Cons.prems(1) t(3) this t(1,2)] obtain buf where
      1: "length buf = 256" "logger_turn lg t = Inr
        ([SemWait, Append (log_line (stamp t) (s32 (cnt lg + 1)) (message_text bs)),
          Print (''[LOG] '' @ message_text bs), SemPost], \<lparr>log_buf = buf, cnt = s32 (cnt lg + 1)\<rparr>)" by blast
    have k: "s32 (cnt lg + 1) = cnt lg + 1"
      using Cons.prems(3,4) t(4) by (intro s32_id) (simp_all add: fifo_messages_Cons [of t ts])
    obtain as lg' where 2: "logger_loop \<lparr>log_buf = buf, cnt = cnt lg + 1\<rparr> ts = Inr (as, lg')" "bracketed False as"
      "concat (sections None as) = map (\<lambda>(i, t, bs). log_line t (cnt lg + 1 + int i + 1) (message_text bs))
        (enumerate 0 (fifo_messages ts))"
      using Cons.IH [of "\<lparr>log_buf = buf, cnt = cnt lg + 1\<rparr>"] 1(1) Cons.prems(2-4) t(4)
      by (auto simp: fifo_messages_Cons [of t ts])
    show ?thesis
      using 2 by (simp add: 1(2) [unfolded k] fifo_messages_Cons [of t ts] t(4) enumerate_Suc_eq [of 0] comp_def split_beta add_ac)
  qed
qed


definition two_turns :: "fifo_turn list" where
  "two_turns = [\<lparr>poll_ready = True, read_got = Some (''PAYING 5'' @ [NL]), stamp = ''2026-01-01 00:00:00''\<rparr>,
     \<lparr>poll_ready = True, read_got = Some [], stamp = ''2026-01-01 00:00:01''\<rparr>]"

lemma two_turns_ok: "\<forall>t \<in> set two_turns. fifo_turn_ok t" "length (fifo_messages two_turns) < 2147483648"
  by (simp_all add: two_turns_def fifo_turn_ok_def fifo_messages_def)


end
