(* ===== verification/Health.thy ===== *)
theory Health
  imports Logger Clock
begin

text \<open>
  The health checker \<open>C/health.c\<close>: it opens the logger's semaphore, then serves a periodic
  timer and one client from an \<open>epoll\<close> loop. An input of the loop is one batch of events with
  the time stamp formatted for it; a timer event carries the two clock readings of its
  handler, a client event what \<open>read\<close> returned.
\<close>

section \<open>Opening the semaphore\<close>

text \<open>
  Up to \<open>tries\<close> attempts, a millisecond apart; \<open>ns i\<close> is the name space at attempt \<open>i\<close>. The
  loop is the same text in \<open>health.c\<close> and \<open>payment.c\<close>.
\<close>

fun open_loop :: "nat \<Rightarrow> (nat \<Rightarrow> nat names) \<Rightarrow> nat \<Rightarrow> nat option" where
  "open_loop 0 ns i = None"
| "open_loop (Suc tries) ns i =
     (case fst (pi_sem_open_or_create (ns i) SEM_NAME False 0) of
        Some sem \<Rightarrow> Some sem
      | None \<Rightarrow> open_loop tries ns (Suc i))"

lemma open_loop_first:
  assumes "k < tries" "\<And>j. j < k \<Longrightarrow> link (ns (i + j)) SEM_NAME = None" "link (ns (i + k)) SEM_NAME = Some sem"
  shows "open_loop tries ns i = Some sem"
  using assms
proof (induction tries arbitrary: i k)
  case (Suc tries)
  show ?case
  proof (cases k)
    case 0
    with Suc.prems(3) show ?thesis by (simp add: pi_sem_open_or_create_def sem_open_def)
  next
    case (Suc k')
    have "link (ns i) SEM_NAME = None" using Suc.prems(2) [of 0] Suc by simp
    moreover have "open_loop tries ns (Suc i) = Some sem"
    proof (rule Suc.IH)
      show "k' < tries" using Suc.prems(1) Suc by simp
      show "link (ns (Suc i + j)) SEM_NAME = None" if "j < k'" for j
        using Suc.prems(2) [of "Suc j"] that Suc by simp
      show "link (ns (Suc i + k')) SEM_NAME = Some sem" using Suc.prems(3) Suc by simp
    qed
    ultimately show ?thesis by (simp add: pi_sem_open_or_create_def sem_open_def)
  qed
qed simp

lemma open_loop_absent:
  "(\<And>j. j < tries \<Longrightarrow> link (ns (i + j)) SEM_NAME = None) \<Longrightarrow> open_loop tries ns i = None"
proof (induction tries arbitrary: i)
  case (Suc tries)
  have "link (ns i) SEM_NAME = None" using Suc.prems [of 0] by simp
  moreover have "open_loop tries ns (Suc i) = None"
    using Suc.prems [of "Suc _"] by (intro Suc.IH) simp
  ultimately show ?case by (simp add: pi_sem_open_or_create_def sem_open_def)
qed simp

section \<open>Events\<close>

datatype hevent = Timer timespec timespec | ClientData "char list option"

record health =
  running :: bool
  hbuf :: "char list"

text \<open>\<open>%ld.%03ld\<close> of \<open>tv_sec % 1000\<close> and \<open>tv_nsec / 1000000\<close>.\<close>

definition pad3 :: "string \<Rightarrow> string" where
  "pad3 s = replicate (3 - length s) CHR ''0'' @ s"

definition clock_text :: "timespec \<Rightarrow> string" where
  "clock_text t = dec_int (tv_sec t smod 1000) @ ''.'' @ pad3 (dec_int (tv_nsec t sdiv 1000000))"

text \<open>The note on a long wait, with its UTF-8 bytes.\<close>

definition wait_note :: "int \<Rightarrow> string" where
  "wait_note ms = '' health check'' @
     map char_of [0xEF :: nat, 0xBC, 0x88, 0xE5, 0xBE, 0x85, 0xE3, 0x81, 0xA1, 0xE6, 0x99, 0x82, 0xE9, 0x96, 0x93, 0x3A, 0x20] @
     dec_int ms @ '' ms'' @ map char_of [0xEF :: nat, 0xBC, 0x89] @ [NL]"

definition check_line :: "string \<Rightarrow> timespec \<Rightarrow> string" where
  "check_line tbuf t = tbuf @ '' [HEALTH] Health check '' @ clock_text t @ ''s'' @ [NL]"

definition health_event :: "string \<Rightarrow> health \<Rightarrow> hevent \<Rightarrow> (act list \<times> health) res" where
  "health_event tbuf h ev =
     (case ev of
        Timer t1 t2 \<Rightarrow>
          if running h
          then let delay_ms = elapsed_ms t1 t2 in
            Inr ([SemWait, Append (check_line tbuf t1)] @
              (if delay_ms > 10
               then [Print (''[HEALTH]'' @ wait_note delay_ms), Append (tbuf @ '' [HEALTH]'' @ wait_note delay_ms)]
               else []) @ [SemPost], h)
          else Inr ([], h)
      | ClientData got \<Rightarrow>
          (case got of
             None \<Rightarrow> Inr ([], h)
           | Some bs \<Rightarrow>
               and_then (mem_write (hbuf h) 0 bs) (\<lambda>buf.
               if 0 < length bs
               then and_then (mem_write buf (int (length bs)) [NUL]) (\<lambda>buf.
                 if strstr (c_str buf) ''STOP''
                 then Inr ([SemWait, Print (''health stopped'' @ [NL]),
                            Append (tbuf @ '' [HEALTH] health stopped'' @ [NL]), SemPost],
                           \<lparr>running = False, hbuf = buf\<rparr>)
                 else if strstr (c_str buf) ''START''
                 then Inr ([SemWait, Print (''health started'' @ [NL]),
                            Append (tbuf @ '' [HEALTH] health started'' @ [NL]), SemPost],
                           \<lparr>running = True, hbuf = buf\<rparr>)
                 else Inr ([SemWait, SemPost], h\<lparr>hbuf := buf\<rparr>))
               else Inr ([], h\<lparr>hbuf := buf\<rparr>))))"

fun health_events :: "string \<Rightarrow> health \<Rightarrow> hevent list \<Rightarrow> (act list \<times> health) res" where
  "health_events tbuf h [] = Inr ([], h)"
| "health_events tbuf h (ev # evs) =
     and_then (health_event tbuf h ev) (\<lambda>(as, h).
     and_then (health_events tbuf h evs) (\<lambda>(bs, h). Inr (as @ bs, h)))"

fun health_loop :: "health \<Rightarrow> (string \<times> hevent list) list \<Rightarrow> (act list \<times> health) res" where
  "health_loop h [] = Inr ([], h)"
| "health_loop h ((tbuf, evs) # bs) =
     and_then (health_events tbuf h evs) (\<lambda>(as, h).
     and_then (health_loop h bs) (\<lambda>(cs, h). Inr (as @ cs, h)))"

text \<open>
  \<open>main\<close>: no semaphore after 20 attempts, or no log file, is \<open>exit(1)\<close>.
\<close>

definition health_main :: "(nat \<Rightarrow> nat names) \<Rightarrow> bool \<Rightarrow> char list \<Rightarrow> (string \<times> hevent list) list \<Rightarrow>
    (int option \<times> nat option \<times> act list) res" where
  "health_main ns logfd_ok buf0 bs =
     (case open_loop 20 ns 0 of
        None \<Rightarrow> Inr (Some 1, None, [])
      | Some sem \<Rightarrow> if \<not> logfd_ok then Inr (Some 1, Some sem, [])
          else and_then (health_loop \<lparr>running = False, hbuf = buf0\<rparr> bs) (\<lambda>(as, _). Inr (None, Some sem, as)))"

section \<open>What is logged\<close>

text \<open>What a client message asks for: the bytes up to the first NUL contain a command.\<close>

definition command_of :: "hevent \<Rightarrow> bool option" where
  "command_of ev = (case ev of Timer _ _ \<Rightarrow> None | ClientData None \<Rightarrow> None
     | ClientData (Some bs) \<Rightarrow>
         if strstr (c_str bs) ''STOP'' then Some False
         else if strstr (c_str bs) ''START'' then Some True else None)"

definition running_after :: "bool \<Rightarrow> hevent list \<Rightarrow> bool" where
  "running_after r evs = fold (\<lambda>ev r. case command_of ev of None \<Rightarrow> r | Some c \<Rightarrow> c) evs r"

text \<open>A line of a health check, recognised behind its 19-byte time stamp.\<close>

definition is_check :: "string \<Rightarrow> bool" where
  "is_check l \<longleftrightarrow> take 23 (drop 19 l) = '' [HEALTH] Health check ''"

text \<open>The timer events that find the checker running.\<close>

fun due_checks :: "bool \<Rightarrow> hevent list \<Rightarrow> nat" where
  "due_checks r [] = 0"
| "due_checks r (ev # evs) =
     (case ev of Timer _ _ \<Rightarrow> if r then 1 else 0 | ClientData _ \<Rightarrow> 0) + due_checks (running_after r [ev]) evs"

definition hevent_ok :: "hevent \<Rightarrow> bool" where
  "hevent_ok ev \<longleftrightarrow> (case ev of ClientData (Some bs) \<Rightarrow> length bs \<le> 127 | _ \<Rightarrow> True)"

definition checks :: "act list \<Rightarrow> nat" where
  "checks as = length (filter is_check (concat (sections None as)))"

lemma checks_append: "bracketed False as \<Longrightarrow> checks (as @ bs) = checks as + checks bs"
  by (simp add: checks_def sections_append)

lemma is_check_lines:
  assumes "length tbuf = 19"
  shows "is_check (check_line tbuf t)" "\<not> is_check (tbuf @ '' [HEALTH]'' @ wait_note ms)"
    "\<not> is_check (tbuf @ '' [HEALTH] health stopped'' @ [NL])" "\<not> is_check (tbuf @ '' [HEALTH] health started'' @ [NL])"
  using assms by (simp_all add: is_check_def check_line_def wait_note_def)

lemma running_after_Cons: "running_after r (ev # evs) = running_after (running_after r [ev]) evs"
  by (simp add: running_after_def)

definition commands :: "hevent list \<Rightarrow> bool list" where
  "commands evs = concat (map (\<lambda>ev. case command_of ev of None \<Rightarrow> [] | Some c \<Rightarrow> [c]) evs)"

lemma running_after_last: "running_after r evs = last (r # commands evs)"
proof (induction evs arbitrary: r)
  case Nil
  then show ?case by (simp add: running_after_def commands_def)
next
  case (Cons ev evs)
  show ?case unfolding running_after_Cons [of r ev evs] Cons.IH
    by (cases "command_of ev") (simp_all add: running_after_def commands_def)
qed

lemma health_event_ok:
  assumes "length (hbuf h) = 128" "hevent_ok ev" "length tbuf = 19"
  shows "\<exists>as h'. health_event tbuf h ev = Inr (as, h') \<and> length (hbuf h') = 128 \<and> bracketed False as \<and>
    running h' = running_after (running h) [ev] \<and> checks as = due_checks (running h) [ev]"
proof (cases ev)
  case (Timer t1 t2)
  then show ?thesis
    using assms(1) is_check_lines [OF assms(3)]
    by (auto simp: health_event_def Let_def running_after_def command_of_def checks_def)
next
  case (ClientData got)
  show ?thesis
  proof (cases got)
    case None
    then show ?thesis using assms(1)
      by (simp add: ClientData health_event_def running_after_def command_of_def checks_def)
  next
    case (Some bs)
    define b1 where "b1 = overlay (hbuf h) 0 bs"
    define b2 where "b2 = overlay b1 (length bs) [NUL]"
    have bs: "length bs \<le> 127" using assms(2) by (simp add: ClientData Some hevent_ok_def)
    then have w: "mem_write (hbuf h) 0 bs = Inr b1" "mem_write b1 (int (length bs)) [NUL] = Inr b2"
      and len: "length b1 = 128" "length b2 = 128"
      using assms(1) by (simp_all add: mem_write_def b1_def b2_def)
    have "b2 = bs @ NUL # drop (Suc (length bs)) (hbuf h)" by (simp add: b2_def b1_def overlay_def)
    then have c: "c_str b2 = c_str bs" by (simp add: c_str_upto)
    show ?thesis using assms(1) len is_check_lines [OF assms(3)]
      by (cases "bs = []")
        (auto simp: ClientData Some health_event_def w c running_after_def command_of_def checks_def)
  qed
qed

lemma health_events_ok:
  assumes "length (hbuf h) = 128" "\<forall>ev \<in> set evs. hevent_ok ev" "length tbuf = 19"
  shows "\<exists>as h'. health_events tbuf h evs = Inr (as, h') \<and> length (hbuf h') = 128 \<and> bracketed False as \<and>
    running h' = running_after (running h) evs \<and> checks as = due_checks (running h) evs"
  using assms
proof (induction evs arbitrary: h)
  case Nil
  then show ?case by (simp add: running_after_def checks_def)
next
  case (Cons ev evs)
  obtain as h1 where 1: "health_event tbuf h ev = Inr (as, h1)" "length (hbuf h1) = 128" "bracketed False as"
      "running h1 = running_after (running h) [ev]" "checks as = due_checks (running h) [ev]"
    using health_event_ok [OF Cons.prems(1) _ Cons.prems(3), of ev] Cons.prems(2) by auto
  obtain bs h2 where 2: "health_events tbuf h1 evs = Inr (bs, h2)" "length (hbuf h2) = 128" "bracketed False bs"
      "running h2 = running_after (running h1) evs" "checks bs = due_checks (running h1) evs"
    using Cons.IH [OF 1(2)] Cons.prems by auto
  show ?case
    using 1 2 by (simp add: bracketed_append checks_append running_after_Cons [of _ ev evs])
qed

lemma due_checks_append: "due_checks r (xs @ ys) = due_checks r xs + due_checks (running_after r xs) ys"
proof (induction xs arbitrary: r)
  case Nil
  then show ?case by (simp add: running_after_def)
next
  case (Cons ev xs)
  then show ?case by (simp add: running_after_Cons [of r ev xs])
qed

lemma health_loop_ok:
  assumes "length (hbuf h) = 128" "\<forall>(tbuf, evs) \<in> set bs. length tbuf = 19 \<and> (\<forall>ev \<in> set evs. hevent_ok ev)"
  shows "\<exists>as h'. health_loop h bs = Inr (as, h') \<and> bracketed False as \<and>
    running h' = running_after (running h) (concat (map snd bs)) \<and>
    checks as = due_checks (running h) (concat (map snd bs))"
  using assms
proof (induction bs arbitrary: h)
  case Nil
  then show ?case by (simp add: running_after_def checks_def)
next
  case (Cons b bs)
  obtain tbuf evs where b: "b = (tbuf, evs)" by fastforce
  obtain as h1 where 1: "health_events tbuf h evs = Inr (as, h1)" "length (hbuf h1) = 128" "bracketed False as"
      "running h1 = running_after (running h) evs" "checks as = due_checks (running h) evs"
    using health_events_ok [OF Cons.prems(1), of evs tbuf] Cons.prems(2) by (auto simp: b)
  obtain cs h2 where 2: "health_loop h1 bs = Inr (cs, h2)" "bracketed False cs"
      "running h2 = running_after (running h1) (concat (map snd bs))"
      "checks cs = due_checks (running h1) (concat (map snd bs))"
    using Cons.IH [OF 1(2)] Cons.prems(2) by auto
  have "running_after (running h) (evs @ ys) = running_after (running h1) ys" for ys
    by (simp add: running_after_def 1(4))
  with 1 2 show ?case by (simp add: b bracketed_append checks_append due_checks_append)
qed

fun is_timer :: "hevent \<Rightarrow> bool" where
  "is_timer (Timer t1 t2) = True"
| "is_timer (ClientData got) = False"

lemma due_checks_positions:
  "due_checks r evs = length (filter (\<lambda>i. is_timer (evs ! i) \<and> last (r # commands (take i evs))) [0..<length evs])"
proof (induction evs rule: rev_induct)
  case (snoc ev evs)
  have "filter (\<lambda>i. is_timer ((evs @ [ev]) ! i) \<and> last (r # commands (take i (evs @ [ev])))) [0..<length evs] =
      filter (\<lambda>i. is_timer (evs ! i) \<and> last (r # commands (take i evs))) [0..<length evs]"
    by (intro filter_cong) (auto simp: nth_append)
  moreover have "due_checks (running_after r evs) [ev] = (if is_timer ev \<and> last (r # commands evs) then 1 else 0)"
    by (cases ev) (simp_all add: running_after_last)
  ultimately show ?case by (simp add: snoc due_checks_append)
qed simp


definition names_with :: "nat \<Rightarrow> nat names" where
  "names_with k = snd (create no_names SEM_NAME k)"

definition three_batches :: "(string \<times> hevent list) list" where
  "three_batches = [(''2026-01-01 00:00:00'', [Timer \<lparr>tv_sec = 5, tv_nsec = 0\<rparr> \<lparr>tv_sec = 5, tv_nsec = 0\<rparr>]),
     (''2026-01-01 00:00:01'', [ClientData (Some ''START''), Timer \<lparr>tv_sec = 6, tv_nsec = 0\<rparr> \<lparr>tv_sec = 6, tv_nsec = 40000000\<rparr>]),
     (''2026-01-01 00:00:02'', [ClientData (Some ''STOP'')])]"


end
