(* ===== verification/PaymentDemo.thy ===== *)
theory PaymentDemo
  imports Health
begin

text \<open>
  The payment process \<open>C/payment.c\<close>, and the demonstration as a whole: logger and health
  checker share one lock and one log file, under either variant of the lock.
\<close>

section \<open>The payment process\<close>

text \<open>\<open>Tick i t\<close> is the line of the \<open>i\<close>-th work unit with the time it prints.\<close>

datatype pay_line = Processing string | Tick nat timespec | Done

text \<open>\<open>n\<close> work units from number \<open>i\<close> on, the next clock sample being \<open>k\<close>; the result has the
  index of the next sample. \<open>None\<close>: a busy wait never ends.\<close>

fun work :: "(nat \<Rightarrow> timespec) \<Rightarrow> nat \<Rightarrow> nat \<Rightarrow> nat \<Rightarrow> (pay_line list \<times> nat) option" where
  "work clk 0 i k = Some ([], k)"
| "work clk (Suc n) i k =
     (case busy_wait_ms clk (k + 1) 100 of
        None \<Rightarrow> None
      | Some k' \<Rightarrow> map_option (\<lambda>(os, k''). (Tick i (clk k) # os, k'')) (work clk n (Suc i) k'))"

text \<open>
  The loop over the results of \<open>read\<close>: \<open>Some 0\<close> when it was left and \<open>main\<close> returned 0,
  \<open>None\<close> while it waits for more.
\<close>

fun payment_loop :: "(nat \<Rightarrow> timespec) \<Rightarrow> char list \<Rightarrow> nat \<Rightarrow> char list option list \<Rightarrow>
    (pay_line list \<times> int option \<times> nat) res option" where
  "payment_loop clk buf k [] = Some (Inr ([], None, k))"
| "payment_loop clk buf k (None # rs) = Some (Inr ([], Some 0, k))"
| "payment_loop clk buf k (Some bs # rs) =
     (if bs = [] then Some (Inr ([], Some 0, k))
      else case and_then (mem_write buf 0 bs) (\<lambda>buf. mem_write buf (int (length bs)) [NUL]) of
        Inl e \<Rightarrow> Some (Inl e)
      | Inr buf \<Rightarrow>
         (case work clk 20 0 k of
            None \<Rightarrow> None
          | Some (os, k) \<Rightarrow>
              map_option (\<lambda>r. and_then r (\<lambda>(os', x, k). Inr ([Processing (c_str buf)] @ os @ [Done] @ os', x, k)))
                (payment_loop clk buf k rs)))"

definition payment_main :: "(nat \<Rightarrow> nat names) \<Rightarrow> (nat \<Rightarrow> timespec) \<Rightarrow> char list \<Rightarrow> char list option list \<Rightarrow>
    (pay_line list \<times> int option \<times> nat) res option" where
  "payment_main ns clk buf rs =
     (case open_loop 20 ns 0 of
        None \<Rightarrow> Some (Inr ([], Some 1, 0))
      | Some sem \<Rightarrow> payment_loop clk buf 0 rs)"

text \<open>A clock that keeps moving: from each sample on it advances by 101 ms, and not by 24 days
  between two looks.\<close>

definition clock_moves :: "(nat \<Rightarrow> timespec) \<Rightarrow> bool" where
  "clock_moves clk \<longleftrightarrow> clock_mono clk \<and> (\<forall>i. \<exists>k > i. 101000000 \<le> ns_of (clk k) - ns_of (clk i) \<and>
     ns_of (clk k) - ns_of (clk i) \<le> 2147483646000000)"

lemma clock_moves_wait:
  assumes "clock_moves clk"
  obtains j where "busy_wait_ms clk i 100 = Some (Suc j)" "i < j" "99000000 < ns_of (clk j) - ns_of (clk i)"
proof -
  obtain k where k: "i < k" "101000000 \<le> ns_of (clk k) - ns_of (clk i)"
    "ns_of (clk k) - ns_of (clk i) \<le> 2147483646000000" using assms by (auto simp: clock_moves_def)
  have "\<exists>j. busy_wait_ms clk i 100 = Some (Suc j) \<and> i < j \<and> j \<le> k \<and>
    (100 - 1) * 1000000 < ns_of (clk j) - ns_of (clk i) \<and>
    (Suc i < j \<longrightarrow> ns_of (clk (j - 1)) - ns_of (clk i) < 100 * 1000000)"
    using k assms by (intro busy_wait_ms_returns) (auto simp: clock_moves_def)
  then show thesis using that by auto
qed

lemma ns_of_mono: "clock_moves clk \<Longrightarrow> i \<le> j \<Longrightarrow> ns_of (clk i) \<le> ns_of (clk j)"
  by (simp add: clock_moves_def clock_mono_def)

definition ticks :: "nat \<Rightarrow> timespec list \<Rightarrow> pay_line list" where
  "ticks i ts = map (\<lambda>(i, t). Tick i t) (enumerate i ts)"

lemma ticks_simps [simp]: "ticks i [] = []" "ticks i (t # ts) = Tick i t # ticks (Suc i) ts"
  by (simp_all add: ticks_def)

lemma work_done:
  assumes "clock_moves clk"
  shows "\<exists>ts k'. work clk n i k = Some (ticks i ts, k') \<and> length ts = n \<and> k \<le> k' \<and>
    int n * 99000000 \<le> ns_of (clk k') - ns_of (clk k)"
proof (induction n arbitrary: i k)
  case 0
  then show ?case by (auto intro!: exI [of _ "[]"])
next
  case (Suc n)
  obtain j where j: "busy_wait_ms clk (k + 1) 100 = Some (Suc j)" "k + 1 < j"
    "99000000 < ns_of (clk j) - ns_of (clk (k + 1))" using clock_moves_wait [OF assms] .
  obtain ts k' where w: "work clk n (Suc i) (Suc j) = Some (ticks (Suc i) ts, k')" "length ts = n" "Suc j \<le> k'"
    "int n * 99000000 \<le> ns_of (clk k') - ns_of (clk (Suc j))" using Suc.IH by blast
  have "ns_of (clk k) \<le> ns_of (clk (k + 1))" "ns_of (clk j) \<le> ns_of (clk (Suc j))"
    by (rule ns_of_mono [OF assms], simp)+
  then have "int (Suc n) * 99000000 \<le> ns_of (clk k') - ns_of (clk k)"
    using j(3) w(4) by (simp add: algebra_simps)
  then show ?case using j w by (intro exI [of _ "clk k # ts"] exI [of _ k']) simp
qed

text \<open>What is printed for one message when the work units start at the given times.\<close>

definition service :: "char list \<Rightarrow> timespec list \<Rightarrow> pay_line list" where
  "service msg ts = [Processing (c_str msg)] @ ticks 0 ts @ [Done]"

lemma payment_loop_serves:
  assumes "clock_moves clk" "length buf = 1024" "\<forall>m \<in> set msgs. m \<noteq> [] \<and> length m \<le> 1023" "eof = None \<or> eof = Some []"
  shows "\<exists>tss k'. payment_loop clk buf k (map Some msgs @ [eof]) =
      Some (Inr (concat (map (\<lambda>(m, ts). service m ts) (zip msgs tss)), Some 0, k')) \<and>
    length tss = length msgs \<and> (\<forall>ts \<in> set tss. length ts = 20) \<and> k \<le> k' \<and>
    int (length msgs) * 1980000000 \<le> ns_of (clk k') - ns_of (clk k)"
  using assms(2,3)
proof (induction msgs arbitrary: buf k)
  case Nil
  then show ?case using assms(4) by (auto intro!: exI [of _ "[]"])
next
  case (Cons m msgs)
  define b1 where "b1 = overlay buf 0 m"
  define b2 where "b2 = overlay b1 (length m) [NUL]"
  have w: "and_then (mem_write buf 0 m) (\<lambda>buf. mem_write buf (int (length m)) [NUL]) = Inr b2"
    and len: "length b2 = 1024"
    using Cons.prems by (auto simp: mem_write_def b1_def b2_def)
  have c: "c_str b2 = c_str m" by (simp add: b2_def b1_def overlay_def c_str_upto)
  obtain ts k1 where 1: "work clk 20 0 k = Some (ticks 0 ts, k1)" "length ts = 20" "k \<le> k1"
    "int 20 * 99000000 \<le> ns_of (clk k1) - ns_of (clk k)" using work_done [OF assms(1)] by blast
  obtain tss k' where 2: "payment_loop clk b2 k1 (map Some msgs @ [eof]) =
      Some (Inr (concat (map (\<lambda>(m, ts). service m ts) (zip msgs tss)), Some 0, k'))"
    "length tss = length msgs" "\<forall>ts \<in> set tss. length ts = 20" "k1 \<le> k'"
    "int (length msgs) * 1980000000 \<le> ns_of (clk k') - ns_of (clk k1)"
    using Cons.IH [OF len, of k1] Cons.prems(2) by (metis list.set_intros(2))
  have "payment_loop clk buf k (map Some (m # msgs) @ [eof]) =
      Some (Inr (concat (map (\<lambda>(m, ts). service m ts) (zip (m # msgs) (ts # tss))), Some 0, k'))"
    using Cons.prems(2) 2(1) by (simp add: w 1(1) c service_def)
  then show ?case using 1 2 by (intro exI [of _ "ts # tss"] exI [of _ k']) (auto simp: algebra_simps)
qed

text \<open>
  C23: the payment process serves every request, in order and completely: it never leaves its
  buffer, and for each message prints it, does 20 work units and reports the end, then returns
  0 when the connection ends or fails. It occupies the processor for at least 1.98 seconds per
  message (20 waits, each up to a millisecond short), where its comment says 2 seconds.
\<close>

theorem payment_main_serves:
  assumes "clock_moves clk" "length buf = 1024" "\<forall>m \<in> set msgs. m \<noteq> [] \<and> length m \<le> 1023"
    "eof = None \<or> eof = Some []" "k < 20" "\<forall>j < k. link (ns j) SEM_NAME = None" "link (ns k) SEM_NAME = Some sem"
  shows "\<exists>tss k'. payment_main ns clk buf (map Some msgs @ [eof]) =
      Some (Inr (concat (map (\<lambda>(m, ts). service m ts) (zip msgs tss)), Some 0, k')) \<and>
    length tss = length msgs \<and> (\<forall>ts \<in> set tss. length ts = 20) \<and>
    int (length msgs) * 1980000000 \<le> ns_of (clk k') - ns_of (clk 0)"
proof -
  have "open_loop 20 ns 0 = Some sem" using open_loop_first [OF assms(5), of ns 0 sem] assms(6,7) by simp
  then show ?thesis
    using payment_loop_serves [OF assms(1-4), of 0] by (auto simp: payment_main_def)
qed

lemma slow_clock_moves: "clock_moves slow_clock"
proof -
  have "\<exists>k > i. 101000000 \<le> ns_of (slow_clock k) - ns_of (slow_clock i) \<and>
     ns_of (slow_clock k) - ns_of (slow_clock i) \<le> 2147483646000000" for i
    by (intro exI [of _ "i + 2"]) (simp add: ns_of_slow_clock)
  then show ?thesis by (simp add: clock_moves_def clock_mono_def ns_of_slow_clock)
qed

theorem payment_main_serves_witness:
  "\<exists>ts1 ts2 k'. payment_main (\<lambda>_. names_with 1) slow_clock (replicate 1024 NUL) [Some ''A1'', Some ''B2'', None] =
      Some (Inr (service ''A1'' ts1 @ service ''B2'' ts2, Some 0, k')) \<and> length ts1 = 20 \<and> length ts2 = 20"
proof -
  have "link (names_with 1) SEM_NAME = Some 0" by (simp add: names_with_def create_def no_names_def)
  then obtain tss k' where
    "payment_main (\<lambda>_. names_with 1) slow_clock (replicate 1024 NUL) [Some ''A1'', Some ''B2'', None] =
      Some (Inr (concat (map (\<lambda>(m, ts). service m ts) (zip [''A1'', ''B2''] tss)), Some 0, k'))"
    "length tss = 2" "\<forall>ts \<in> set tss. length ts = 20"
    using payment_main_serves [OF slow_clock_moves, of "replicate 1024 NUL" "[''A1'', ''B2'']" None 0 "\<lambda>_. names_with 1" 0]
    by auto
  moreover obtain ts1 ts2 where "tss = [ts1, ts2]"
    using \<open>length tss = 2\<close> by (auto simp: numeral_2_eq_2 length_Suc_conv)
  ultimately show ?thesis by (intro exI [of _ ts1] exI [of _ ts2] exI [of _ k']) simp
qed

section \<open>The demonstration\<close>

text \<open>Process 0 is the logger, process 1 the health checker; nobody else touches lock or log.\<close>

definition demo :: "'l \<Rightarrow> act list \<Rightarrow> act list \<Rightarrow> 'l sys" where
  "demo l as0 as1 = \<lparr>lock_of = l, shared_log = [],
     todo = (\<lambda>p. if p = 0 then as0 else if p = 1 then as1 else [])\<rparr>"

lemma demo_simps [simp]: "lock_of (demo l as0 as1) = l" "shared_log (demo l as0 as1) = []"
    "todo (demo l as0 as1) p = (if p = 0 then as0 else if p = 1 then as1 else [])"
  by (simp_all add: demo_def)

lemma reach_todo_idle:
  assumes "sys_reach acq rel s0 s" "\<forall>p \<ge> n. todo s0 p = []"
  shows "\<forall>p \<ge> n. todo s p = []"
  using assms
proof induction
  case (step s t)
  from step.hyps(2) obtain p a as where "todo s p = a # as" "todo t = (todo s)(p := as)" by cases auto
  with step.IH [OF step.prems] show ?case by (auto split: if_splits)
qed

text \<open>What the two processes may count on, for any lock operations.\<close>

definition demo_ok :: "(nat \<Rightarrow> 'l \<Rightarrow> 'l option) \<Rightarrow> (nat \<Rightarrow> 'l \<Rightarrow> 'l option) \<Rightarrow> 'l \<Rightarrow> act list \<Rightarrow> act list \<Rightarrow> bool" where
  "demo_ok acq rel l as0 as1 \<longleftrightarrow> (\<forall>s. sys_reach acq rel (demo l as0 as1) s \<longrightarrow>
     (bracketed False (todo s 0) \<or> bracketed False (todo s 1)) \<and>
     (\<exists>t. sys_reach acq rel s t \<and> todo t 0 = [] \<and> todo t 1 = []) \<and>
     (todo s 0 = [] \<and> todo s 1 = [] \<longrightarrow>
       (\<exists>bs. shared_log s = flat bs \<and> share 0 bs = sections None as0 \<and> share 1 bs = sections None as1)))"

text \<open>The semaphores of two processes that opened the name at different times.\<close>

definition own_wait :: "(nat \<Rightarrow> nat) \<Rightarrow> nat \<Rightarrow> (nat \<Rightarrow> nat) \<Rightarrow> (nat \<Rightarrow> nat) option" where
  "own_wait sem_of p vs = map_option (\<lambda>v. vs(sem_of p := v)) (pi_sem_wait p (vs (sem_of p)))"

definition own_post :: "(nat \<Rightarrow> nat) \<Rightarrow> nat \<Rightarrow> (nat \<Rightarrow> nat) \<Rightarrow> (nat \<Rightarrow> nat) option" where
  "own_post sem_of p vs = map_option (\<lambda>v. vs(sem_of p := v)) (pi_sem_post p (vs (sem_of p)))"

definition own_sem :: "nat \<Rightarrow> nat \<Rightarrow> nat \<Rightarrow> nat" where
  "own_sem logger_sem health_sem p = (if p = 0 then logger_sem else health_sem)"

lemma reach_two:
  assumes "sys_step acq rel s t" "sys_step acq rel t u"
  shows "sys_reach acq rel s u"
  using r_into_rtranclp [of "sys_step acq rel", OF assms(1)] assms(2) by (rule rtranclp.rtrancl_into_rtrancl)

context lock
begin

lemma demo_runs_ok:
  assumes "repr l None" "bracketed False as0" "bracketed False as1"
  shows "demo_ok acq rel l as0 as1"
  unfolding demo_ok_def
proof (intro allI impI conjI)
  fix s
  assume reach: "sys_reach acq rel (demo l as0 as1) s"
  have start: "repr (lock_of (demo l as0 as1)) None" "shared_log (demo l as0 as1) = []"
    "\<forall>p. bracketed False (todo (demo l as0 as1) p)" using assms by auto
  have idle: "\<forall>p \<ge> 2. todo s p = []" by (rule reach_todo_idle [OF reach]) auto
  show "bracketed False (todo s 0) \<or> bracketed False (todo s 1)"
    using mutual_exclusion [OF reach start, of 0 1] by auto
  show "\<exists>t. sys_reach acq rel s t \<and> todo t 0 = [] \<and> todo t 1 = []"
    using can_complete [OF reach start idle] by blast
  assume "todo s 0 = [] \<and> todo s 1 = []"
  then have "todo s p = []" for p
    using idle by (cases "2 \<le> p") (auto simp: not_le less_2_cases_iff)
  then obtain bs where bs: "shared_log s = flat bs" "\<forall>p. share p bs = sections None (todo (demo l as0 as1) p)"
    using whole_sections [OF reach start] by blast
  then have "share 0 bs = sections None as0" "share 1 bs = sections None as1" by simp_all
  with bs show "\<exists>bs. shared_log s = flat bs \<and> share 0 bs = sections None as0 \<and> share 1 bs = sections None as1" by blast
qed

end

text \<open>
  C3: logger and health checker on the semaphore the logger created. However the scheduler
  interleaves their steps, they are never both inside their critical sections, they never
  deadlock and can always run to their end, and the log then consists of whole critical
  sections, in which each process's entries appear completely and in its own order.
\<close>

theorem demo_semaphore:
  assumes ns: "names_inv ns" and created: "pi_sem_open_or_create (pi_sem_unlink ns SEM_NAME) SEM_NAME True 1 = (Some sem, ns')"
    and logger: "length buf0 = 256" "\<forall>t \<in> set ts. fifo_turn_ok t" "length (fifo_messages ts) < 2147483648"
    and health: "length buf1 = 128" "\<forall>(tbuf, evs) \<in> set bs. length tbuf = 19 \<and> (\<forall>ev \<in> set evs. hevent_ok ev)"
  shows "\<exists>lg h as0 as1 v. open_loop 20 (\<lambda>_. ns') 0 = Some sem \<and> obj ns' sem = Some v \<and>
    logger_loop \<lparr>log_buf = buf0, cnt = 0\<rparr> ts = Inr (as0, lg) \<and>
    health_loop \<lparr>running = False, hbuf = buf1\<rparr> bs = Inr (as1, h) \<and>
    demo_ok pi_sem_wait pi_sem_post v as0 as1"
proof -
  have l: "link (pi_sem_unlink ns SEM_NAME) SEM_NAME = None" by (simp add: pi_sem_unlink_def remove_name_def)
  have inv0: "names_inv (pi_sem_unlink ns SEM_NAME)" by (simp add: pi_sem_unlink_def names_inv_remove [OF ns])
  have "create (pi_sem_unlink ns SEM_NAME) SEM_NAME 1 = (sem, ns')"
    using created by (simp add: pi_sem_open_or_create_def sem_open_def l split: prod.splits)
  note cr = names_inv_create [OF inv0 this]
  have op: "open_loop 20 (\<lambda>_. ns') 0 = Some sem"
    using open_loop_first [of 0 20 "\<lambda>_. ns'" 0 sem] cr by simp
  obtain as0 lg where 0: "logger_loop \<lparr>log_buf = buf0, cnt = 0\<rparr> ts = Inr (as0, lg)" "bracketed False as0"
    using logger_loop_logs [of "\<lparr>log_buf = buf0, cnt = 0\<rparr>" ts] logger by auto
  obtain as1 h where 1: "health_loop \<lparr>running = False, hbuf = buf1\<rparr> bs = Inr (as1, h)" "bracketed False as1"
    using health_loop_ok [of "\<lparr>running = False, hbuf = buf1\<rparr>" bs] health by auto
  have "demo_ok pi_sem_wait pi_sem_post 1 as0 as1"
    using 0 1 by (intro sem.demo_runs_ok) (simp_all add: sem_repr_def)
  with op cr 0 1 show ?thesis by blast
qed

theorem demo_semaphore_witness:
  "\<exists>lg h as0 as1. logger_loop \<lparr>log_buf = replicate 256 NUL, cnt = 0\<rparr> two_turns = Inr (as0, lg) \<and>
    health_loop \<lparr>running = False, hbuf = replicate 128 NUL\<rparr> three_batches = Inr (as1, h) \<and>
    demo_ok pi_sem_wait pi_sem_post 1 as0 as1"
proof -
  have cr: "pi_sem_open_or_create (pi_sem_unlink no_names SEM_NAME) SEM_NAME True 1 = (Some 0, names_with 1)"
    by (simp add: pi_sem_open_or_create_def sem_open_def pi_sem_unlink_def remove_name_def no_names_def
        names_with_def create_def)
  have b: "\<forall>(tbuf, evs) \<in> set three_batches. length tbuf = 19 \<and> (\<forall>ev \<in> set evs. hevent_ok ev)"
    by (simp add: three_batches_def hevent_ok_def)
  have "obj (names_with 1) 0 = Some 1" by (simp add: names_with_def create_def no_names_def)
  with demo_semaphore [OF names_inv_no_names cr length_replicate two_turns_ok length_replicate b]
  show ?thesis by auto
qed

text \<open>
  C4: the same with the priority-inheriting mutex: the health checker opens the mutex that the
  logger created and initialised, and mutual exclusion, completion and whole critical
  sections hold on it.
\<close>

theorem demo_mutex:
  assumes ns: "names_inv ns" and created: "pi_mutex_open_or_create True (pi_mutex_unlink ns SEM_NAME) SEM_NAME = (Some i, ns')"
    and logger: "length buf0 = 256" "\<forall>t \<in> set ts. fifo_turn_ok t" "length (fifo_messages ts) < 2147483648"
    and health: "length buf1 = 128" "\<forall>(tbuf, evs) \<in> set bs. length tbuf = 19 \<and> (\<forall>ev \<in> set evs. hevent_ok ev)"
  shows "\<exists>lg h as0 as1 m. pi_mutex_open_or_create True ns' SEM_NAME = (Some i, ns') \<and>
    obj ns' i = Some (Mutex m) \<and> proto m = PRIO_INHERIT \<and>
    logger_loop \<lparr>log_buf = buf0, cnt = 0\<rparr> ts = Inr (as0, lg) \<and>
    health_loop \<lparr>running = False, hbuf = buf1\<rparr> bs = Inr (as1, h) \<and>
    demo_ok pi_mutex_wait pi_mutex_post m as0 as1"
proof -
  have l: "link (pi_mutex_unlink ns SEM_NAME) SEM_NAME = None" by (simp add: pi_mutex_unlink_def remove_name_def)
  have op: "pi_mutex_open_or_create True ns' SEM_NAME = (Some i, ns')" "obj ns' i = Some (Mutex pi_sem_init)"
    using created by (auto simp: pi_mutex_open_or_create_def l create_def Let_def)
  obtain as0 lg where 0: "logger_loop \<lparr>log_buf = buf0, cnt = 0\<rparr> ts = Inr (as0, lg)" "bracketed False as0"
    using logger_loop_logs [of "\<lparr>log_buf = buf0, cnt = 0\<rparr>" ts] logger by auto
  obtain as1 h where 1: "health_loop \<lparr>running = False, hbuf = buf1\<rparr> bs = Inr (as1, h)" "bracketed False as1"
    using health_loop_ok [of "\<lparr>running = False, hbuf = buf1\<rparr>" bs] health by auto
  have "demo_ok pi_mutex_wait pi_mutex_post pi_sem_init as0 as1"
    using 0 1 by (intro pi.demo_runs_ok) (simp_all add: mutex_repr_def pi_sem_init_def)
  moreover have "proto pi_sem_init = PRIO_INHERIT" by (simp add: pi_sem_init_def)
  ultimately show ?thesis using op 0 1 by blast
qed

theorem demo_mutex_witness:
  "\<exists>lg h as0 as1 m. logger_loop \<lparr>log_buf = replicate 256 NUL, cnt = 0\<rparr> two_turns = Inr (as0, lg) \<and>
    health_loop \<lparr>running = False, hbuf = replicate 128 NUL\<rparr> three_batches = Inr (as1, h) \<and>
    demo_ok pi_mutex_wait pi_mutex_post m as0 as1"
proof -
  obtain ns' where cr: "pi_mutex_open_or_create True (pi_mutex_unlink no_names SEM_NAME) SEM_NAME = (Some 0, ns')"
    by (simp add: pi_mutex_open_or_create_def pi_mutex_unlink_def remove_name_def no_names_def create_def Let_def)
  have b: "\<forall>(tbuf, evs) \<in> set three_batches. length tbuf = 19 \<and> (\<forall>ev \<in> set evs. hevent_ok ev)"
    by (simp add: three_batches_def hevent_ok_def)
  from demo_mutex [OF names_inv_no_names cr length_replicate two_turns_ok length_replicate b]
  show ?thesis by blast
qed

text \<open>
  The guarantee depends on the order of start. A semaphore that an earlier run left behind
  is opened by a health checker that starts before the logger; the logger then removes the
  name and creates another semaphore, and both processes can be in their critical sections
  at the same time.
\<close>

lemma stale_semaphore:
  assumes ns: "names_inv ns" and stale: "link ns SEM_NAME = Some old" "obj ns old = Some 1"
    and created: "pi_sem_open_or_create (pi_sem_unlink ns SEM_NAME) SEM_NAME True 1 = (Some sem, ns')"
  shows "open_loop 20 (\<lambda>_. ns) 0 = Some old \<and> old \<noteq> sem \<and>
    (\<exists>s. sys_reach (own_wait (own_sem sem old)) (own_post (own_sem sem old))
          (demo (\<lambda>i. the (obj ns' i)) (SemWait # as0) (SemWait # as1)) s \<and>
        todo s 0 = as0 \<and> todo s 1 = as1)"
proof -
  have l: "link (pi_sem_unlink ns SEM_NAME) SEM_NAME = None" by (simp add: pi_sem_unlink_def remove_name_def)
  have cr: "create (pi_sem_unlink ns SEM_NAME) SEM_NAME 1 = (sem, ns')"
    using created by (simp add: pi_sem_open_or_create_def sem_open_def l split: prod.splits)
  have "old < fresh_id ns" using ns stale(2) unfolding names_inv_def by blast
  then have ids: "old \<noteq> sem" "obj ns' sem = Some 1" "obj ns' old = Some 1"
    using cr stale(2) by (auto simp: create_def pi_sem_unlink_def remove_name_def)
  define s0 where "s0 = demo (\<lambda>i. the (obj ns' i)) (SemWait # as0) (SemWait # as1)"
  define s1 where "s1 = advance 0 as0 (s0\<lparr>lock_of := (lock_of s0)(sem := 0)\<rparr>)"
  define s2 where "s2 = advance 1 as1 (s1\<lparr>lock_of := (lock_of s1)(old := 0)\<rparr>)"
  have st1: "sys_step (own_wait (own_sem sem old)) (own_post (own_sem sem old)) s0 s1" unfolding s1_def
    by (rule sys_step.wait) (simp_all add: s0_def own_wait_def pi_sem_wait_def own_sem_def ids)
  have st2: "sys_step (own_wait (own_sem sem old)) (own_post (own_sem sem old)) s1 s2" unfolding s2_def
    by (rule sys_step.wait) (simp_all add: s0_def s1_def own_wait_def pi_sem_wait_def own_sem_def ids)
  have "sys_reach (own_wait (own_sem sem old)) (own_post (own_sem sem old)) s0 s2"
    using st1 st2 by (rule reach_two)
  moreover have "todo s2 0 = as0" "todo s2 1 = as1" by (simp_all add: s2_def s1_def)
  moreover have "open_loop 20 (\<lambda>_. ns) 0 = Some old"
    using open_loop_first [of 0 20 "\<lambda>_. ns" 0 old] stale(1) by simp
  ultimately show ?thesis using ids(1) unfolding s0_def by blast
qed

lemma stale_semaphore_example:
  "\<exists>(ns' :: nat names) s. open_loop 20 (\<lambda>_. names_with 1) 0 = Some 0 \<and>
     sys_reach (own_wait (own_sem 1 0)) (own_post (own_sem 1 0))
       (demo (\<lambda>i. the (obj ns' i)) [SemWait, Append ''a'', SemPost] [SemWait, Append ''b'', SemPost]) s \<and>
     todo s 0 = [Append ''a'', SemPost] \<and> todo s 1 = [Append ''b'', SemPost]"
proof -
  have n: "names_inv (names_with 1)" "link (names_with 1) SEM_NAME = Some 0" "obj (names_with 1) 0 = Some 1"
    using names_inv_create [OF names_inv_no_names, of SEM_NAME 1 0 "names_with 1"]
    by (simp_all add: names_with_def create_def no_names_def)
  obtain ns' where "pi_sem_open_or_create (pi_sem_unlink (names_with 1) SEM_NAME) SEM_NAME True 1 = (Some 1, ns')"
    by (simp add: pi_sem_open_or_create_def sem_open_def pi_sem_unlink_def remove_name_def names_with_def create_def no_names_def)
  note st = stale_semaphore [OF n this, of "[Append ''a'', SemPost]" "[Append ''b'', SemPost]"]
  then obtain s where "sys_reach (own_wait (own_sem 1 0)) (own_post (own_sem 1 0))
       (demo (\<lambda>i. the (obj ns' i)) [SemWait, Append ''a'', SemPost] [SemWait, Append ''b'', SemPost]) s"
     "todo s 0 = [Append ''a'', SemPost]" "todo s 1 = [Append ''b'', SemPost]" by (elim conjE exE) simp
  with st show ?thesis
    by (intro exI [of _ ns'] exI [of _ s]) simp
qed

end
