(* ===== verification/EpollServer.thy ===== *)
theory EpollServer
  imports Prelude
begin

text \<open>
  The front end of the payment demonstration, \<open>C/epoll_server.c\<close>: an \<open>epoll\<close> loop that accepts
  clients and dispatches on the first byte of what they send. An input is one event with the
  result of the \<open>accept\<close> or \<open>read\<close> it leads to; the output is the list of system calls made.
\<close>

section \<open>The event loop\<close>

datatype sys_call = EpollAdd int | EpollDel int | Close int | Dprintf int string | WriteFd int "char list"

datatype server_event = OnListen int | OnClient int "char list option"

record server =
  listenfd :: int
  payment_fd :: int
  watched :: "int list"

definition logger_fd :: int where "logger_fd = 1"
definition health_fd :: int where "health_fd = 1"

text \<open>A string literal as \<open>write\<close> sees it: \<open>n\<close> bytes from its start, terminator included.\<close>

definition lit :: "string \<Rightarrow> nat \<Rightarrow> char list" where
  "lit s n = take n (s @ [NUL])"

text \<open>\<open>%.*s\<close> with precision \<open>n\<close>.\<close>

definition prec_s :: "nat \<Rightarrow> char list \<Rightarrow> string" where
  "prec_s n bs = c_str (take n bs)"

definition dispatch :: "server \<Rightarrow> int \<Rightarrow> int \<Rightarrow> char list \<Rightarrow> sys_call list res" where
  "dispatch sv fd n buf =
     and_then (mem_read buf 0 1) (\<lambda>cmd.
     and_then (mem_read buf 1 (n - 1)) (\<lambda>rest.
     Inr (if cmd = ''P'' then
            [Dprintf logger_fd (''PAYING '' @ prec_s (nat (n - 1)) rest),
             WriteFd (payment_fd sv) rest,
             WriteFd fd (lit (''ACK payment'' @ [NL]) 13)]
          else if cmd = ''L'' then
            [Dprintf logger_fd (''LOGGING '' @ prec_s (nat (n - 1)) rest),
             WriteFd fd (lit (''ACK: logger'' @ [NL]) 12)]
          else if cmd = ''H'' then
            [WriteFd health_fd rest,
             WriteFd fd (lit (''ACK: health'' @ [NL]) 12)]
          else [WriteFd fd (lit (''ERR: unknown'' @ [NL]) 13)])))"

text \<open>\<open>EPOLL_CTL_ADD\<close> of a negative or already registered descriptor fails and changes nothing.\<close>

definition epoll_add :: "server \<Rightarrow> int \<Rightarrow> server" where
  "epoll_add sv fd = (if fd < 0 \<or> fd \<in> set (watched sv) then sv else sv\<lparr>watched := fd # watched sv\<rparr>)"

definition epoll_del :: "server \<Rightarrow> int \<Rightarrow> server" where
  "epoll_del sv fd = sv\<lparr>watched := removeAll fd (watched sv)\<rparr>"

fun handle_event :: "server \<Rightarrow> server_event \<Rightarrow> (sys_call list \<times> server) res" where
  "handle_event sv (OnListen connfd) =
     Inr ([EpollAdd connfd, Dprintf logger_fd (''New client connected'' @ [NL])], epoll_add sv connfd)"
| "handle_event sv (OnClient fd got) =
     (case got of
        None \<Rightarrow> Inr ([EpollDel fd, Close fd, Dprintf logger_fd (''Client disconnected'' @ [NL])], epoll_del sv fd)
      | Some bs \<Rightarrow>
          if bs = [] then Inr ([EpollDel fd, Close fd, Dprintf logger_fd (''Client disconnected'' @ [NL])], epoll_del sv fd)
          else and_then (mem_write (replicate 1024 NUL) 0 bs) (\<lambda>buf.
               and_then (dispatch sv fd (int (length bs)) buf) (\<lambda>cs. Inr (cs, sv))))"

fun server_loop :: "server \<Rightarrow> server_event list \<Rightarrow> (sys_call list \<times> server) res" where
  "server_loop sv [] = Inr ([], sv)"
| "server_loop sv (ev # evs) =
     and_then (handle_event sv ev) (\<lambda>(cs, sv).
     and_then (server_loop sv evs) (\<lambda>(ds, sv). Inr (cs @ ds, sv)))"

text \<open>\<open>main\<close>: a failing connection to the payment process is \<open>exit(1)\<close>.\<close>

definition server_main :: "bool \<Rightarrow> int \<Rightarrow> int \<Rightarrow> server_event list \<Rightarrow> (int option \<times> sys_call list \<times> server) res" where
  "server_main connected pfd lfd evs =
     (let sv = \<lparr>listenfd = lfd, payment_fd = pfd, watched = []\<rparr> in
      if \<not> connected then Inr (Some 1, [], sv)
      else and_then (server_loop (epoll_add sv lfd) evs) (\<lambda>(cs, sv). Inr (None, EpollAdd lfd # cs, sv)))"

section \<open>Descriptors\<close>

text \<open>
  What the kernel delivers: \<open>accept\<close> fails or returns a descriptor that is not open (here:
  none of the server's own and none it watches), events come for watched descriptors, and a
  \<open>read\<close> returns at most the 1024 bytes asked for.
\<close>

fun event_ok :: "server \<Rightarrow> server_event \<Rightarrow> bool" where
  "event_ok sv (OnListen c) \<longleftrightarrow> c < 0 \<or> 2 < c \<and> c \<noteq> payment_fd sv \<and> c \<noteq> listenfd sv \<and> c \<notin> set (watched sv)"
| "event_ok sv (OnClient fd got) \<longleftrightarrow> fd \<in> set (watched sv) \<and> fd \<noteq> listenfd sv \<and>
     (case got of None \<Rightarrow> True | Some bs \<Rightarrow> length bs \<le> 1024)"

fun events_ok :: "server \<Rightarrow> server_event list \<Rightarrow> bool" where
  "events_ok sv [] \<longleftrightarrow> True"
| "events_ok sv (ev # evs) \<longleftrightarrow> event_ok sv ev \<and>
     (case handle_event sv ev of Inl _ \<Rightarrow> True | Inr (_, sv') \<Rightarrow> events_ok sv' evs)"

text \<open>
  The kernel's view of the server's calls: the client descriptors that are open. Accepting
  opens; closing, deregistering or writing to a client that is not open is refused.
\<close>

fun fd_replay :: "int set \<Rightarrow> int set \<Rightarrow> sys_call list \<Rightarrow> int set option" where
  "fd_replay own open_fds [] = Some open_fds"
| "fd_replay own open_fds (c # cs) = (case c of
     EpollAdd fd \<Rightarrow> if fd < 0 then fd_replay own open_fds cs
       else if fd \<in> open_fds then None else fd_replay own (insert fd open_fds) cs
   | EpollDel fd \<Rightarrow> if fd \<in> open_fds then fd_replay own open_fds cs else None
   | Close fd \<Rightarrow> if fd \<in> open_fds then fd_replay own (open_fds - {fd}) cs else None
   | Dprintf fd s \<Rightarrow> if fd \<in> own then fd_replay own open_fds cs else None
   | WriteFd fd bs \<Rightarrow> if fd \<in> own \<union> open_fds then fd_replay own open_fds cs else None)"

lemma fd_replay_append:
  "fd_replay own fds (xs @ ys) = (case fd_replay own fds xs of None \<Rightarrow> None | Some fds' \<Rightarrow> fd_replay own fds' ys)"
  by (induction own fds xs rule: fd_replay.induct) (auto split: sys_call.splits)

definition server_inv :: "server \<Rightarrow> bool" where
  "server_inv sv \<longleftrightarrow> distinct (watched sv) \<and> listenfd sv \<in> set (watched sv) \<and> 2 < payment_fd sv \<and>
     payment_fd sv \<notin> set (watched sv) \<and> (\<forall>fd \<in> set (watched sv). 2 < fd)"

definition clients :: "server \<Rightarrow> int set" where
  "clients sv = set (watched sv) - {listenfd sv}"

definition own_fds :: "server \<Rightarrow> int set" where
  "own_fds sv = {0, 1, 2, payment_fd sv, listenfd sv}"

section \<open>Replies\<close>

definition reply_to :: "char list \<Rightarrow> char list" where
  "reply_to bs = (case hd bs of c \<Rightarrow>
     if c = CHR ''P'' then ''ACK payment'' @ [NL, NUL]
     else if c = CHR ''L'' then ''ACK: logger'' @ [NL]
     else if c = CHR ''H'' then ''ACK: health'' @ [NL]
     else ''ERR: unknown'' @ [NL])"

definition sent_to :: "int \<Rightarrow> sys_call list \<Rightarrow> char list list" where
  "sent_to fd cs = concat (map (\<lambda>c. case c of WriteFd fd' bs \<Rightarrow> if fd' = fd then [bs] else [] | _ \<Rightarrow> []) cs)"

definition requests :: "int \<Rightarrow> server_event list \<Rightarrow> char list list" where
  "requests fd evs = concat (map (\<lambda>ev. case ev of OnListen _ \<Rightarrow> []
     | OnClient fd' got \<Rightarrow> if fd' = fd then (case got of None \<Rightarrow> [] | Some bs \<Rightarrow> if bs = [] then [] else [bs]) else []) evs)"

definition payments :: "server_event list \<Rightarrow> char list list" where
  "payments evs = concat (map (\<lambda>ev. case ev of OnListen _ \<Rightarrow> []
     | OnClient fd' None \<Rightarrow> [] | OnClient fd' (Some bs) \<Rightarrow> if bs \<noteq> [] \<and> hd bs = CHR ''P'' then [tl bs] else []) evs)"

lemma sent_to_append: "sent_to fd (xs @ ys) = sent_to fd xs @ sent_to fd ys"
  by (simp add: sent_to_def)

lemma requests_Cons: "requests fd (ev # evs) = requests fd [ev] @ requests fd evs"
  "payments (ev # evs) = payments [ev] @ payments evs"
  by (simp_all add: requests_def payments_def)

lemma dispatch_ok:
  assumes "bs \<noteq> []" "length bs \<le> 1024"
  shows "\<exists>cs. and_then (mem_write (replicate 1024 NUL) 0 bs) (dispatch sv fd (int (length bs))) = Inr cs \<and>
    (\<exists>own. (\<forall>c \<in> set own. case c of Dprintf f s \<Rightarrow> f = 1 | WriteFd f s \<Rightarrow> f = 1 | _ \<Rightarrow> False) \<and>
      cs = own @ (if hd bs = CHR ''P'' then [WriteFd (payment_fd sv) (tl bs)] else []) @ [WriteFd fd (reply_to bs)])"
proof -
  obtain c cs where bs: "bs = c # cs" using assms(1) by (cases bs) auto
  define buf where "buf = overlay (replicate 1024 NUL) 0 bs"
  have w: "mem_write (replicate 1024 NUL) 0 bs = Inr buf" and len: "length buf = 1024"
    using assms(2) by (simp_all add: mem_write_def buf_def)
  have buf: "buf = c # cs @ replicate (1024 - length bs) NUL" by (simp add: buf_def overlay_def bs)
  have "mem_read buf 0 1 = Inr [c]" using len by (simp add: mem_read_def) (simp add: buf)
  moreover have "mem_read buf 1 (int (length bs) - 1) = Inr cs"
    using len assms(2) by (simp add: mem_read_def bs) (simp add: buf)
  ultimately have d: "dispatch sv fd (int (length bs)) buf =
      Inr (if [c] = ''P'' then [Dprintf 1 (''PAYING '' @ prec_s (length cs) cs), WriteFd (payment_fd sv) cs, WriteFd fd (reply_to bs)]
       else if [c] = ''L'' then [Dprintf 1 (''LOGGING '' @ prec_s (length cs) cs), WriteFd fd (reply_to bs)]
       else if [c] = ''H'' then [WriteFd 1 cs, WriteFd fd (reply_to bs)]
       else [WriteFd fd (reply_to bs)])"
    by (simp add: dispatch_def bs reply_to_def lit_def logger_fd_def health_fd_def)
  have h: "hd bs = c" "tl bs = cs" by (simp_all add: bs)
  define own where "own = (if c = CHR ''P'' then [Dprintf 1 (''PAYING '' @ prec_s (length cs) cs)]
    else if c = CHR ''L'' then [Dprintf 1 (''LOGGING '' @ prec_s (length cs) cs)]
    else if c = CHR ''H'' then [WriteFd 1 cs] else [])"
  show ?thesis unfolding w d h and_then_simps
    by (intro exI [of _ own] exI conjI, rule refl) (auto simp: own_def d)
qed

text \<open>What one event does, to the descriptors and to the peers.\<close>

definition step_ok :: "server \<Rightarrow> server_event list \<Rightarrow> sys_call list \<Rightarrow> server \<Rightarrow> bool" where
  "step_ok sv evs cs sv' \<longleftrightarrow> server_inv sv' \<and> listenfd sv' = listenfd sv \<and> payment_fd sv' = payment_fd sv \<and>
     fd_replay (own_fds sv) (clients sv) cs = Some (clients sv') \<and>
     sent_to (payment_fd sv) cs = payments evs \<and>
     (\<forall>fd. 2 < fd \<and> fd \<noteq> payment_fd sv \<longrightarrow> sent_to fd cs = map reply_to (requests fd evs))"

lemma own_replay:
  assumes "\<forall>c \<in> set own. case c of Dprintf f s \<Rightarrow> f = 1 | WriteFd f s \<Rightarrow> f = 1 | _ \<Rightarrow> False" "1 \<in> o_fds"
  shows "fd_replay o_fds fds own = Some fds" "2 < fd \<Longrightarrow> sent_to fd own = []"
  using assms by (induction own) (auto simp: sent_to_def split: sys_call.splits)

lemma close_ok:
  assumes inv: "server_inv sv" and ev: "fd \<in> set (watched sv)" "fd \<noteq> listenfd sv"
    and none: "\<And>f. requests f [OnClient fd got] = []" "payments [OnClient fd got] = []"
  shows "step_ok sv [OnClient fd got] [EpollDel fd, Close fd, Dprintf logger_fd (''Client disconnected'' @ [NL])] (epoll_del sv fd)"
proof -
  have "clients (epoll_del sv fd) = clients sv - {fd}" "fd \<in> clients sv"
    using ev by (auto simp: clients_def epoll_del_def)
  moreover have "server_inv (epoll_del sv fd)" using inv ev(2) by (auto simp: server_inv_def epoll_del_def distinct_removeAll)
  ultimately show ?thesis using none
    by (simp add: step_ok_def epoll_del_def own_fds_def logger_fd_def sent_to_def)
qed

lemma handle_event_ok:
  assumes inv: "server_inv sv" and ev: "event_ok sv ev"
  shows "\<exists>cs sv'. handle_event sv ev = Inr (cs, sv') \<and> step_ok sv [ev] cs sv'"
proof (cases ev)
  case (OnListen c)
  show ?thesis
  proof (cases "c < 0")
    case True
    then show ?thesis using inv
      by (simp add: OnListen epoll_add_def step_ok_def own_fds_def logger_fd_def sent_to_def payments_def requests_def)
  next
    case False
    then have c: "2 < c" "c \<noteq> payment_fd sv" "c \<noteq> listenfd sv" "c \<notin> set (watched sv)" using ev OnListen by auto
    have "clients (epoll_add sv c) = insert c (clients sv)" "c \<notin> clients sv"
      using c False by (auto simp: clients_def epoll_add_def)
    moreover have "server_inv (epoll_add sv c)" using inv c by (auto simp: server_inv_def epoll_add_def)
    ultimately show ?thesis using False c
      by (simp add: OnListen step_ok_def epoll_add_def own_fds_def logger_fd_def sent_to_def payments_def requests_def)
  qed
next
  case (OnClient fd got)
  have fd: "fd \<in> set (watched sv)" "fd \<noteq> listenfd sv" using ev OnClient by auto
  have w: "2 < fd" "fd \<noteq> payment_fd sv" "fd \<in> clients sv" "2 < payment_fd sv"
    using inv fd by (auto simp: server_inv_def clients_def)
  consider "got = None \<or> got = Some []" | bs where "got = Some bs" "bs \<noteq> []" by (cases got) auto
  then show ?thesis
  proof cases
    case 1
    then have "handle_event sv ev = Inr ([EpollDel fd, Close fd, Dprintf logger_fd (''Client disconnected'' @ [NL])], epoll_del sv fd)"
      by (auto simp: OnClient)
    moreover have "requests f [OnClient fd got] = []" "payments [OnClient fd got] = []" for f
      using 1 by (auto simp: requests_def payments_def)
    ultimately show ?thesis using close_ok [OF inv fd] by (auto simp: OnClient)
  next
    case 2
    have "length bs \<le> 1024" using ev OnClient 2 by simp
    from dispatch_ok [OF 2(2) this, of sv fd] obtain cs own where
      d: "and_then (mem_write (replicate 1024 NUL) 0 bs) (dispatch sv fd (int (length bs))) = Inr cs"
      and own: "\<forall>c \<in> set own. case c of Dprintf f s \<Rightarrow> f = 1 | WriteFd f s \<Rightarrow> f = 1 | _ \<Rightarrow> False"
      and cs: "cs = own @ (if hd bs = CHR ''P'' then [WriteFd (payment_fd sv) (tl bs)] else []) @ [WriteFd fd (reply_to bs)]"
      by blast
    have h: "handle_event sv ev = Inr (cs, sv)"
      using d 2 by (simp add: OnClient) (cases "mem_write (replicate 1024 NUL) 0 bs"; simp)
    note o = own_replay [OF own, of "own_fds sv"]
    have "fd_replay (own_fds sv) (clients sv) cs = Some (clients sv)"
      using o(1) w(3) by (simp add: cs fd_replay_append) (simp add: own_fds_def)
    moreover have "sent_to (payment_fd sv) cs = payments [ev]"
      using o(2) [of "payment_fd sv"] w 2
      by (simp add: cs sent_to_append OnClient) (simp add: sent_to_def payments_def own_fds_def)
    moreover have "sent_to f cs = map reply_to (requests f [ev])" if "2 < f" "f \<noteq> payment_fd sv" for f
      using o(2) [of f] that 2
      by (simp add: cs sent_to_append OnClient) (simp add: sent_to_def requests_def own_fds_def)
    ultimately show ?thesis using h inv by (auto simp: step_ok_def)
  qed
qed

lemma server_loop_ok:
  assumes "server_inv sv" "events_ok sv evs"
  shows "\<exists>cs sv'. server_loop sv evs = Inr (cs, sv') \<and> step_ok sv evs cs sv'"
  using assms
proof (induction evs arbitrary: sv)
  case Nil
  then show ?case by (simp add: step_ok_def sent_to_def payments_def requests_def)
next
  case (Cons ev evs)
  obtain cs sv1 where 1: "handle_event sv ev = Inr (cs, sv1)" "step_ok sv [ev] cs sv1"
    using handle_event_ok [OF Cons.prems(1), of ev] Cons.prems(2) by (auto simp del: handle_event.simps)
  obtain ds sv2 where 2: "server_loop sv1 evs = Inr (ds, sv2)" "step_ok sv1 evs ds sv2"
    using Cons.IH [of sv1] 1 Cons.prems(2) by (auto simp: step_ok_def)
  have "own_fds sv1 = own_fds sv" using 1(2) by (simp add: step_ok_def own_fds_def)
  then have "step_ok sv (ev # evs) (cs @ ds) sv2"
    using 1(2) 2(2) by (simp add: step_ok_def fd_replay_append sent_to_append requests_Cons(1) [of _ ev evs] requests_Cons(2) [of ev evs])
  with 1 2 show ?case by simp
qed



end
