(* ===== verification/IrqModules.thy ===== *)
theory IrqModules
  imports KModule
begin

text \<open>
  The interrupt and timer modules \<open>modules/sysfs.c\<close>, \<open>modules/irqnet.c\<close>,
  \<open>modules/vint_net.c\<close> and \<open>modules/hrtimer.c\<close>: their handlers, and their life cycles as
  interpretations of \<open>kernel_module\<close>. The functions carry the module's name as a prefix where
  the sources use the same name (\<open>my_init\<close>, \<open>my_exit\<close>).
\<close>

section \<open>Threaded interrupts\<close>

datatype irqreturn = IRQ_NONE | IRQ_HANDLED | IRQ_WAKE_THREAD

text \<open>
  What the interrupt core does with the hard handler's result (\<open>request_threaded_irq\<close>): it
  runs the thread handler exactly when asked to.
\<close>

definition irq_core :: "('s \<Rightarrow> irqreturn \<times> 's) \<Rightarrow> ('s \<Rightarrow> irqreturn \<times> 's) \<Rightarrow> 's \<Rightarrow> irqreturn list \<times> 's" where
  "irq_core hard thread s =
     (let (r, s) = hard s in
      if r = IRQ_WAKE_THREAD then let (t, s) = thread s in ([r, t], s) else ([r], s))"

section \<open>sysfs.c\<close>

text \<open>The state counts how often each half was called.\<close>

record halves =
  top_calls :: nat
  bottom_calls :: nat

definition sysfs_hardirq_handler :: "halves \<Rightarrow> irqreturn \<times> halves" where
  "sysfs_hardirq_handler s = (IRQ_WAKE_THREAD, s\<lparr>top_calls := Suc (top_calls s)\<rparr>)"

definition sysfs_thread_handler :: "halves \<Rightarrow> irqreturn \<times> halves" where
  "sysfs_thread_handler s = (IRQ_HANDLED, s\<lparr>bottom_calls := Suc (bottom_calls s)\<rparr>)"

text \<open>A store calls the hard handler as a plain function and drops its result.\<close>

definition trigger_store :: "halves \<Rightarrow> char list \<Rightarrow> int \<times> halves" where
  "trigger_store s buf = (let (_, s) = sysfs_hardirq_handler s in (int (length buf), s))"

record sysfs_env =
  request_threaded_irq :: int
  root_device_register :: kptr
  device_create_file :: int

definition sysfs_env_doc :: "sysfs_env \<Rightarrow> bool" where
  "sysfs_env_doc e \<longleftrightarrow> kptr_doc (root_device_register e)"

definition irq_number :: int where "irq_number = 16"

definition sysfs_init :: "sysfs_env \<Rightarrow> int \<times> kcall list" where
  "sysfs_init e =
     (if request_threaded_irq e \<noteq> 0 then (request_threaded_irq e, [])
      else let c = [Acq (KIrq irq_number)] in
      if IS_ERR (root_device_register e)
      then (PTR_ERR (root_device_register e), c @ [Rel (KIrq irq_number)])
      else let c = c @ [Acq KRootDevice] in
      if device_create_file e \<noteq> 0
      then (device_create_file e, c @ [Rel KRootDevice, Rel (KIrq irq_number)])
      else (0, c @ [Acq KDevFile]))"

definition sysfs_exit :: "kcall list" where
  "sysfs_exit = [Rel KDevFile, Rel KRootDevice, Rel (KIrq irq_number)]"

interpretation sysfs: kernel_module sysfs_init "\<lambda>_. sysfs_exit" sysfs_env_doc
proof unfold_locales
  fix e h
  show "replay (snd (sysfs_init e)) h = Some h" if "fst (sysfs_init e) \<noteq> 0"
    using that by (auto simp: sysfs_init_def Let_def split: if_splits)
  show "replay (snd (sysfs_init e) @ sysfs_exit) h = Some h" if doc: "sysfs_env_doc e" and ok: "fst (sysfs_init e) = 0"
  proof -
    have "PTR_ERR (root_device_register e) \<noteq> 0" if "IS_ERR (root_device_register e)"
      using IS_ERR_E [OF that] doc by (simp add: sysfs_env_doc_def)
    then show ?thesis using ok by (auto simp: sysfs_init_def sysfs_exit_def Let_def split: if_splits)
  qed
qed

section \<open>irqnet.c and vint_net.c\<close>

text \<open>The state is \<open>int_count\<close>.\<close>

definition my_shared_irq_handler :: "int \<Rightarrow> irqreturn \<times> int" where
  "my_shared_irq_handler int_count = (IRQ_WAKE_THREAD, s32 (int_count + 1))"

definition irqnet_thread_handler :: "int \<Rightarrow> irqreturn \<times> int" where
  "irqnet_thread_handler int_count = (IRQ_NONE, int_count)"

definition irqnet_init :: "int \<Rightarrow> int \<times> kcall list" where
  "irqnet_init request_ret = (if request_ret \<noteq> 0 then (request_ret, []) else (0, [Acq (KIrq 14)]))"

definition irqnet_exit :: "kcall list" where "irqnet_exit = [Rel (KIrq 14)]"

interpretation irqnet: kernel_module irqnet_init "\<lambda>_. irqnet_exit" "\<lambda>_. True"
  by unfold_locales (auto simp: irqnet_init_def irqnet_exit_def split: if_splits)

text \<open>
  A shared interrupt line: the core calls the handlers of every owner, and the line counts as
  served when one of them does not answer \<open>IRQ_NONE\<close>.
\<close>

definition line_claimed :: "irqreturn list \<Rightarrow> bool" where
  "line_claimed rs \<longleftrightarrow> (\<exists>r \<in> set rs. r \<noteq> IRQ_NONE)"

text \<open>
  Whichever registration fails, loading and unloading each of the two modules any number
  of times releases exactly what was acquired, newest first.
\<close>

lemma irq_cycles_balanced:
  assumes "\<forall>e \<in> set es. sysfs_env_doc e"
  shows "replay (cycles sysfs_init (\<lambda>_. sysfs_exit) es) [] = Some [] \<and>
    replay (cycles irqnet_init (\<lambda>_. irqnet_exit) rets) [] = Some []"
proof
  show "replay (cycles sysfs_init (\<lambda>_. sysfs_exit) es) [] = Some []"
    using assms by (intro sysfs.cycles_balanced) blast
  show "replay (cycles irqnet_init (\<lambda>_. irqnet_exit) rets) [] = Some []"
    by (rule irqnet.cycles_balanced) simp
qed

definition sysfs_fail_file :: sysfs_env where
  "sysfs_fail_file = \<lparr>request_threaded_irq = 0, root_device_register = Ptr, device_create_file = - ENOMEM\<rparr>"

lemma irq_cycles_balanced_example:
  "replay (cycles sysfs_init (\<lambda>_. sysfs_exit) [sysfs_fail_file, sysfs_fail_file\<lparr>device_create_file := 0\<rparr>]) [] = Some [] \<and>
   fst (sysfs_init sysfs_fail_file) = - 12"
  using irq_cycles_balanced [of "[sysfs_fail_file, sysfs_fail_file\<lparr>device_create_file := 0\<rparr>]" "[0]"]
  by (simp add: sysfs_env_doc_def sysfs_fail_file_def sysfs_init_def Let_def ENOMEM_def)

text \<open>
  A real interrupt of \<open>sysfs.c\<close> runs both halves, but a store to its trigger file, which is
  there to exercise the interrupt by hand, runs the top half only: the request to wake the
  thread is lost. The network monitor counts every interrupt of the shared line, and claims
  each as its own although its comment offers \<open>IRQ_NONE\<close> to leave it to the real driver.
\<close>

lemma irq_halves:
  "irq_core sysfs_hardirq_handler sysfs_thread_handler s =
     ([IRQ_WAKE_THREAD, IRQ_HANDLED], s\<lparr>top_calls := Suc (top_calls s), bottom_calls := Suc (bottom_calls s)\<rparr>) \<and>
   fold (\<lambda>buf s. snd (trigger_store s buf)) bufs s = s\<lparr>top_calls := top_calls s + length bufs\<rparr> \<and>
   ((\<lambda>k. snd (irq_core my_shared_irq_handler irqnet_thread_handler k)) ^^ n) 0 = s32 (int n) \<and>
   line_claimed (fst (irq_core my_shared_irq_handler irqnet_thread_handler k))"
proof (intro conjI)
  show "irq_core sysfs_hardirq_handler sysfs_thread_handler s =
     ([IRQ_WAKE_THREAD, IRQ_HANDLED], s\<lparr>top_calls := Suc (top_calls s), bottom_calls := Suc (bottom_calls s)\<rparr>)"
    by (simp add: irq_core_def sysfs_hardirq_handler_def sysfs_thread_handler_def)
  show "fold (\<lambda>buf s. snd (trigger_store s buf)) bufs s = s\<lparr>top_calls := top_calls s + length bufs\<rparr>"
    by (induction bufs arbitrary: s) (simp_all add: trigger_store_def sysfs_hardirq_handler_def)
  have step: "snd (irq_core my_shared_irq_handler irqnet_thread_handler k) = s32 (k + 1)" for k
    by (simp add: irq_core_def my_shared_irq_handler_def irqnet_thread_handler_def)
  show "((\<lambda>k. snd (irq_core my_shared_irq_handler irqnet_thread_handler k)) ^^ n) 0 = s32 (int n)"
  proof (induction n)
    case 0
    then show ?case by (simp add: s32_id)
  next
    case (Suc n)
    then show ?case by (simp add: step s32_add_left) (simp add: add.commute)
  qed
  show "line_claimed (fst (irq_core my_shared_irq_handler irqnet_thread_handler k))"
    by (simp add: irq_core_def my_shared_irq_handler_def irqnet_thread_handler_def line_claimed_def)
qed

definition vint_hardirq_handler :: "unit \<Rightarrow> irqreturn \<times> unit" where
  "vint_hardirq_handler s = (IRQ_WAKE_THREAD, s)"

definition vint_thread_handler :: "unit \<Rightarrow> irqreturn \<times> unit" where
  "vint_thread_handler s = (IRQ_HANDLED, s)"

definition vint_init :: "int \<Rightarrow> int \<times> kcall list" where
  "vint_init request_ret = (if request_ret \<noteq> 0 then (request_ret, []) else (0, [Acq (KIrq 12)]))"

section \<open>hrtimer.c\<close>

datatype hrtimer_restart = HRTIMER_RESTART | HRTIMER_NORESTART

text \<open>\<open>expires\<close> is the expiry of the armed timer in nanoseconds.\<close>

record hrt =
  hr_count :: int
  expires :: int

definition kt :: int where "kt = 1000 * 1000000"

text \<open>
  \<open>hrtimer_forward_now\<close> is a parameter: \<open>forward expiry now interval\<close> is the new expiry.
\<close>

definition timer_timeout :: "(int \<Rightarrow> int \<Rightarrow> int \<Rightarrow> int) \<Rightarrow> int \<Rightarrow> hrt \<Rightarrow> hrtimer_restart \<times> hrt" where
  "timer_timeout forward now t =
     (let current_count = s32 (hr_count t - 1);
          t = t\<lparr>hr_count := current_count\<rparr> in
      if current_count > 0 then (HRTIMER_RESTART, t\<lparr>expires := forward (expires t) now kt\<rparr>)
      else (HRTIMER_NORESTART, t))"

text \<open>The module's load: the timer is armed one interval from now.\<close>

definition hrtimer_mod_init :: "int \<Rightarrow> int \<times> kcall list" where
  "hrtimer_mod_init now = (0, [Acq KTimer])"

definition hrt_start :: "int \<Rightarrow> hrt" where
  "hrt_start now = \<lparr>hr_count = 10, expires = now + kt\<rparr>"

definition hrtimer_mod_exit :: "kcall list" where "hrtimer_mod_exit = [Rel KTimer]"

interpretation hrtimer: kernel_module hrtimer_mod_init "\<lambda>_. hrtimer_mod_exit" "\<lambda>_. True"
  by unfold_locales (auto simp: hrtimer_mod_init_def hrtimer_mod_exit_def)

text \<open>
  The timer core: the callback runs at or after the expiry (\<open>late i\<close> nanoseconds after it, at
  the \<open>i\<close>-th firing) and the timer is armed again when it asks for it. The result lists the
  instants at which the callback ran.
\<close>

function timer_run :: "(int \<Rightarrow> int \<Rightarrow> int \<Rightarrow> int) \<Rightarrow> (nat \<Rightarrow> int) \<Rightarrow> nat \<Rightarrow> hrt \<Rightarrow> int list" where
  "timer_run forward late i t =
     (let now = expires t + late i in
      case timer_timeout forward now t of
        (HRTIMER_NORESTART, _) \<Rightarrow> [now]
      | (HRTIMER_RESTART, t) \<Rightarrow> now # timer_run forward late (Suc i) t)"
  by auto

termination
proof (relation "measure (\<lambda>(forward, late, i, t). nat (u32 (hr_count t)))", goal_cases)
  case (2 forward late i t now r t')
  then have "0 < s32 (hr_count t - 1)" "hr_count t' = s32 (hr_count t - 1)"
    by (auto simp: timer_timeout_def Let_def split: if_splits)
  then show ?case
    using s32_countdown [of "hr_count t"] u32_range(1) [of "s32 (hr_count t - 1)"] by auto
qed simp

declare timer_run.simps [simp del]

text \<open>The documented behaviour of \<open>hrtimer_forward_now\<close>: whole intervals are added until the
  expiry lies after now.\<close>

definition forward_doc :: "(int \<Rightarrow> int \<Rightarrow> int \<Rightarrow> int) \<Rightarrow> bool" where
  "forward_doc forward \<longleftrightarrow> (\<forall>e now iv. 0 < iv \<and> e \<le> now \<longrightarrow>
     (\<exists>k. 0 < k \<and> forward e now iv = e + k * iv) \<and> now < forward e now iv \<and> forward e now iv \<le> now + iv)"

lemma timer_run_spacing:
  assumes "forward_doc forward" "\<forall>i. 0 \<le> late i"
  shows "hr_count t = int (Suc n) \<Longrightarrow> n < 2147483647 \<Longrightarrow>
    \<exists>xs. timer_run forward late i t = (expires t + late i) # xs \<and> length xs = n \<and>
      sorted_wrt (<) ((expires t + late i) # xs) \<and> expires t + int n * kt \<le> last ((expires t + late i) # xs)"
proof (induction n arbitrary: i t)
  case 0
  then have "timer_timeout forward (expires t + late i) t = (HRTIMER_NORESTART, t\<lparr>hr_count := 0\<rparr>)"
    by (simp add: timer_timeout_def Let_def s32_id)
  then show ?case using assms(2) by (simp add: timer_run.simps [of forward late i t])
next
  case (Suc n)
  define now where "now = expires t + late i"
  define t' where "t' = t\<lparr>hr_count := int (Suc n), expires := forward (expires t) now kt\<rparr>"
  have "timer_timeout forward now t = (HRTIMER_RESTART, t')"
    using Suc.prems by (simp add: timer_timeout_def Let_def s32_id t'_def)
  then have run: "timer_run forward late i t = now # timer_run forward late (Suc i) t'"
    by (simp add: timer_run.simps [of forward late i t] now_def [symmetric])
  have "expires t \<le> now" "0 < kt" using assms(2) by (simp_all add: now_def kt_def)
  then obtain k where k: "0 < k" "expires t' = expires t + k * kt" "now < expires t'"
    using assms(1) [unfolded forward_doc_def, rule_format, of kt "expires t" now] by (auto simp: t'_def)
  then have ge: "expires t + kt \<le> expires t'" using \<open>0 < kt\<close> by simp
  obtain xs where xs: "timer_run forward late (Suc i) t' = (expires t' + late (Suc i)) # xs" "length xs = n"
    "sorted_wrt (<) ((expires t' + late (Suc i)) # xs)"
    "expires t' + int n * kt \<le> last ((expires t' + late (Suc i)) # xs)"
    using Suc.IH [of t' "Suc i"] Suc.prems by (auto simp: t'_def)
  have "now < expires t' + late (Suc i)" using k(3) spec [OF assms(2), of "Suc i"] by linarith
  then have "sorted_wrt (<) (now # (expires t' + late (Suc i)) # xs)" using xs(3) by fastforce
  moreover have "expires t + int (Suc n) * kt \<le> last (now # (expires t' + late (Suc i)) # xs)"
    using xs(4) ge by (simp add: algebra_simps)
  ultimately show ?case using xs(1,2) run unfolding now_def by auto
qed

text \<open>
  C38: once loaded, the timer fires exactly ten times and then stops by itself: first one
  second after the load, strictly later each time, and the tenth time not before ten seconds
  have passed, however late the callbacks run; unloading at any moment leaves no timer armed.
\<close>

theorem hrtimer_fires_ten_times:
  assumes "forward_doc forward" "\<forall>i. 0 \<le> late i"
  shows "\<exists>xs. timer_run forward late 0 (hrt_start now) = (now + 1000000000 + late 0) # xs \<and> length xs = 9 \<and>
    sorted_wrt (<) ((now + 1000000000 + late 0) # xs) \<and> now + 10 * 1000000000 \<le> last xs \<and>
    replay (cycles hrtimer_mod_init (\<lambda>_. hrtimer_mod_exit) nows) [] = Some []"
proof -
  have "replay (cycles hrtimer_mod_init (\<lambda>_. hrtimer_mod_exit) nows) [] = Some []"
    by (rule hrtimer.cycles_balanced) simp
  moreover obtain xs where "timer_run forward late 0 (hrt_start now) = (now + 1000000000 + late 0) # xs" "length xs = 9"
    "sorted_wrt (<) ((now + 1000000000 + late 0) # xs)"
    "now + 1000000000 + int 9 * 1000000000 \<le> last ((now + 1000000000 + late 0) # xs)"
    using timer_run_spacing [OF assms, of "hrt_start now" 9 0] by (auto simp: hrt_start_def kt_def)
  moreover have "xs \<noteq> []" using \<open>length xs = 9\<close> by auto
  ultimately show ?thesis by (intro exI [of _ xs]) simp
qed

definition forward_exact :: "int \<Rightarrow> int \<Rightarrow> int \<Rightarrow> int" where
  "forward_exact e now iv = e + ((now - e) div iv + 1) * iv"

lemma forward_exact_doc: "forward_doc forward_exact"
  unfolding forward_doc_def
proof (intro allI impI conjI)
  fix e now iv :: int
  assume a: "0 < iv \<and> e \<le> now"
  define q where "q = (now - e) div iv"
  have q: "0 \<le> q" "now - e = q * iv + (now - e) mod iv" "0 \<le> (now - e) mod iv" "(now - e) mod iv < iv"
    using a by (simp_all add: q_def pos_imp_zdiv_nonneg_iff)
  have f: "forward_exact e now iv = e + (q + 1) * iv" by (simp add: forward_exact_def q_def)
  show "\<exists>k. 0 < k \<and> forward_exact e now iv = e + k * iv" using f q(1) by (intro exI [of _ "q + 1"]) simp
  have "(q + 1) * iv = q * iv + iv" by (simp add: algebra_simps)
  then show "now < forward_exact e now iv" "forward_exact e now iv \<le> now + iv" using f q by linarith+
qed

theorem hrtimer_fires_ten_times_witness:
  "\<exists>xs. timer_run forward_exact (\<lambda>i. 5000 * int i) 0 (hrt_start 0) = 1000000000 # xs \<and> length xs = 9 \<and>
    10 * 1000000000 \<le> last xs"
  using hrtimer_fires_ten_times [OF forward_exact_doc, of "\<lambda>i. 5000 * int i" 0 "[]"] by auto

end
