(* ===== verification/VirtInt.thy ===== *)
theory VirtInt
  imports IrqModules ChardevFile
begin

text \<open>
  The GPIO interrupt driver \<open>modules/virt-int.c\<close>: an interrupt handler that toggles an LED and
  counts, two debugfs files to trigger it by hand and to read the count, and the probe and
  remove functions. The copying helpers are those of \<open>Chardev\<close>.
\<close>

section \<open>Interrupts\<close>

text \<open>\<open>led_out\<close> is what was written to the LED line, newest first; \<open>gpio_led\<close> is whether the
  descriptor is there.\<close>

record virt =
  ledlevel :: int
  count :: int
  gpio_led :: bool
  led_out :: "int list"

definition irq_sw :: "virt \<Rightarrow> irqreturn \<times> virt" where
  "irq_sw s =
     (let s = s\<lparr>ledlevel := s32 (1 - ledlevel s)\<rparr>;
          s = (if gpio_led s then s\<lparr>led_out := ledlevel s # led_out s\<rparr> else s) in
      (IRQ_HANDLED, s\<lparr>count := s32 (count s + 1)\<rparr>))"

text \<open>\<open>stack\<close> is the uninitialised \<open>buf[8]\<close>; the result is the return value and the state.\<close>

definition trigger_write :: "kapi \<Rightarrow> char list \<Rightarrow> virt \<Rightarrow> char list \<Rightarrow> (int \<times> virt) res" where
  "trigger_write K stack s ubuf =
     (let len = int (length ubuf) in
      if u32 len > 8 - 1 then Inr (- EINVAL, s)
      else let (uncopied, placed) = copy_from_user K ubuf len in
        and_then (mem_write stack 0 placed) (\<lambda>buf.
        if uncopied \<noteq> 0 then Inr (- EFAULT, s)
        else and_then (mem_write buf len [NUL]) (\<lambda>buf.
        and_then (mem_read buf 0 1) (\<lambda>c.
        Inr (len, if c = ''1'' then snd (irq_sw s) else s)))))"

text \<open>
  \<open>simple_read_from_buffer len pos data\<close> is a parameter: the result, the bytes handed out
  and the new position. \<open>stack\<close> is the uninitialised \<open>buf[32]\<close>.
\<close>

definition count_read :: "(int \<Rightarrow> int \<Rightarrow> char list \<Rightarrow> int \<times> char list \<times> int) \<Rightarrow> char list \<Rightarrow> virt \<Rightarrow> int \<Rightarrow> int \<Rightarrow>
    (int \<times> char list \<times> int) res" where
  "count_read simple_read stack s len offp =
     (let line = dec_int (count s) @ [NL]; ret = int (length line) in
      and_then (mem_write stack 0 (snprintf_stored 32 line @ [NUL])) (\<lambda>buf.
      and_then (mem_read buf 0 ret) (\<lambda>data.
      Inr (simple_read len offp data))))"

text \<open>Its documented behaviour when the user's memory is accessible.\<close>

definition simple_read_doc :: "(int \<Rightarrow> int \<Rightarrow> char list \<Rightarrow> int \<times> char list \<times> int) \<Rightarrow> bool" where
  "simple_read_doc f \<longleftrightarrow> (\<forall>len pos data. 0 \<le> len \<and> 0 \<le> pos \<longrightarrow>
     f len pos data = (let bs = take (nat len) (drop (nat pos) data) in (int (length bs), bs, pos + int (length bs))))"

text \<open>What can happen to the driver while it is bound.\<close>

datatype virt_event = Interrupt | TriggerFile "char list"

fun virt_step :: "kapi \<Rightarrow> char list \<Rightarrow> virt \<Rightarrow> virt_event \<Rightarrow> virt res" where
  "virt_step K stack s Interrupt = Inr (snd (irq_sw s))"
| "virt_step K stack s (TriggerFile ubuf) = and_then (trigger_write K stack s ubuf) (\<lambda>(r, s). Inr s)"

fun virt_run :: "kapi \<Rightarrow> char list \<Rightarrow> virt \<Rightarrow> virt_event list \<Rightarrow> virt res" where
  "virt_run K stack s [] = Inr s"
| "virt_run K stack s (ev # evs) = and_then (virt_step K stack s ev) (\<lambda>s. virt_run K stack s evs)"

text \<open>The state of a freshly loaded driver, and its events that count as an interrupt.\<close>

definition virt_start :: "bool \<Rightarrow> virt" where
  "virt_start led = \<lparr>ledlevel = 1, count = 0, gpio_led = led, led_out = []\<rparr>"

fun counts :: "kapi \<Rightarrow> virt_event \<Rightarrow> bool" where
  "counts K Interrupt = True"
| "counts K (TriggerFile ubuf) = (length ubuf \<le> 7 \<and> fst (copy_from_user K ubuf (int (length ubuf))) = 0 \<and>
     take 1 ubuf = ''1'')"

definition toggled :: "bool \<Rightarrow> nat \<Rightarrow> virt" where
  "toggled led n = \<lparr>ledlevel = (if even n then 1 else 0), count = s32 (int n), gpio_led = led,
     led_out = (if led then rev (map (\<lambda>i. if even i then 0 else 1) [0..<n]) else [])\<rparr>"

lemma irq_sw_toggled: "snd (irq_sw (toggled led n)) = toggled led (Suc n)"
  by (auto simp: irq_sw_def toggled_def Let_def s32_id s32_add_left s32_add_right add.commute)

lemma trigger_write_result:
  assumes K: "kapi_doc K" and stack: "length stack = 8" and u: "int (length ubuf) < 4294967296"
  shows "trigger_write K stack s ubuf = Inr
    (if 7 < length ubuf then - EINVAL
     else if fst (copy_from_user K ubuf (int (length ubuf))) \<noteq> 0 then - EFAULT else int (length ubuf),
     if counts K (TriggerFile ubuf) then snd (irq_sw s) else s)"
proof (cases "7 < length ubuf")
  case True
  then show ?thesis using u by (simp add: trigger_write_def u32_id Let_def)
next
  case False
  define n where "n = int (length ubuf)"
  obtain uc where uc: "0 \<le> uc" "uc \<le> n" "copy_from_user K ubuf n = (uc, take (nat (n - uc)) ubuf @ replicate (nat uc) NUL)"
    using copy_from_user_docE [of K n ubuf] K by (auto simp: kapi_doc_def n_def)
  define placed where "placed = take (nat (n - uc)) ubuf @ replicate (nat uc) NUL"
  have pl: "length placed = length ubuf" using uc by (simp add: placed_def n_def)
  define b1 where "b1 = overlay stack 0 placed"
  have w1: "mem_write stack 0 placed = Inr b1" and l1: "length b1 = 8"
    using False stack pl by (simp_all add: mem_write_def b1_def)
  show ?thesis
  proof (cases "uc = 0")
    case False
    then show ?thesis using \<open>\<not> 7 < length ubuf\<close> u uc(3) w1
      by (simp add: trigger_write_def u32_id Let_def n_def placed_def)
  next
    case True
    then have p: "placed = ubuf" using uc by (simp add: placed_def n_def)
    define b2 where "b2 = overlay b1 (length ubuf) [NUL]"
    have w2: "mem_write b1 n [NUL] = Inr b2" and l2: "length b2 = 8"
      using \<open>\<not> 7 < length ubuf\<close> l1 by (simp_all add: mem_write_def b2_def n_def)
    have "b2 = ubuf @ NUL # drop (Suc (length ubuf)) stack" by (simp add: b2_def b1_def p overlay_def)
    then have "mem_read b2 0 1 = Inr [hd (ubuf @ [NUL])]"
      using l2 by (cases ubuf) (simp_all add: mem_read_def)
    moreover have "hd (ubuf @ [NUL]) = CHR ''1'' \<longleftrightarrow> take 1 ubuf = ''1''"
      by (cases ubuf) (auto simp: NUL_def)
    ultimately show ?thesis using \<open>\<not> 7 < length ubuf\<close> u uc(3) w1 w2 True p
      by (simp add: trigger_write_def u32_id Let_def n_def placed_def)
  qed
qed

fun virt_event_ok :: "virt_event \<Rightarrow> bool" where
  "virt_event_ok Interrupt \<longleftrightarrow> True"
| "virt_event_ok (TriggerFile ubuf) \<longleftrightarrow> int (length ubuf) < 4294967296"

lemma virt_run_toggles:
  assumes "kapi_doc K" "length stack = 8"
  shows "\<forall>ev \<in> set evs. virt_event_ok ev \<Longrightarrow>
    virt_run K stack (toggled led n) evs = Inr (toggled led (n + length (filter (counts K) evs)))"
proof (induction evs arbitrary: n)
  case (Cons ev evs)
  show ?case
  proof (cases ev)
    case Interrupt
    then show ?thesis using Cons by (simp add: irq_sw_toggled)
  next
    case (TriggerFile ubuf)
    with Cons.prems have "int (length ubuf) < 4294967296" by simp
    note tw = trigger_write_result [OF assms this, of "toggled led n"]
    show ?thesis using Cons.IH Cons.prems by (simp add: TriggerFile tw irq_sw_toggled)
  qed
qed simp

text \<open>
  Whatever interleaving of hardware interrupts and writes to the trigger file the driver
  sees, it never leaves its stack buffer; the count is the number of interrupts plus the
  number of accepted writes that begin with 1 (wrapped to 32 bits), the LED level is the
  parity of that number, and the LED line, if present, has been driven once per interrupt with
  alternating values starting with 0. A write of more than 7 bytes and one that faults change
  nothing.
\<close>

lemma virt_int_counts:
  assumes "kapi_doc K" "length stack = 8" "\<forall>ev \<in> set evs. virt_event_ok ev"
  shows "\<exists>s n. virt_run K stack (virt_start led) evs = Inr s \<and> n = length (filter (counts K) evs) \<and>
    count s = s32 (int n) \<and> ledlevel s = (1 + int n) mod 2 \<and>
    rev (led_out s) = (if led then map (\<lambda>i. int i mod 2) [0..<n] else [])"
proof -
  have "virt_start led = toggled led 0" by (simp add: virt_start_def toggled_def s32_id)
  moreover define n where "n = length (filter (counts K) evs)"
  ultimately have "virt_run K stack (virt_start led) evs = Inr (toggled led n)"
    using virt_run_toggles [OF assms, of led 0] by simp
  moreover have "(if even i then 0 else 1) = int i mod 2" for i
    by (cases "even i") (auto elim!: evenE oddE)
  moreover have "(if even n then 1 else 0) = (1 + int n) mod 2" by (cases "even n") (auto elim!: evenE oddE)
  ultimately show ?thesis
    by (intro exI [of _ "toggled led n"] exI [of _ n]) (simp add: toggled_def n_def)
qed

lemma virt_int_counts_example:
  "\<exists>s. virt_run plain_kapi (replicate 8 NUL) (virt_start True) [Interrupt, TriggerFile ''1'', TriggerFile ''0'', TriggerFile ''12345678'']
     = Inr s \<and> count s = 2 \<and> rev (led_out s) = [0, 1]"
proof -
  let ?evs = "[Interrupt, TriggerFile ''1'', TriggerFile ''0'', TriggerFile ''12345678'']"
  have "length (filter (counts plain_kapi) ?evs) = 2" by (simp add: plain_kapi_def)
  with virt_int_counts [OF plain_kapi_doc, of "replicate 8 NUL" ?evs True] show ?thesis
    by (auto simp: s32_id numeral_2_eq_2)
qed

text \<open>
  The count file. For every count the text fits the 32-byte buffer with its terminator,
  and a read of at least 12 bytes from the start returns all of it: a decimal number and a
  newline, from which the count is recovered.
\<close>

lemma count_read_roundtrip:
  assumes "simple_read_doc f" "length stack = 32" "count s = s32 k" "12 \<le> len"
  shows "\<exists>line. count_read f stack s len 0 = Inr (int (length line), line, int (length line)) \<and>
    length line \<le> 12 \<and> last line = NL \<and> undec_int (butlast line) = count s"
proof -
  define line where "line = dec_int (count s) @ [NL]"
  have len: "length line \<le> 12" using length_dec_int_s32 [of k] by (simp add: line_def assms(3))
  have st: "snprintf_stored 32 line = line" using len by (simp add: snprintf_stored_def)
  have "mem_write stack 0 (line @ [NUL]) = Inr (overlay stack 0 (line @ [NUL]))"
    using len assms(2) by (simp add: mem_write_def)
  moreover have "mem_read (overlay stack 0 (line @ [NUL])) 0 (int (length line)) = Inr line"
    using len assms(2) by (simp add: mem_read_def) (simp add: overlay_def)
  ultimately have "count_read f stack s len 0 = Inr (f len 0 line)"
    by (simp add: count_read_def st Let_def flip: line_def)
  moreover have "f len 0 line = (int (length line), line, int (length line))"
    using assms(1,4) len by (simp add: simple_read_doc_def Let_def)
  moreover have "last line = NL" "undec_int (butlast line) = count s"
    by (simp_all add: line_def undec_dec_int)
  ultimately show ?thesis using len by (intro exI [of _ line]) simp
qed

definition simple_read :: "int \<Rightarrow> int \<Rightarrow> char list \<Rightarrow> int \<times> char list \<times> int" where
  "simple_read len pos data = (let bs = take (nat len) (drop (nat pos) data) in (int (length bs), bs, pos + int (length bs)))"

lemma count_read_roundtrip_example:
  "\<exists>line. count_read simple_read (replicate 32 NUL) (toggled True 42) 64 0 = Inr (int (length line), line, int (length line)) \<and>
     undec_int (butlast line) = 42"
proof -
  have "simple_read_doc simple_read" by (simp add: simple_read_doc_def simple_read_def)
  moreover have "count (toggled True 42) = s32 42" by (simp add: toggled_def)
  ultimately show ?thesis
    using count_read_roundtrip [of simple_read "replicate 32 NUL" "toggled True 42" 42 64] by (auto simp: s32_id)
qed

section \<open>Probe and remove\<close>

text \<open>
  The GPIO descriptors are device-managed and released by the driver core; the calls listed
  are those the driver must undo itself. The second component of the result is \<open>irq\<close>, the
  third whether \<open>gpio_led\<close> is usable.
\<close>

record probe_env =
  led_desc :: kptr
  sw_desc :: kptr
  gpiod_to_irq :: int
  request_irq :: int
  debugfs_create_dir :: kptr

definition virt_my_probe :: "probe_env \<Rightarrow> int \<times> int \<times> bool \<times> kcall list" where
  "virt_my_probe e =
     (let led = \<not> IS_ERR (led_desc e) in
      if \<not> IS_ERR (sw_desc e) then
        let irq = gpiod_to_irq e in
        if irq < 0 then (irq, irq, led, [])
        else if request_irq e < 0 then (request_irq e, irq, led, [])
        else (0, irq, led, [Acq (KIrq irq)] @ (if debugfs_create_dir e = Ptr then [Acq KDebugfs] else []))
      else (0, 0, led, if debugfs_create_dir e = Ptr then [Acq KDebugfs] else []))"

definition virt_my_remove :: "int \<Rightarrow> kptr \<Rightarrow> int \<times> kcall list" where
  "virt_my_remove irq debugfs_dir =
     (0, (if debugfs_dir = Ptr then [Rel KDebugfs] else []) @ (if irq > 0 then [Rel (KIrq irq)] else []))"

definition virt_bind :: "probe_env \<Rightarrow> int \<times> kcall list" where
  "virt_bind e = (case virt_my_probe e of (r, _, _, cs) \<Rightarrow> (r, cs))"

definition virt_unbind :: "probe_env \<Rightarrow> kcall list" where
  "virt_unbind e = (case virt_my_probe e of (_, irq, _, _) \<Rightarrow> snd (virt_my_remove irq (debugfs_create_dir e)))"

text \<open>\<open>gpiod_to_irq\<close> returns a positive number or a negative error, \<open>request_irq\<close> 0 or a
  negative error.\<close>

definition probe_env_doc :: "probe_env \<Rightarrow> bool" where
  "probe_env_doc e \<longleftrightarrow> gpiod_to_irq e \<noteq> 0 \<and> request_irq e \<le> 0"

lemmas virt_bind_defs = virt_bind_def virt_unbind_def virt_my_probe_def virt_my_remove_def

interpretation virt: kernel_module virt_bind virt_unbind probe_env_doc
  by unfold_locales (auto simp: virt_bind_defs probe_env_doc_def Let_def split: if_splits)

text \<open>
  Binding and unbinding the driver any number of times, with or without the LED, the
  switch and debugfs and whichever request fails, leaves neither an interrupt handler nor a
  debugfs directory behind. A missing switch is no error: the driver then binds in test mode,
  without an interrupt.
\<close>

lemma virt_int_cycles_balanced:
  assumes "\<forall>e \<in> set es. probe_env_doc e"
  shows "replay (cycles virt_bind virt_unbind es) [] = Some [] \<and>
    (IS_ERR (sw_desc e0) \<longrightarrow> fst (virt_bind e0) = 0 \<and> (\<forall>i. Acq (KIrq i) \<notin> set (snd (virt_bind e0))))"
proof
  show "replay (cycles virt_bind virt_unbind es) [] = Some []"
    using assms by (intro virt.cycles_balanced) blast
  show "IS_ERR (sw_desc e0) \<longrightarrow> fst (virt_bind e0) = 0 \<and> (\<forall>i. Acq (KIrq i) \<notin> set (snd (virt_bind e0)))"
    by (auto simp: virt_bind_defs Let_def)
qed

definition no_hardware :: probe_env where
  "no_hardware = \<lparr>led_desc = ErrPtr (-2), sw_desc = ErrPtr (-2), gpiod_to_irq = -1, request_irq = 0, debugfs_create_dir = Ptr\<rparr>"

lemma virt_int_cycles_balanced_example:
  "replay (cycles virt_bind virt_unbind [no_hardware, no_hardware\<lparr>sw_desc := Ptr\<rparr>, no_hardware\<lparr>sw_desc := Ptr, gpiod_to_irq := 9\<rparr>]) [] = Some [] \<and>
   fst (virt_bind no_hardware) = 0 \<and> snd (virt_bind (no_hardware\<lparr>sw_desc := Ptr, gpiod_to_irq := 9\<rparr>)) = [Acq (KIrq 9), Acq KDebugfs]"
  using virt_int_cycles_balanced [of "[no_hardware, no_hardware\<lparr>sw_desc := Ptr\<rparr>, no_hardware\<lparr>sw_desc := Ptr, gpiod_to_irq := 9\<rparr>]" no_hardware]
  by (simp add: probe_env_doc_def no_hardware_def virt_bind_defs)

end
