(* ===== verification/GpioSim.thy ===== *)
theory GpioSim
  imports IrqModules
begin

text \<open>
  The two drivers for simulated GPIO lines, \<open>modules/gpio-sim-demo.c\<close> and
  \<open>modules/gpio-sim-int.c\<close>: a platform device and its driver registered by one module, whose
  probe runs inside the registration of the driver. Device-managed resources (the GPIO
  descriptors, the threaded interrupt) are released by the driver core and are not listed.
\<close>

section \<open>Module and driver core\<close>

text \<open>
  The module's own calls fail or succeed; when the driver is registered the core calls its
  probe for the device. A probe that fails leaves the driver registered and the device
  unbound; \<open>remove\<close> is called on unregistration for a bound device only.
\<close>

record 'p sim_env =
  pdev_sim :: kptr
  driver_register :: int
  probing :: 'p

definition sim_env_doc :: "'p sim_env \<Rightarrow> bool" where
  "sim_env_doc e \<longleftrightarrow> kptr_doc (pdev_sim e)"

definition gpio_sim_demo_init :: "('p \<Rightarrow> int \<times> kcall list) \<Rightarrow> 'p sim_env \<Rightarrow> int \<times> kcall list" where
  "gpio_sim_demo_init probe e =
     (if IS_ERR (pdev_sim e) then (PTR_ERR (pdev_sim e), [])
      else if driver_register e \<noteq> 0 then (driver_register e, [Acq KPlatformDevice, Rel KPlatformDevice])
      else (0, [Acq KPlatformDevice, Acq KPlatformDriver] @ snd (probe (probing e))))"

definition gpio_sim_demo_exit :: "('p \<Rightarrow> int \<times> kcall list) \<Rightarrow> kcall list \<Rightarrow> 'p sim_env \<Rightarrow> kcall list" where
  "gpio_sim_demo_exit probe remove e =
     (if fst (probe (probing e)) = 0 then remove else []) @ [Rel KPlatformDriver, Rel KPlatformDevice]"

lemma sim_init_fails:
  assumes "sim_env_doc e" "fst (gpio_sim_demo_init probe e) = 0"
  shows "\<not> IS_ERR (pdev_sim e)" "driver_register e = 0"
proof -
  show "\<not> IS_ERR (pdev_sim e)"
    using IS_ERR_E [of "pdev_sim e"] assms by (auto simp: sim_env_doc_def gpio_sim_demo_init_def)
  with assms(2) show "driver_register e = 0" by (simp add: gpio_sim_demo_init_def split: if_splits)
qed

section \<open>gpio-sim-demo.c\<close>

text \<open>
  \<open>demo_sw\<close>, \<open>demo_led\<close>: what \<open>devm_gpiod_get\<close> returns for the switch and the LED. The
  probe's result has the values driven to the LED as its third component.
\<close>

record demo_probe =
  demo_sw :: kptr
  demo_led :: kptr
  demo_ledvalue :: int

definition demo_my_probe :: "demo_probe \<Rightarrow> int \<times> kcall list \<times> int list" where
  "demo_my_probe p =
     (let c = [Acq KLookupTable] in
      if IS_ERR (demo_sw p) then (0, c, [])
      else if IS_ERR (demo_led p) then (0, c, [])
      else (0, c, [demo_ledvalue p]))"

definition demo_bind :: "demo_probe \<Rightarrow> int \<times> kcall list" where
  "demo_bind p = (case demo_my_probe p of (r, c, _) \<Rightarrow> (r, c))"

lemma demo_bind_eq: "demo_bind p = (0, [Acq KLookupTable])"
  by (simp add: demo_bind_def demo_my_probe_def Let_def)

definition demo_my_remove :: "kcall list" where "demo_my_remove = [Rel KLookupTable]"

interpretation gpio_demo: kernel_module "gpio_sim_demo_init demo_bind"
  "gpio_sim_demo_exit demo_bind demo_my_remove" sim_env_doc
proof unfold_locales
  fix e :: "demo_probe sim_env" and h
  show "replay (snd (gpio_sim_demo_init demo_bind e)) h = Some h"
    if "fst (gpio_sim_demo_init demo_bind e) \<noteq> 0"
    using that by (auto simp: gpio_sim_demo_init_def split: if_splits)
  show "replay (snd (gpio_sim_demo_init demo_bind e) @ gpio_sim_demo_exit demo_bind demo_my_remove e) h = Some h"
    if "sim_env_doc e" "fst (gpio_sim_demo_init demo_bind e) = 0"
    using sim_init_fails [OF that]
    by (simp add: gpio_sim_demo_init_def gpio_sim_demo_exit_def demo_bind_eq demo_my_remove_def)
qed

section \<open>gpio-sim-int.c\<close>

text \<open>The state of the driver; \<open>led_line\<close> is what the LED line was driven to, newest first.\<close>

record sim_int =
  ledvalue :: int
  sim_count :: int
  irq_time :: int
  led_line :: "int list"

definition irq_sw_hard :: "int \<Rightarrow> sim_int \<Rightarrow> irqreturn \<times> sim_int" where
  "irq_sw_hard now s = (IRQ_WAKE_THREAD, s\<lparr>irq_time := now\<rparr>)"

definition irq_sw_thread :: "sim_int \<Rightarrow> irqreturn \<times> sim_int" where
  "irq_sw_thread s =
     (let s = s\<lparr>sim_count := s32 (sim_count s + 1)\<rparr>;
          s = s\<lparr>ledvalue := s32 (1 - ledvalue s)\<rparr> in
      (IRQ_HANDLED, s\<lparr>led_line := ledvalue s # led_line s\<rparr>))"

record int_probe =
  int_sw :: kptr
  int_led :: kptr
  sim_to_irq :: int
  devm_request_irq :: int
  int_ledvalue :: int

definition int_my_probe :: "int_probe \<Rightarrow> int \<times> kcall list \<times> int list" where
  "int_my_probe p =
     (let c = [Acq KLookupTable] in
      if IS_ERR (int_sw p) then (0, c, [])
      else if IS_ERR (int_led p) then (0, c, [])
      else let irq = sim_to_irq p in
      if irq < 0 then (irq, c, [])
      else let led = [int_ledvalue p]; ret = devm_request_irq p in
      if ret < 0 then (ret, c, led)
      else (0, c, led))"

definition int_bind :: "int_probe \<Rightarrow> int \<times> kcall list" where
  "int_bind p = (case int_my_probe p of (r, c, _) \<Rightarrow> (r, c))"

definition int_my_remove :: "kcall list" where "int_my_remove = [Rel KLookupTable]"

text \<open>The module's init and exit functions are the same text as in \<open>gpio-sim-demo.c\<close>.\<close>

definition gpio_sim_int_init :: "int_probe sim_env \<Rightarrow> int \<times> kcall list" where
  "gpio_sim_int_init = gpio_sim_demo_init int_bind"

definition gpio_sim_int_exit :: "int_probe sim_env \<Rightarrow> kcall list" where
  "gpio_sim_int_exit = gpio_sim_demo_exit int_bind int_my_remove"

text \<open>The environments in which the probe does not fail.\<close>

definition int_env_ok :: "int_probe sim_env \<Rightarrow> bool" where
  "int_env_ok e \<longleftrightarrow> sim_env_doc e \<and> fst (int_bind (probing e)) = 0"

lemma int_bind_acquires: "snd (int_bind p) = [Acq KLookupTable]"
  by (simp add: int_bind_def int_my_probe_def Let_def)

interpretation gpio_int: kernel_module gpio_sim_int_init gpio_sim_int_exit int_env_ok
proof unfold_locales
  fix e :: "int_probe sim_env" and h
  show "replay (snd (gpio_sim_int_init e)) h = Some h"
    if "fst (gpio_sim_int_init e) \<noteq> 0"
    using that by (auto simp: gpio_sim_int_init_def gpio_sim_demo_init_def split: if_splits)
  show "replay (snd (gpio_sim_int_init e) @ gpio_sim_int_exit e) h = Some h"
    if ok: "int_env_ok e" and ret: "fst (gpio_sim_int_init e) = 0"
  proof -
    have "sim_env_doc e" "fst (int_bind (probing e)) = 0" using ok by (simp_all add: int_env_ok_def)
    with sim_init_fails [OF this(1) ret [unfolded gpio_sim_int_init_def]] show ?thesis
      by (simp add: gpio_sim_int_init_def gpio_sim_demo_init_def gpio_sim_int_exit_def gpio_sim_demo_exit_def int_bind_acquires int_my_remove_def)
  qed
qed

text \<open>
  Both modules release exactly what they acquired, in every history of loading and
  unloading in which no probe fails; for \<open>gpio-sim-demo\<close> no probe ever fails, whichever line is
  missing.
\<close>

lemma gpio_sim_cycles_balanced:
  assumes "\<forall>e \<in> set es. sim_env_doc e" "\<forall>e \<in> set es'. int_env_ok e"
  shows "replay (cycles (gpio_sim_demo_init demo_bind) (gpio_sim_demo_exit demo_bind demo_my_remove) es) [] = Some [] \<and>
    replay (cycles gpio_sim_int_init gpio_sim_int_exit es') [] = Some []"
proof
  show "replay (cycles (gpio_sim_demo_init demo_bind) (gpio_sim_demo_exit demo_bind demo_my_remove) es) [] = Some []"
    using assms(1) by (intro gpio_demo.cycles_balanced) blast
  show "replay (cycles gpio_sim_int_init gpio_sim_int_exit es') [] = Some []"
    using assms(2) by (intro gpio_int.cycles_balanced) blast
qed

definition no_lines :: "demo_probe sim_env" where
  "no_lines = \<lparr>pdev_sim = Ptr, driver_register = 0, probing = \<lparr>demo_sw = ErrPtr (-2), demo_led = ErrPtr (-2), demo_ledvalue = 1\<rparr>\<rparr>"

definition all_lines :: "int_probe sim_env" where
  "all_lines = \<lparr>pdev_sim = Ptr, driver_register = 0,
     probing = \<lparr>int_sw = Ptr, int_led = Ptr, sim_to_irq = 5, devm_request_irq = 0, int_ledvalue = 0\<rparr>\<rparr>"

lemma gpio_sim_cycles_balanced_example:
  "replay (cycles (gpio_sim_demo_init demo_bind) (gpio_sim_demo_exit demo_bind demo_my_remove)
      [no_lines, no_lines\<lparr>driver_register := -16\<rparr>]) [] = Some [] \<and>
   replay (cycles gpio_sim_int_init gpio_sim_int_exit
      [all_lines, all_lines\<lparr>pdev_sim := ErrPtr (-12)\<rparr>]) [] = Some []"
  using gpio_sim_cycles_balanced [of "[no_lines, no_lines\<lparr>driver_register := -16\<rparr>]" "[all_lines, all_lines\<lparr>pdev_sim := ErrPtr (-12)\<rparr>]"]
  by (simp add: sim_env_doc_def int_env_ok_def no_lines_def all_lines_def int_bind_def int_my_probe_def)

text \<open>
  When the probe of \<open>gpio-sim-int\<close> fails, because there is no interrupt for the line or
  because it cannot be requested, the module still loads, and unloading it leaves its lookup
  table, static memory of the module, in the kernel's list: nothing ever removes it.
\<close>

lemma gpio_sim_int_leaks_table:
  assumes "\<not> IS_ERR (pdev_sim e)" "driver_register e = 0" "\<not> IS_ERR (int_sw (probing e))" "\<not> IS_ERR (int_led (probing e))"
    "sim_to_irq (probing e) < 0 \<or> devm_request_irq (probing e) < 0"
  shows "fst (gpio_sim_int_init e) = 0 \<and>
    (let cs = load_unload gpio_sim_int_init gpio_sim_int_exit e in
      Acq KLookupTable \<in> set cs \<and> Rel KLookupTable \<notin> set cs)"
  using assms
  by (auto simp: load_unload_def gpio_sim_int_init_def gpio_sim_demo_init_def gpio_sim_int_exit_def gpio_sim_demo_exit_def int_bind_def int_my_probe_def Let_def)

lemma gpio_sim_int_leaks_table_example:
  "let cs = load_unload gpio_sim_int_init gpio_sim_int_exit
      (all_lines\<lparr>probing := \<lparr>int_sw = Ptr, int_led = Ptr, sim_to_irq = -6, devm_request_irq = 0, int_ledvalue = 0\<rparr>\<rparr>) in
    Acq KLookupTable \<in> set cs \<and> Rel KLookupTable \<notin> set cs"
  by (rule gpio_sim_int_leaks_table [THEN conjunct2]) (simp_all add: all_lines_def)

text \<open>
  On a run of threaded interrupts, the count is the number of interrupts (wrapped to 32
  bits), the LED value is the initial one after an even number and its complement to 1 after an
  odd number, the line was driven once per interrupt, and the recorded time is that of the
  last one.
\<close>

lemma gpio_sim_int_counts:
  assumes "ledvalue s = 0 \<or> ledvalue s = 1" "sim_count s = 0" "led_line s = []"
  shows "\<exists>s'. fold (\<lambda>now s. snd (irq_core (irq_sw_hard now) irq_sw_thread s)) nows s = s' \<and>
    sim_count s' = s32 (int (length nows)) \<and> ledvalue s' = (ledvalue s + int (length nows)) mod 2 \<and>
    rev (led_line s') = map (\<lambda>i. (ledvalue s + int i + 1) mod 2) [0..<length nows] \<and>
    irq_time s' = last (irq_time s # nows)"
proof (induction nows rule: rev_induct)
  case Nil
  then show ?case using assms by (auto simp: s32_id)
next
  case (snoc now nows)
  define s1 where "s1 = fold (\<lambda>now s. snd (irq_core (irq_sw_hard now) irq_sw_thread s)) nows s"
  from snoc have s1: "sim_count s1 = s32 (int (length nows))" "ledvalue s1 = (ledvalue s + int (length nows)) mod 2"
    "rev (led_line s1) = map (\<lambda>i. (ledvalue s + int i + 1) mod 2) [0..<length nows]"
    by (simp_all add: s1_def)
  have v: "s32 (1 - ledvalue s1) = (ledvalue s + int (length nows) + 1) mod 2"
  proof -
    have "ledvalue s1 = 0 \<or> ledvalue s1 = 1" unfolding s1(2) by presburger
    then have "s32 (1 - ledvalue s1) = 1 - ledvalue s1" by (auto simp: s32_id)
    also have "\<dots> = (ledvalue s + int (length nows) + 1) mod 2" unfolding s1(2) by presburger
    finally show ?thesis .
  qed
  have "snd (irq_core (irq_sw_hard now) irq_sw_thread s1) = s1\<lparr>irq_time := now,
      sim_count := s32 (sim_count s1 + 1), ledvalue := s32 (1 - ledvalue s1), led_line := s32 (1 - ledvalue s1) # led_line s1\<rparr>"
    by (simp add: irq_core_def irq_sw_hard_def irq_sw_thread_def Let_def)
  then have st: "fold (\<lambda>now s. snd (irq_core (irq_sw_hard now) irq_sw_thread s)) (nows @ [now]) s = s1\<lparr>irq_time := now,
      sim_count := s32 (int (length nows) + 1), ledvalue := (ledvalue s + int (length nows) + 1) mod 2,
      led_line := (ledvalue s + int (length nows) + 1) mod 2 # led_line s1\<rparr>"
    unfolding v s1(1) s32_add_left by (simp add: s1_def)
  show ?case unfolding st using s1(3) by (simp add: add.assoc add.commute [of 1])
qed

lemma gpio_sim_int_counts_example:
  "\<exists>s'. fold (\<lambda>now s. snd (irq_core (irq_sw_hard now) irq_sw_thread s)) [100, 250, 900]
      \<lparr>ledvalue = 1, sim_count = 0, irq_time = 0, led_line = []\<rparr> = s' \<and>
    sim_count s' = 3 \<and> ledvalue s' = 0 \<and> rev (led_line s') = [0, 1, 0] \<and> irq_time s' = 900"
  using gpio_sim_int_counts [of "\<lparr>ledvalue = 1, sim_count = 0, irq_time = 0, led_line = []\<rparr>" "[100, 250, 900]"]
  by (simp add: s32_id upt_rec)

end
