(* ===== verification/Mychardev.thy ===== *)
theory Mychardev
  imports ChardevFile
begin

text \<open>
  The simpler character device \<open>modules/mychardev.c\<close>: a static buffer of 1024 bytes that every
  write replaces from its start and every read from position 0 hands out whole. There is no
  lock, and its init function ignores all errors. The copying helpers are those of \<open>Chardev\<close>,
  the names carry the prefix \<open>my\<close> where \<open>Chardev\<close> has the plain name.
\<close>

section \<open>File operations\<close>

definition MY_BUFFER_SIZE :: int where "MY_BUFFER_SIZE = 1024"

text \<open>The state is \<open>kernel_buffer\<close>; results as in \<open>Chardev\<close>.\<close>

definition my_dev_read :: "kapi \<Rightarrow> char list \<Rightarrow> int \<Rightarrow> int \<Rightarrow> (int \<times> char list \<times> int) res" where
  "my_dev_read K kb count pos =
     (if pos > 0 then Inr (0, [], pos)
      else
        let bytes_to_read = MY_BUFFER_SIZE;
            bytes_to_read = (if u32 bytes_to_read > u32 count then s32 count else bytes_to_read) in
        and_then (mem_read kb 0 bytes_to_read) (\<lambda>src.
        let bytes_read = s32 (bytes_to_read - copy_to_user K bytes_to_read) in
        Inr (bytes_read, take (nat bytes_read) src, s64 (pos + bytes_read))))"

definition my_dev_write :: "kapi \<Rightarrow> char list \<Rightarrow> char list \<Rightarrow> int \<Rightarrow> int \<Rightarrow> (int \<times> int \<times> char list) res" where
  "my_dev_write K kb buf count pos =
     (let bytes_to_write = MY_BUFFER_SIZE;
          bytes_to_write = (if u32 bytes_to_write > u32 count then s32 count else bytes_to_write);
          (uncopied, placed) = copy_from_user K buf bytes_to_write in
      and_then (mem_write kb 0 placed) (\<lambda>kb.
      let bytes_written = s32 (bytes_to_write - uncopied) in
      Inr (bytes_written, 0, kb)))"

lemma my_clamp: "0 \<le> count \<Longrightarrow> count < 4294967296 \<Longrightarrow>
    (if u32 MY_BUFFER_SIZE > u32 count then s32 count else MY_BUFFER_SIZE) = min count 1024"
  by (auto simp: MY_BUFFER_SIZE_def u32_id s32_id)

lemma my_dev_write_ok:
  assumes K: "copy_from_user_doc K" and kb: "length kb = 1024"
    and count: "0 \<le> count" "count < 4294967296" "count \<le> int (length buf)"
  defines "n \<equiv> min count 1024"
  shows "\<exists>u. 0 \<le> u \<and> u \<le> n \<and> fst (copy_from_user K buf n) = u \<and>
    my_dev_write K kb buf count pos =
      Inr (n - u, 0, take (nat (n - u)) buf @ replicate (nat u) NUL @ drop (nat n) kb)"
proof -
  have n: "0 \<le> n" "n \<le> int (length buf)" "n \<le> 1024" using count by (simp_all add: n_def)
  obtain u where u: "0 \<le> u" "u \<le> n" "copy_from_user K buf n = (u, take (nat (n - u)) buf @ replicate (nat u) NUL)"
    using copy_from_user_docE [OF K n(1,2)] .
  have len: "length (take (nat (n - u)) buf @ replicate (nat u) NUL) = nat n" using n u by simp
  have "mem_write kb 0 (take (nat (n - u)) buf @ replicate (nat u) NUL) =
      Inr (take (nat (n - u)) buf @ replicate (nat u) NUL @ drop (nat n) kb)"
    using len n kb by (simp only: mem_write_def overlay_def) (simp add: len)
  moreover have "s32 (n - u) = n - u" using n u by (intro s32_id) auto
  ultimately show ?thesis
    using u unfolding my_dev_write_def my_clamp [OF count(1,2)] Let_def n_def [symmetric] by simp
qed

lemma my_dev_read_ok:
  assumes K: "copy_to_user_doc K" and kb: "length kb = 1024" and count: "0 \<le> count" "count < 4294967296"
  defines "n \<equiv> min count 1024"
  defines "r \<equiv> n - copy_to_user K n"
  shows "my_dev_read K kb count 0 = Inr (r, take (nat r) kb, r) \<and> 0 \<le> r \<and> r \<le> n"
proof -
  have n: "0 \<le> n" "n \<le> 1024" using count by (simp_all add: n_def)
  then have r: "0 \<le> r" "r \<le> n" using K by (auto simp: copy_to_user_doc_def r_def)
  have "mem_read kb 0 n = Inr (take (nat n) kb)" using n kb by (simp add: mem_read_def)
  moreover have "s32 r = r" "s64 (0 + r) = r" using r n by (auto intro!: s32_id s64_id)
  moreover have "take (nat r) (take (nat n) kb) = take (nat r) kb" using r by (simp add: min_absorb1 nat_mono)
  ultimately show ?thesis using r
    unfolding my_dev_read_def my_clamp [OF count] Let_def n_def [symmetric] r_def [symmetric] by simp
qed

text \<open>
  No write or read leaves the buffer, whatever its size and whichever part of the user's
  memory faults. A write changes only the bytes it covers and puts the position back to 0, so
  a read on the same file sees it: all 1024 bytes, the new ones followed by whatever earlier
  writes left behind them; a second read then reports the end of the file.
\<close>

lemma mychardev_write_read:
  assumes K: "kapi_doc K" "no_fault K" and kb: "length kb = 1024"
    and count: "int (length buf) < 4294967296"
  shows "\<exists>kb'. my_dev_write K kb buf (int (length buf)) pos = Inr (min (int (length buf)) 1024, 0, kb') \<and>
    length kb' = 1024 \<and> kb' = take 1024 buf @ drop (length buf) kb \<and>
    my_dev_read K kb' 4096 0 = Inr (1024, kb', 1024) \<and> my_dev_read K kb' 4096 1024 = Inr (0, [], 1024)"
proof -
  define n where "n = min (int (length buf)) 1024"
  have n: "0 \<le> n" "n \<le> 1024" "take (nat n) buf = take 1024 buf" by (auto simp: n_def min_def nat_le_iff)
  have dn: "drop (nat n) kb = drop (length buf) kb" using kb by (auto simp: n_def min_def)
  have d: "copy_from_user_doc K" "copy_to_user_doc K" using K(1) by (simp_all add: kapi_doc_def)
  obtain u where u: "fst (copy_from_user K buf n) = u"
    "my_dev_write K kb buf (int (length buf)) pos =
      Inr (n - u, 0, take (nat (n - u)) buf @ replicate (nat u) NUL @ drop (nat n) kb)"
    using my_dev_write_ok [OF d(1) kb _ count order.refl] by (auto simp: n_def)
  have "n \<le> int (length buf)" by (simp add: n_def)
  then have "u = 0" using K(2) u(1) n(1) unfolding no_fault_def by metis
  define kb' where "kb' = take 1024 buf @ drop (length buf) kb"
  have w: "my_dev_write K kb buf (int (length buf)) pos = Inr (n, 0, kb')"
    using u(2) by (simp add: \<open>u = 0\<close> n(3) dn kb'_def)
  have len: "length kb' = 1024" using kb by (simp add: kb'_def min_def)
  have "copy_to_user K 1024 = 0" using K(2) by (simp add: no_fault_def)
  then have "my_dev_read K kb' 4096 0 = Inr (1024, kb', 1024)"
    using my_dev_read_ok [OF d(2) len, of 4096] len by simp
  moreover have "my_dev_read K kb' 4096 1024 = Inr (0, [], 1024)" by (simp add: my_dev_read_def)
  ultimately show ?thesis using w len by (auto simp: n_def kb'_def)
qed

lemma mychardev_write_read_example:
  "\<exists>kb'. my_dev_write plain_kapi (''old text'' @ replicate 1016 NUL) ''new'' 3 7 = Inr (3, 0, kb') \<and>
     my_dev_read plain_kapi kb' 4096 0 = Inr (1024, kb', 1024) \<and> take 8 kb' = ''new text''"
proof -
  have "length (''old text'' @ replicate 1016 NUL) = 1024" "int (length ''new'') < 4294967296" by simp_all
  from mychardev_write_read [OF plain_kapi_doc plain_kapi_no_fault this, of 7]
  obtain kb' where
    "my_dev_write plain_kapi (''old text'' @ replicate 1016 NUL) ''new'' (int (length ''new'')) 7 = Inr (min (int (length ''new'')) 1024, 0, kb')"
    "kb' = take 1024 ''new'' @ drop (length ''new'') (''old text'' @ replicate 1016 NUL)"
    "my_dev_read plain_kapi kb' 4096 0 = Inr (1024, kb', 1024)" by blast
  then show ?thesis by (intro exI [of _ kb']) simp
qed

section \<open>Any number of open files\<close>

text \<open>
  The table \<open>fops\<close> has a read and a write only, so that \<open>lseek\<close> is refused. The files share the
  buffer and have positions of their own.
\<close>

definition ESPIPE :: int where "ESPIPE = 29"

datatype my_call = MyRead nat int | MyWrite nat "char list" | MySeek nat int

datatype my_result = MyGot int "char list" | MyPut int | MyErr int

record my_sys =
  my_buf :: "char list"
  my_pos :: "nat \<Rightarrow> int"

fun my_fops :: "kapi \<Rightarrow> my_call \<Rightarrow> my_sys \<Rightarrow> (my_result \<times> my_sys) res" where
  "my_fops K (MyRead f count) s =
     and_then (my_dev_read K (my_buf s) count (my_pos s f)) (\<lambda>(r, bs, p).
       Inr (MyGot r bs, s\<lparr>my_pos := (my_pos s)(f := p)\<rparr>))"
| "my_fops K (MyWrite f u) s =
     and_then (my_dev_write K (my_buf s) u (int (length u)) (my_pos s f)) (\<lambda>(r, p, kb).
       Inr (MyPut r, \<lparr>my_buf = kb, my_pos = (my_pos s)(f := p)\<rparr>))"
| "my_fops K (MySeek f off) s = Inr (MyErr (- ESPIPE), s)"

fun my_run :: "kapi \<Rightarrow> my_call list \<Rightarrow> my_sys \<Rightarrow> (my_result list \<times> my_sys) res" where
  "my_run K [] s = Inr ([], s)"
| "my_run K (c # cs) s = and_then (my_fops K c s) (\<lambda>(r, s). and_then (my_run K cs s) (\<lambda>(rs, s). Inr (r # rs, s)))"

text \<open>
  What the device is meant to be: a memo of 1024 bytes. A file reads it once, from its start; a write
  replaces its beginning and lets the file read again.
\<close>

record memo =
  content :: "char list"
  seen :: "nat set"

fun memo_step :: "my_call \<Rightarrow> memo \<Rightarrow> my_result \<times> memo" where
  "memo_step (MyRead f count) n =
     (let bs = if f \<in> seen n then [] else take (nat count) (content n) in
      (MyGot (int (length bs)) bs, if bs = [] then n else n\<lparr>seen := insert f (seen n)\<rparr>))"
| "memo_step (MyWrite f u) n =
     (MyPut (min (int (length u)) 1024), \<lparr>content = take 1024 u @ drop (length u) (content n), seen = seen n - {f}\<rparr>)"
| "memo_step (MySeek f off) n = (MyErr (- ESPIPE), n)"

fun memo_run :: "my_call list \<Rightarrow> memo \<Rightarrow> my_result list \<times> memo" where
  "memo_run [] n = ([], n)"
| "memo_run (c # cs) n = (case memo_step c n of (r, n) \<Rightarrow> case memo_run cs n of (rs, n) \<Rightarrow> (r # rs, n))"

definition memo_of :: "my_sys \<Rightarrow> memo" where
  "memo_of s = \<lparr>content = my_buf s, seen = {f. 0 < my_pos s f}\<rparr>"

definition my_inv :: "my_sys \<Rightarrow> bool" where
  "my_inv s \<longleftrightarrow> length (my_buf s) = 1024 \<and> (\<forall>f. 0 \<le> my_pos s f)"

fun my_call_ok :: "my_call \<Rightarrow> bool" where
  "my_call_ok (MyRead f count) \<longleftrightarrow> 0 \<le> count \<and> count < 4294967296"
| "my_call_ok (MyWrite f u) \<longleftrightarrow> int (length u) < 4294967296"
| "my_call_ok (MySeek f off) \<longleftrightarrow> True"

text \<open>Whatever part of the user's memory faults, the invariant holds on.\<close>

lemma my_fops_safe:
  assumes K: "kapi_doc K" and inv: "my_inv s" and c: "my_call_ok c"
  shows "\<exists>r t. my_fops K c s = Inr (r, t) \<and> my_inv t"
proof (cases c)
  case (MyRead f count)
  show ?thesis
  proof (cases "0 < my_pos s f")
    case True
    with inv MyRead show ?thesis by (simp add: my_dev_read_def my_inv_def)
  next
    case False
    then have "my_pos s f = 0" using inv by (simp add: my_inv_def order.antisym)
    with my_dev_read_ok [of K "my_buf s" count] K inv c MyRead show ?thesis
      by (auto simp: my_inv_def kapi_doc_def)
  qed
next
  case (MyWrite f u)
  with my_dev_write_ok [of K "my_buf s" "int (length u)" u "my_pos s f"] K inv c show ?thesis
    by (auto simp: my_inv_def kapi_doc_def min_def nat_diff_distrib)
qed (use inv in simp)

lemma my_fops_refines:
  assumes K: "kapi_doc K" "no_fault K" and inv: "my_inv s" and c: "my_call_ok c"
  shows "\<exists>r t. my_fops K c s = Inr (r, t) \<and> my_inv t \<and> memo_step c (memo_of s) = (r, memo_of t)"
proof (cases c)
  case (MyRead f count)
  show ?thesis
  proof (cases "0 < my_pos s f")
    case True
    with inv MyRead show ?thesis by (simp add: my_dev_read_def my_inv_def memo_of_def)
  next
    case False
    then have p: "my_pos s f = 0" using inv by (simp add: my_inv_def order.antisym)
    have len: "length (my_buf s) = 1024" using inv by (simp add: my_inv_def)
    define n where "n = min count 1024"
    have "copy_to_user K n = 0" using K(2) by (simp add: no_fault_def)
    then have "my_dev_read K (my_buf s) count 0 = Inr (n, take (nat n) (my_buf s), n)" "0 \<le> n"
      using my_dev_read_ok [OF _ len, of K count] K(1) c MyRead by (auto simp: kapi_doc_def n_def)
    moreover have "take (nat n) (my_buf s) = take (nat count) (my_buf s)" using len by (auto simp: n_def min_def)
    moreover have "int (length (take (nat count) (my_buf s))) = n" using len c MyRead by (auto simp: n_def min_def)
    moreover from this have "take (nat count) (my_buf s) = [] \<longleftrightarrow> n = 0"
      by (metis length_0_conv of_nat_eq_0_iff)
    moreover have "{g. 0 < ((my_pos s)(f := n)) g} = (if n = 0 then {g. 0 < my_pos s g} else insert f {g. 0 < my_pos s g})"
      using \<open>0 \<le> n\<close> p by (auto split: if_splits)
    ultimately show ?thesis using inv MyRead p by (auto simp: my_inv_def memo_of_def Let_def)
  qed
next
  case (MyWrite f u)
  have len: "length (my_buf s) = 1024" using inv by (simp add: my_inv_def)
  from mychardev_write_read [OF K len, of u "my_pos s f"] c MyWrite obtain kb where
    "my_dev_write K (my_buf s) u (int (length u)) (my_pos s f) = Inr (min (int (length u)) 1024, 0, kb)"
    "length kb = 1024" "kb = take 1024 u @ drop (length u) (my_buf s)" by auto
  with inv MyWrite show ?thesis by (auto simp: my_inv_def memo_of_def)
qed (use inv in simp)

text \<open>
  C26: with user memory that is accessible, any sequence of calls on any number of open files
  behaves as the memo: the same results, byte for byte, and the same state. And whatever part of
  the user's memory faults, no call leaves the buffer.
\<close>

theorem mychardev_refines_memo:
  assumes "kapi_doc K" and "my_inv s" and "\<forall>c \<in> set cs. my_call_ok c"
  shows "\<exists>rs t. my_run K cs s = Inr (rs, t) \<and> my_inv t \<and> (no_fault K \<longrightarrow> memo_run cs (memo_of s) = (rs, memo_of t))"
  using assms(2,3)
proof (induction cs arbitrary: s)
  case (Cons c cs)
  from my_fops_safe [OF assms(1) Cons.prems(1), of c] Cons.prems(2) obtain r t where
    t: "my_fops K c s = Inr (r, t)" "my_inv t" by auto
  from Cons.IH [OF t(2)] Cons.prems(2) obtain rs u where
    u: "my_run K cs t = Inr (rs, u)" "my_inv u" "no_fault K \<longrightarrow> memo_run cs (memo_of t) = (rs, memo_of u)" by auto
  have "memo_step c (memo_of s) = (r, memo_of t)" if "no_fault K"
    using my_fops_refines [OF assms(1) that Cons.prems(1), of c] Cons.prems(2) t(1) by auto
  with t u show ?case by auto
qed simp

theorem mychardev_refines_memo_witness:
  "\<exists>rs t. my_run plain_kapi [MyWrite 0 ''hello'', MySeek 0 0, MyRead 1 5, MyRead 1 5, MyWrite 1 ''jo'', MyRead 1 5]
      \<lparr>my_buf = replicate 1024 NUL, my_pos = (\<lambda>_. 0)\<rparr> = Inr (rs, t) \<and>
    rs = [MyPut 5, MyErr (- 29), MyGot 5 ''hello'', MyGot 0 [], MyPut 2, MyGot 5 ''jollo'']"
proof -
  let ?cs = "[MyWrite 0 ''hello'', MySeek 0 0, MyRead 1 5, MyRead 1 5, MyWrite 1 ''jo'', MyRead 1 5]"
  let ?s = "\<lparr>my_buf = replicate 1024 NUL, my_pos = (\<lambda>_. 0)\<rparr>"
  have "my_inv ?s" "\<forall>c \<in> set ?cs. my_call_ok c" by (simp_all add: my_inv_def)
  from mychardev_refines_memo [OF plain_kapi_doc this] obtain rs t where
    r: "my_run plain_kapi ?cs ?s = Inr (rs, t)" "memo_run ?cs (memo_of ?s) = (rs, memo_of t)"
    using plain_kapi_no_fault by blast
  have "fst (memo_run ?cs (memo_of ?s)) = [MyPut 5, MyErr (- 29), MyGot 5 ''hello'', MyGot 0 [], MyPut 2, MyGot 5 ''jollo'']"
    by (simp add: memo_of_def Let_def ESPIPE_def)
  with r show ?thesis by simp
qed

section \<open>Init and exit\<close>

text \<open>Every result is dropped; what was not granted is not acquired.\<close>

definition my_mychar_init :: "chr_env \<Rightarrow> int \<times> kcall list" where
  "my_mychar_init e =
     (let c = (if alloc_chrdev_region e = 0 then [Acq KChrdevRegion] else []);
          c = c @ (if cdev_add e = 0 then [Acq KCdev] else []);
          c = c @ (if class_create e = Ptr then [Acq KClass] else []);
          c = c @ (if device_create e = Ptr then [Acq KDevice] else []) in
      (0, c))"

definition my_mychar_exit :: "kcall list" where
  "my_mychar_exit = [Rel KDevice, Rel KClass, Rel KCdev, Rel KChrdevRegion]"

definition all_granted :: "chr_env \<Rightarrow> bool" where
  "all_granted e \<longleftrightarrow> alloc_chrdev_region e = 0 \<and> cdev_add e = 0 \<and> class_create e = Ptr \<and> device_create e = Ptr"

interpretation mychr: kernel_module my_mychar_init "\<lambda>_. my_mychar_exit" all_granted
  by unfold_locales (simp_all add: my_mychar_init_def my_mychar_exit_def all_granted_def Let_def)

text \<open>
  The life cycle is balanced exactly when the kernel grants everything the init function
  asks for. It reports success in any case, so after any failure the module stays loaded and
  its exit function releases something that was never acquired.
\<close>

lemma mychardev_balanced_iff_granted:
  "fst (my_mychar_init e) = 0 \<and>
   (replay (load_unload my_mychar_init (\<lambda>_. my_mychar_exit) e) [] = Some [] \<longleftrightarrow> all_granted e)"
proof
  show "fst (my_mychar_init e) = 0" by (simp add: my_mychar_init_def Let_def)
  show "replay (load_unload my_mychar_init (\<lambda>_. my_mychar_exit) e) [] = Some [] \<longleftrightarrow> all_granted e"
  proof
    assume "all_granted e"
    then show "replay (load_unload my_mychar_init (\<lambda>_. my_mychar_exit) e) [] = Some []"
      by (rule mychr.load_unload_balanced)
  next
    assume "replay (load_unload my_mychar_init (\<lambda>_. my_mychar_exit) e) [] = Some []"
    then show "all_granted e"
      by (auto simp: load_unload_def my_mychar_init_def my_mychar_exit_def all_granted_def Let_def split: if_splits)
  qed
qed

end
