(* ===== verification/SharedMem.thy ===== *)
theory SharedMem
  imports LockSystem
begin

text \<open>
  Processes that share memory under a POSIX semaphore: \<open>C/posix_shm_init.c\<close>,
  \<open>C/posix_shm_worker.c\<close>, \<open>C/posix_shm_cleanup.c\<close> with \<open>C/posix_shm.h\<close>. The increment and the
  write to shared memory are steps of their own, so that a missing lock would show as a lost
  update. What happens when calls fail or workers are killed is in \<open>PosixCrash\<close>.
\<close>

section \<open>The POSIX workers\<close>

definition BUF_SIZE :: nat where "BUF_SIZE = 4096"

record mybuf =
  mb_count :: int
  mb_buf :: "char list"

text \<open>
  \<open>main\<close> of \<open>posix_shm_init.c\<close> when every call succeeds: the counter and the first byte are
  reset; the semaphore is created with value 1, or kept as it is when the name exists.
\<close>

definition posix_shm_init :: "nat names \<Rightarrow> string \<Rightarrow> mybuf \<Rightarrow> nat option \<times> nat names \<times> mybuf" where
  "posix_shm_init ns name mb =
     (let mb = mb\<lparr>mb_count := 0, mb_buf := overlay (mb_buf mb) 0 [NUL]\<rparr> in
      case sem_open ns name True 1 of (sem, ns) \<Rightarrow> (sem, ns, mb))"

definition posix_shm_cleanup :: "nat names \<Rightarrow> string \<Rightarrow> nat names" where
  "posix_shm_cleanup ns name = remove_name ns name"

definition worker_text :: "int \<Rightarrow> int \<Rightarrow> string" where
  "worker_text pid k = ''Hello from '' @ dec_int pid @ '' (count='' @ dec_int k @ '')''"

text \<open>
  Where a worker is: before its lock, with the lock, after the text was written, after the
  counter was loaded for the increment, after it was stored, after the unlock.
\<close>

datatype worker_pc = WStart | WLocked | WWritten | WLoaded int | WStored | WDone

record 'l workers =
  w_lock :: 'l
  w_mem :: mybuf
  w_pc :: "nat \<Rightarrow> worker_pc"

definition goto :: "nat \<Rightarrow> worker_pc \<Rightarrow> 'l workers \<Rightarrow> 'l workers" where
  "goto p c s = s\<lparr>w_pc := (w_pc s)(p := c)\<rparr>"

inductive worker_step :: "(nat \<Rightarrow> 'l \<Rightarrow> 'l option) \<Rightarrow> (nat \<Rightarrow> 'l \<Rightarrow> 'l option) \<Rightarrow> (nat \<Rightarrow> int) \<Rightarrow> 'l workers \<Rightarrow> 'l workers \<Rightarrow> bool"
  for acq rel pid where
  w_wait: "w_pc s p = WStart \<Longrightarrow> acq p (w_lock s) = Some l \<Longrightarrow>
    worker_step acq rel pid s (goto p WLocked (s\<lparr>w_lock := l\<rparr>))"
| w_write: "w_pc s p = WLocked \<Longrightarrow>
    mem_write (mb_buf (w_mem s)) 0 (snprintf_stored BUF_SIZE (worker_text (pid p) (mb_count (w_mem s))) @ [NUL]) = Inr b \<Longrightarrow>
    worker_step acq rel pid s (goto p WWritten (s\<lparr>w_mem := (w_mem s)\<lparr>mb_buf := b\<rparr>\<rparr>))"
| w_load: "w_pc s p = WWritten \<Longrightarrow>
    worker_step acq rel pid s (goto p (WLoaded (mb_count (w_mem s))) s)"
| w_store: "w_pc s p = WLoaded k \<Longrightarrow>
    worker_step acq rel pid s (goto p WStored (s\<lparr>w_mem := (w_mem s)\<lparr>mb_count := u32 (k + 1)\<rparr>\<rparr>))"
| w_post: "w_pc s p = WStored \<Longrightarrow> rel p (w_lock s) = Some l \<Longrightarrow>
    worker_step acq rel pid s (goto p WDone (s\<lparr>w_lock := l\<rparr>))"

inductive_cases worker_stepE: "worker_step acq rel pid s t"

abbreviation worker_reach where "worker_reach acq rel pid \<equiv> (worker_step acq rel pid)\<^sup>*\<^sup>*"

lemma goto_simps [simp]:
  "w_pc (goto p c s) = (w_pc s)(p := c)" "w_lock (goto p c s) = w_lock s" "w_mem (goto p c s) = w_mem s"
  by (simp_all add: goto_def)

text \<open>A pid and a \<open>size_t\<close> printed in decimal always fit the buffer.\<close>

lemma worker_text_length: "length (worker_text (s32 i) (u32 k)) < BUF_SIZE"
proof -
  have "nat (u32 k) < 10 ^ 10" using u32_range [of k] by simp
  then have "length (dec_int (u32 k)) \<le> 10"
    using length_dec_nat [of "nat (u32 k)" 10] u32_range(1) [of k] by (simp add: dec_int_def)
  then show ?thesis using length_dec_int_s32 [of i] by (simp add: worker_text_def BUF_SIZE_def)
qed

definition finished :: "nat \<Rightarrow> 'l workers \<Rightarrow> nat" where
  "finished n s = card {p. p < n \<and> w_pc s p = WDone}"

definition busy :: "worker_pc \<Rightarrow> bool" where
  "busy c \<longleftrightarrow> c \<noteq> WStart \<and> c \<noteq> WDone"

lemma busy_simps [simp]: "\<not> busy WStart" "\<not> busy WDone" "busy WLocked" "busy WWritten" "busy (WLoaded k)" "busy WStored"
  by (simp_all add: busy_def)

lemma finished_goto:
  "p < n \<Longrightarrow> w_pc s p \<noteq> WDone \<Longrightarrow> finished n (goto p WDone s) = Suc (finished n s)"
  "w_pc s p \<noteq> WDone \<Longrightarrow> c \<noteq> WDone \<Longrightarrow> finished n (goto p c s) = finished n s"
proof -
  assume "p < n" "w_pc s p \<noteq> WDone"
  moreover have "{q. q < n \<and> w_pc (goto p WDone s) q = WDone} = insert p {q. q < n \<and> w_pc s q = WDone}"
    using \<open>p < n\<close> by auto
  ultimately show "finished n (goto p WDone s) = Suc (finished n s)" by (simp add: finished_def)
next
  assume "w_pc s p \<noteq> WDone" "c \<noteq> WDone"
  then have "{q. q < n \<and> w_pc (goto p c s) q = WDone} = {q. q < n \<and> w_pc s q = WDone}" by auto
  then show "finished n (goto p c s) = finished n s" by (simp add: finished_def)
qed

text \<open>What the holder of the lock has already done.\<close>

fun wrote :: "worker_pc \<Rightarrow> bool" where
  "wrote WWritten = True" | "wrote (WLoaded k) = True" | "wrote WStored = True"
| "wrote WStart = False" | "wrote WLocked = False" | "wrote WDone = False"

definition ahead :: "(worker_pc \<Rightarrow> bool) \<Rightarrow> 'l workers \<Rightarrow> nat option \<Rightarrow> int" where
  "ahead f s h = (case h of None \<Rightarrow> 0 | Some p \<Rightarrow> if f (w_pc s p) then 1 else 0)"

lemma ahead_simps [simp]: "ahead f s None = 0" "ahead f s (Some p) = (if f (w_pc s p) then 1 else 0)"
  by (simp_all add: ahead_def)

text \<open>The buffer holds the text that some worker below \<open>n\<close> writes when it finds the counter
  at \<open>m - 1\<close>, if any has written.\<close>

definition last_text :: "nat \<Rightarrow> (nat \<Rightarrow> int) \<Rightarrow> int \<Rightarrow> char list \<Rightarrow> bool" where
  "last_text n pid m b \<longleftrightarrow> m = 0 \<or> (\<exists>p < n. c_str b = worker_text (pid p) (u32 (m - 1)))"

lemma worker_text_no_nul: "NUL \<notin> set (worker_text i k)"
  using dec_int_no_nul [of i] dec_int_no_nul [of k] by (simp add: worker_text_def) (simp add: NUL_def)

lemma worker_write:
  assumes "length b = BUF_SIZE" "mem_write b 0 (snprintf_stored BUF_SIZE (worker_text (s32 i) (u32 k)) @ [NUL]) = Inr b'"
  shows "length b' = BUF_SIZE" "c_str b' = worker_text (s32 i) (u32 k)"
proof -
  show "length b' = BUF_SIZE" using assms mem_write_length by metis
  have "snprintf_stored BUF_SIZE (worker_text (s32 i) (u32 k)) = worker_text (s32 i) (u32 k)"
    using worker_text_length [of i k] by (simp add: snprintf_stored_def)
  then have "b' = worker_text (s32 i) (u32 k) @ NUL # drop (Suc (length (worker_text (s32 i) (u32 k)))) b"
    using assms(2) by (simp add: mem_write_Inr overlay_def)
  then show "c_str b' = worker_text (s32 i) (u32 k)" by (simp add: c_str_app worker_text_no_nul)
qed

context lock
begin

text \<open>
  The invariant: only the holder is between lock and unlock; the counter is the number of
  finished workers, plus one once the holder has stored it; a loaded value is still current.
\<close>

definition worker_inv :: "nat \<Rightarrow> (nat \<Rightarrow> int) \<Rightarrow> 'l workers \<Rightarrow> nat option \<Rightarrow> bool" where
  "worker_inv n pid s h \<longleftrightarrow> repr (w_lock s) h \<and> length (mb_buf (w_mem s)) = BUF_SIZE \<and>
     (\<forall>p. busy (w_pc s p) \<longleftrightarrow> h = Some p) \<and> (\<forall>p \<ge> n. w_pc s p = WDone) \<and>
     mb_count (w_mem s) = u32 (int (finished n s) + ahead (\<lambda>c. c = WStored) s h) \<and>
     (\<forall>p k. w_pc s p = WLoaded k \<longrightarrow> k = mb_count (w_mem s)) \<and>
     last_text n pid (int (finished n s) + ahead wrote s h) (mb_buf (w_mem s))"

lemma worker_inv_holder: "worker_inv n pid s h \<Longrightarrow> busy (w_pc s p) \<Longrightarrow> h = Some p"
  by (simp add: worker_inv_def)

lemma worker_inv_others:
  assumes "worker_inv n pid s (Some p)" "q \<noteq> p"
  shows "w_pc s q \<noteq> WLoaded k" "\<not> busy (w_pc s q)"
  using assms by (auto simp: worker_inv_def)

lemma worker_inv_below: "worker_inv n pid s h \<Longrightarrow> w_pc s p \<noteq> WDone \<Longrightarrow> p < n"
  by (meson not_le worker_inv_def)

lemma worker_inv_step:
  assumes inv: "worker_inv n pid s h" and pid: "\<forall>p. pid p = s32 (pid p)" and st: "worker_step acq rel pid s t"
  shows "\<exists>h. worker_inv n pid t h"
  using st
proof (cases rule: worker_step.cases)
  case (w_wait p l)
  have h: "h = None"
  proof (cases h)
    case (Some q)
    with inv have "acq p (w_lock s) = None" by (auto simp: worker_inv_def acq_held)
    with w_wait show ?thesis by simp
  qed
  have "repr l (Some p)" using acq_free [of "w_lock s" p] inv w_wait by (auto simp: worker_inv_def h)
  moreover have "finished n t = finished n s" using w_wait finished_goto(2) [of s p WLocked n]
    by (simp add: finished_def)
  moreover have "p < n" using worker_inv_below [OF inv, of p] w_wait by simp
  ultimately have "worker_inv n pid t (Some p)" using inv w_wait
    by (auto simp: worker_inv_def h)
  then show ?thesis ..
next
  case (w_write p b)
  then have h: "h = Some p" using worker_inv_holder [OF inv, of p] by simp
  have fin: "finished n t = finished n s" using w_write by (simp add: finished_def) (metis fun_upd_apply worker_pc.distinct)
  have k: "mb_count (w_mem s) = u32 (int (finished n s))" "length (mb_buf (w_mem s)) = BUF_SIZE"
    using inv w_write by (auto simp: worker_inv_def h)
  have "length b = BUF_SIZE" "c_str b = worker_text (pid p) (u32 (int (finished n s)))"
    using worker_write [OF k(2), of "pid p" "int (finished n s)" b] w_write(3) pid by (simp_all add: k(1))
  moreover have "p < n" using worker_inv_below [OF inv, of p] w_write by simp
  ultimately have "worker_inv n pid t (Some p)"
    using inv w_write fin k worker_inv_others [OF inv [unfolded h]] by (auto simp: worker_inv_def h last_text_def)
  then show ?thesis ..
next
  case (w_load p)
  then have h: "h = Some p" using worker_inv_holder [OF inv, of p] by simp
  have "finished n t = finished n s" using w_load finished_goto(2) [of s p _ n] by simp
  then have "worker_inv n pid t (Some p)"
    using inv w_load worker_inv_others [OF inv [unfolded h]] by (auto simp: worker_inv_def h)
  then show ?thesis ..
next
  case (w_store p k)
  then have h: "h = Some p" using worker_inv_holder [OF inv, of p] by simp
  have fin: "finished n t = finished n s" using w_store by (simp add: finished_def) (metis fun_upd_apply worker_pc.distinct)
  have "k = u32 (int (finished n s))" using inv w_store by (auto simp: worker_inv_def h)
  then have "u32 (k + 1) = u32 (int (finished n s) + 1)" by (simp add: u32_mod mod_add_left_eq)
  then have "worker_inv n pid t (Some p)"
    using inv w_store fin worker_inv_others [OF inv [unfolded h]] by (auto simp: worker_inv_def h)
  then show ?thesis ..
next
  case (w_post p l)
  then have h: "h = Some p" using worker_inv_holder [OF inv, of p] by simp
  have "repr l None" using rel_held [of "w_lock s" p] inv w_post by (auto simp: worker_inv_def h)
  moreover have "p < n" using worker_inv_below [OF inv, of p] w_post by simp
  then have "finished n t = Suc (finished n s)" using w_post finished_goto(1) [of p n s] by (simp add: finished_def)
  ultimately have "worker_inv n pid t None"
    using inv w_post worker_inv_others [OF inv [unfolded h]] by (auto simp: worker_inv_def h add.commute)
  then show ?thesis ..
qed

lemma worker_inv_reach:
  assumes "worker_reach acq rel pid s t" "worker_inv n pid s h" "\<forall>p. pid p = s32 (pid p)"
  shows "\<exists>h. worker_inv n pid t h"
  using assms(1)
proof induction
  case (step t u)
  then show ?case using worker_inv_step assms(3) by blast
qed (use assms(2) in blast)

text \<open>The holder can go on, and without a holder every worker that has not finished.\<close>

lemma worker_moves:
  assumes inv: "worker_inv n pid s h" and p: "w_pc s p \<noteq> WDone" and pid: "\<forall>p. pid p = s32 (pid p)"
  shows "\<exists>t q c. worker_step acq rel pid s t \<and> w_pc t = (w_pc s)(q := c) \<and> (q = p \<or> busy (w_pc s q))"
proof (cases h)
  case None
  then have "w_pc s p = WStart" "repr (w_lock s) None" using inv p by (auto simp: worker_inv_def busy_def)
  with acq_free [of "w_lock s" p] obtain l where
    "worker_step acq rel pid s (goto p WLocked (s\<lparr>w_lock := l\<rparr>))" by (blast intro: worker_step.w_wait)
  moreover have "w_pc (goto p WLocked (s\<lparr>w_lock := l\<rparr>)) = (w_pc s)(p := WLocked)" by simp
  ultimately show ?thesis by blast
next
  case (Some q)
  then have q: "busy (w_pc s q)" "repr (w_lock s) (Some q)" "length (mb_buf (w_mem s)) = BUF_SIZE"
    using inv by (auto simp: worker_inv_def)
  have pcs: "w_pc (s\<lparr>w_mem := m\<rparr>) = w_pc s" "w_pc (s\<lparr>w_lock := l\<rparr>) = w_pc s" for m l by simp_all
  have "\<exists>c u. worker_step acq rel pid s (goto q c u) \<and> w_pc u = w_pc s"
  proof (cases "w_pc s q")
    case WLocked
    have "mb_count (w_mem s) = u32 (int (finished n s))" using inv WLocked by (simp add: worker_inv_def Some)
    then have "length (snprintf_stored BUF_SIZE (worker_text (pid q) (mb_count (w_mem s))) @ [NUL]) \<le> BUF_SIZE"
      using worker_text_length [of "pid q" "int (finished n s)"] pid by (simp add: snprintf_stored_def)
    with q(3) obtain b where
      "mem_write (mb_buf (w_mem s)) 0 (snprintf_stored BUF_SIZE (worker_text (pid q) (mb_count (w_mem s))) @ [NUL]) = Inr b"
      by (simp add: mem_write_def)
    with WLocked have "worker_step acq rel pid s (goto q WWritten (s\<lparr>w_mem := (w_mem s)\<lparr>mb_buf := b\<rparr>\<rparr>))"
      by (rule worker_step.w_write)
    then show ?thesis using pcs(1) by blast
  next
    case WStored
    from rel_held [OF q(2)] obtain l where "rel q (w_lock s) = Some l" by blast
    with WStored have "worker_step acq rel pid s (goto q WDone (s\<lparr>w_lock := l\<rparr>))" by (rule worker_step.w_post)
    then show ?thesis using pcs(2) by blast
  next
    case (WLoaded k)
    then have "worker_step acq rel pid s (goto q WStored (s\<lparr>w_mem := (w_mem s)\<lparr>mb_count := u32 (k + 1)\<rparr>\<rparr>))"
      by (rule worker_step.w_store)
    then show ?thesis using pcs(1) by blast
  next
    case WWritten
    then have "worker_step acq rel pid s (goto q (WLoaded (mb_count (w_mem s))) s)" by (rule worker_step.w_load)
    then show ?thesis by blast
  qed (use q(1) in auto)
  then show ?thesis using q(1) goto_simps(1) by metis
qed

lemma worker_progress:
  "worker_inv n pid s h \<Longrightarrow> w_pc s p \<noteq> WDone \<Longrightarrow> \<forall>p. pid p = s32 (pid p) \<Longrightarrow>
   \<exists>t. worker_step acq rel pid s t"
  using worker_moves by blast

end

text \<open>\<open>n\<close> workers about to start on what the init program left.\<close>

definition workers_start :: "nat \<Rightarrow> 'l \<Rightarrow> mybuf \<Rightarrow> 'l workers" where
  "workers_start n l mb = \<lparr>w_lock = l, w_mem = mb, w_pc = (\<lambda>p. if p < n then WStart else WDone)\<rparr>"

text \<open>
  C8: after the init program has created the semaphore, any number of workers in any
  interleaving of their steps exclude each other, never all wait, and when all have finished
  the counter is their number (modulo 2 to the 32): no increment is lost although load and
  store are separate steps. The text in the buffer is then that of a worker that found the
  counter at one less.
\<close>

theorem posix_workers_count:
  assumes ns: "names_inv ns" "link ns name = None" and mb: "length (mb_buf mb) = BUF_SIZE"
    and init: "posix_shm_init ns name mb = (Some sem, ns', mb')" "obj ns' sem = Some v"
    and pid: "\<forall>p. pid p = s32 (pid p)"
    and run: "worker_reach pi_sem_wait pi_sem_post pid (workers_start n v mb') s"
  shows "(\<forall>p q. busy (w_pc s p) \<and> busy (w_pc s q) \<longrightarrow> p = q) \<and>
    ((\<exists>p. w_pc s p \<noteq> WDone) \<longrightarrow> (\<exists>t. worker_step pi_sem_wait pi_sem_post pid s t)) \<and>
    ((\<forall>p. w_pc s p = WDone) \<longrightarrow> mb_count (w_mem s) = u32 (int n) \<and>
       (n = 0 \<or> (\<exists>p < n. c_str (mb_buf (w_mem s)) = worker_text (pid p) (u32 (int n - 1)))))"
proof -
  obtain i ns1 where cr: "create ns name (1::nat) = (i, ns1)" by fastforce
  have "sem_open ns name True 1 = (Some i, ns1)" using cr by (simp add: sem_open_def ns(2))
  then have "v = 1" using init names_inv_create [OF ns(1) cr] by (auto simp: posix_shm_init_def)
  moreover have "mb_count mb' = 0" "length (mb_buf mb') = BUF_SIZE"
    using init(1) mb by (auto simp: posix_shm_init_def BUF_SIZE_def Let_def split: prod.splits)
  moreover have "finished n (workers_start n v mb') = 0" by (simp add: finished_def workers_start_def)
  ultimately have "sem.worker_inv n pid (workers_start n v mb') None"
    by (auto simp: sem.worker_inv_def sem_repr_def workers_start_def last_text_def u32_id)
  from sem.worker_inv_reach [OF run this pid] obtain h where inv: "sem.worker_inv n pid s h" ..
  have "mb_count (w_mem s) = u32 (int n) \<and>
       (n = 0 \<or> (\<exists>p < n. c_str (mb_buf (w_mem s)) = worker_text (pid p) (u32 (int n - 1))))"
    if all_done: "\<forall>p. w_pc s p = WDone"
  proof -
    have "h = None" using inv all_done by (cases h) (auto simp: sem.worker_inv_def)
    moreover have "finished n s = n" using all_done by (simp add: finished_def)
    ultimately show ?thesis using inv by (simp add: sem.worker_inv_def last_text_def)
  qed
  then show ?thesis
    using sem.worker_inv_holder [OF inv] sem.worker_progress [OF inv _ pid] by (metis option.inject)
qed

definition blank_mem :: mybuf where
  "blank_mem = \<lparr>mb_count = 0, mb_buf = replicate BUF_SIZE NUL\<rparr>"

lemma blank_mem_init: "length (mb_buf blank_mem) = BUF_SIZE"
    "posix_shm_init no_names name blank_mem = (Some 0, snd (create no_names name 1), blank_mem)"
proof -
  have "overlay (replicate (Suc n) NUL) 0 [NUL] = replicate (Suc n) NUL" for n by (simp add: overlay_def)
  from this [of 4095] have "overlay (replicate BUF_SIZE NUL) 0 [NUL] = replicate BUF_SIZE NUL"
    unfolding BUF_SIZE_def by simp
  then show "posix_shm_init no_names name blank_mem = (Some 0, snd (create no_names name 1), blank_mem)"
    by (simp add: posix_shm_init_def sem_open_def no_names_def create_def blank_mem_def)
qed (simp add: blank_mem_def)

theorem posix_workers_count_witness:
  "\<exists>s. worker_reach pi_sem_wait pi_sem_post (\<lambda>p. 100) (workers_start 2 1 blank_mem) s \<and>
     w_pc s 1 = WLocked \<and> (\<exists>t. worker_step pi_sem_wait pi_sem_post (\<lambda>p. 100) s t)"
proof -
  let ?s = "goto 1 WLocked ((workers_start 2 1 blank_mem)\<lparr>w_lock := 0\<rparr>)"
  have "worker_step pi_sem_wait pi_sem_post (\<lambda>p. 100) (workers_start 2 1 blank_mem) ?s"
    by (rule w_wait) (simp_all add: workers_start_def pi_sem_wait_def)
  then have run: "worker_reach pi_sem_wait pi_sem_post (\<lambda>p. 100) (workers_start 2 1 blank_mem) ?s" by blast
  have l: "link no_names ''/my_sem'' = None" by (simp add: no_names_def)
  have ob: "obj (snd (create no_names ''/my_sem'' 1)) 0 = Some 1" by (simp add: create_def no_names_def)
  have pid: "\<forall>p. (100::int) = s32 100" by (simp add: s32_id)
  have "\<exists>p. w_pc ?s p \<noteq> WDone" by (intro exI [of _ 1]) simp
  then have "\<exists>t. worker_step pi_sem_wait pi_sem_post (\<lambda>p. 100) ?s t"
    using posix_workers_count [OF names_inv_no_names l blank_mem_init ob pid run] by blast
  with run show ?thesis by (intro exI [of _ ?s]) simp
qed

end
