(* ===== verification/Select.thy ===== *)
theory Select
  imports Prelude
begin

text \<open>
  The three programs that wait for two descriptors with \<open>select\<close>: \<open>C/select.c\<close> (standard
  input and a FIFO), \<open>C/select_urandom.c\<close> and \<open>C/select_simple.c\<close> (standard input and
  \<open>/dev/urandom\<close>). An input is one return of \<open>select\<close> with the results of the reads it leads
  to; a turn yields what is printed and whether the loop goes on.
\<close>

section \<open>Inputs and output\<close>

text \<open>A read fails with an error number or returns bytes, none at the end of the input.\<close>

datatype rd = RdErr int | RdOk "char list"

datatype sel = SelErr int | Ready "rd option" "rd option"

datatype sel_out = Typed string | FromFifo string | Random "string" | InputClosed

text \<open>Reading at most 255 bytes into a buffer and terminating them.\<close>

definition fill :: "char list \<Rightarrow> char list \<Rightarrow> char list res" where
  "fill buf bs = and_then (mem_write buf 0 bs) (\<lambda>buf. mem_write buf (int (length bs)) [NUL])"

lemma fill_ok:
  assumes "length bs < length buf"
  shows "\<exists>buf'. fill buf bs = Inr buf' \<and> length buf' = length buf \<and> c_str buf' = c_str bs"
proof -
  define b1 where "b1 = overlay buf 0 bs"
  define b2 where "b2 = overlay b1 (length bs) [NUL]"
  have "fill buf bs = Inr b2" "length b2 = length buf"
    using assms by (auto simp: fill_def mem_write_def b1_def b2_def)
  moreover have "b2 = bs @ NUL # drop (Suc (length bs)) buf" by (simp add: b2_def b1_def overlay_def)
  then have "c_str b2 = c_str bs" by (simp add: c_str_upto)
  ultimately show ?thesis by blast
qed

section \<open>select.c\<close>

record sel_bufs =
  stdin_buf :: "char list"
  other_buf :: "char list"

definition on_stdin :: "sel_bufs \<Rightarrow> rd option \<Rightarrow> (sel_out list \<times> bool \<times> sel_bufs) res" where
  "on_stdin st r = (case r of
     None \<Rightarrow> Inr ([], True, st)
   | Some (RdErr e) \<Rightarrow> Inr ([], False, st)
   | Some (RdOk bs) \<Rightarrow>
       if bs = [] then Inr ([InputClosed], False, st)
       else and_then (fill (stdin_buf st) bs) (\<lambda>b. Inr ([Typed (c_str b)], True, st\<lparr>stdin_buf := b\<rparr>)))"

definition on_fifo :: "sel_bufs \<Rightarrow> rd option \<Rightarrow> (sel_out list \<times> bool \<times> sel_bufs) res" where
  "on_fifo st r = (case r of
     None \<Rightarrow> Inr ([], True, st)
   | Some (RdErr e) \<Rightarrow> if e = EAGAIN then Inr ([], True, st) else Inr ([], False, st)
   | Some (RdOk bs) \<Rightarrow>
       if bs = [] then Inr ([], True, st)
       else and_then (fill (other_buf st) bs) (\<lambda>b. Inr ([FromFifo (c_str b)], True, st\<lparr>other_buf := b\<rparr>)))"

text \<open>One turn of a loop whose second descriptor is handled by \<open>other\<close>.\<close>

definition sel_turn :: "(sel_bufs \<Rightarrow> rd option \<Rightarrow> (sel_out list \<times> bool \<times> sel_bufs) res) \<Rightarrow> sel_bufs \<Rightarrow> sel \<Rightarrow>
    (sel_out list \<times> bool \<times> sel_bufs) res" where
  "sel_turn other st t = (case t of
     SelErr e \<Rightarrow> Inr ([], e = EINTR, st)
   | Ready i f \<Rightarrow>
       and_then (on_stdin st i) (\<lambda>(o1, go, st).
       if go then and_then (other st f) (\<lambda>(o2, go, st). Inr (o1 @ o2, go, st))
       else Inr (o1, False, st)))"

text \<open>The loop over the given turns; the flag is false once the loop was left.\<close>

fun sel_loop :: "(sel_bufs \<Rightarrow> rd option \<Rightarrow> (sel_out list \<times> bool \<times> sel_bufs) res) \<Rightarrow> sel_bufs \<Rightarrow> sel list \<Rightarrow>
    (sel_out list \<times> bool) res" where
  "sel_loop other st [] = Inr ([], True)"
| "sel_loop other st (t # ts) =
     and_then (sel_turn other st t) (\<lambda>(os, go, st).
     if go then and_then (sel_loop other st ts) (\<lambda>(os', go). Inr (os @ os', go)) else Inr (os, False))"

text \<open>
  \<open>main\<close>: \<open>exists\<close> is \<open>access\<close>, \<open>made\<close> the result of \<open>mkfifo\<close>, \<open>rd_fd\<close> and \<open>wr_fd\<close> those of
  the two \<open>open\<close> calls. The result has the exit status (\<open>None\<close> while running) and the
  clean-up calls.
\<close>

datatype cleanup = CloseFd int | UnlinkFifo

definition select_main :: "bool \<Rightarrow> int \<Rightarrow> int \<Rightarrow> int \<Rightarrow> sel_bufs \<Rightarrow> sel list \<Rightarrow> (sel_out list \<times> int option \<times> cleanup list) res" where
  "select_main fifo_exists made rd_fd wr_fd st ts =
     (if \<not> fifo_exists \<and> made < 0 then Inr ([], Some 1, [])
      else if rd_fd < 0 then Inr ([], Some 1, [])
      else if wr_fd < 0 then Inr ([], Some 1, [CloseFd rd_fd])
      else and_then (sel_loop on_fifo st ts) (\<lambda>(os, go).
        if go then Inr (os, None, []) else Inr (os, Some 0, [CloseFd rd_fd, CloseFd wr_fd, UnlinkFifo])))"

section \<open>select_urandom.c\<close>

definition hex_digit :: "nat \<Rightarrow> char" where
  "hex_digit n = (if n < 10 then char_of (48 + n) else char_of (87 + n))"

definition hex2 :: "char \<Rightarrow> string" where
  "hex2 c = [hex_digit (of_char c div 16), hex_digit (of_char c mod 16)]"

definition on_urandom :: "sel_bufs \<Rightarrow> rd option \<Rightarrow> (sel_out list \<times> bool \<times> sel_bufs) res" where
  "on_urandom st r = (case r of
     None \<Rightarrow> Inr ([], True, st)
   | Some (RdErr e) \<Rightarrow> Inr ([], False, st)
   | Some (RdOk bs) \<Rightarrow>
       and_then (mem_write (other_buf st) 0 bs) (\<lambda>b.
       and_then (mem_read b 0 (int (length bs))) (\<lambda>rs.
       Inr (if bs = [] then [] else [Random (concat (map (\<lambda>c. hex2 c @ '' '') rs))], True, st\<lparr>other_buf := b\<rparr>))))"

definition select_urandom_main :: "int \<Rightarrow> sel_bufs \<Rightarrow> sel list \<Rightarrow> (sel_out list \<times> int option \<times> cleanup list) res" where
  "select_urandom_main fd st ts =
     (if fd < 0 then Inr ([], Some 1, [])
      else and_then (sel_loop on_urandom st ts) (\<lambda>(os, go).
        if go then Inr (os, None, []) else Inr (os, Some 0, [CloseFd fd])))"

section \<open>select_simple.c\<close>

text \<open>
  The result of \<open>read\<close> on standard input is used as an index unchecked, that of the read of
  the random bytes is not looked at. \<open>buf\<close> and \<open>r\<close> are the uninitialised locals.
\<close>

definition read_count :: "rd \<Rightarrow> int" where
  "read_count r = (case r of RdErr e \<Rightarrow> -1 | RdOk bs \<Rightarrow> int (length bs))"

definition read_bytes :: "rd \<Rightarrow> char list" where
  "read_bytes r = (case r of RdErr e \<Rightarrow> [] | RdOk bs \<Rightarrow> bs)"

definition simple_turn :: "sel_bufs \<Rightarrow> sel \<Rightarrow> (sel_out list \<times> bool \<times> sel_bufs) res" where
  "simple_turn st t = (case t of
     SelErr e \<Rightarrow> Inr ([], False, st)
   | Ready i f \<Rightarrow>
       and_then (case i of None \<Rightarrow> Inr ([], st)
         | Some r \<Rightarrow>
             and_then (mem_write (stdin_buf st) 0 (read_bytes r)) (\<lambda>b.
             and_then (mem_write b (read_count r) [NUL]) (\<lambda>b.
             Inr ([Typed (c_str b)], st\<lparr>stdin_buf := b\<rparr>)))) (\<lambda>(o1, st).
       case f of None \<Rightarrow> Inr (o1, True, st)
       | Some r \<Rightarrow>
           and_then (mem_write (other_buf st) 0 (read_bytes r)) (\<lambda>b.
           and_then (mem_read b 0 8) (\<lambda>rs.
           Inr (o1 @ [Random (concat (map (\<lambda>c. '' '' @ hex2 c) rs))], True, st\<lparr>other_buf := b\<rparr>)))))"

section \<open>What a session prints\<close>

text \<open>What a turn prints, and whether it ends the loop, from its input alone.\<close>

definition typed_out :: "rd option \<Rightarrow> sel_out list" where
  "typed_out i = (case i of Some (RdOk bs) \<Rightarrow> if bs = [] then [InputClosed] else [Typed (c_str bs)] | _ \<Rightarrow> [])"

definition input_ends :: "rd option \<Rightarrow> bool" where
  "input_ends i = (case i of Some (RdErr e) \<Rightarrow> True | Some (RdOk bs) \<Rightarrow> bs = [] | None \<Rightarrow> False)"

definition fifo_out :: "rd option \<Rightarrow> sel_out list" where
  "fifo_out f = (case f of Some (RdOk bs) \<Rightarrow> if bs = [] then [] else [FromFifo (c_str bs)] | _ \<Rightarrow> [])"

definition fifo_ends :: "rd option \<Rightarrow> bool" where
  "fifo_ends f = (case f of Some (RdErr e) \<Rightarrow> e \<noteq> EAGAIN | _ \<Rightarrow> False)"

definition random_out :: "rd option \<Rightarrow> sel_out list" where
  "random_out f = (case f of Some (RdOk bs) \<Rightarrow> if bs = [] then [] else [Random (concat (map (\<lambda>c. hex2 c @ '' '') bs))] | _ \<Rightarrow> [])"

definition random_ends :: "rd option \<Rightarrow> bool" where
  "random_ends f = (case f of Some (RdErr e) \<Rightarrow> True | _ \<Rightarrow> False)"

fun turn_out :: "(rd option \<Rightarrow> sel_out list) \<Rightarrow> sel \<Rightarrow> sel_out list" where
  "turn_out other (SelErr e) = []"
| "turn_out other (Ready i f) = typed_out i @ (if input_ends i then [] else other f)"

fun turn_ends :: "(rd option \<Rightarrow> bool) \<Rightarrow> sel \<Rightarrow> bool" where
  "turn_ends other (SelErr e) = (e \<noteq> EINTR)"
| "turn_ends other (Ready i f) = (input_ends i \<or> other f)"

text \<open>The turns up to and including the first that ends the loop.\<close>

fun session :: "(sel \<Rightarrow> bool) \<Rightarrow> sel list \<Rightarrow> sel list" where
  "session ends [] = []"
| "session ends (t # ts) = t # (if ends t then [] else session ends ts)"

definition rd_ok :: "nat \<Rightarrow> rd option \<Rightarrow> bool" where
  "rd_ok n r = (case r of Some (RdOk bs) \<Rightarrow> length bs \<le> n | _ \<Rightarrow> True)"

fun sel_ok :: "nat \<Rightarrow> sel \<Rightarrow> bool" where
  "sel_ok n (SelErr e) = True"
| "sel_ok n (Ready i f) = (rd_ok 255 i \<and> rd_ok n f)"

lemma on_stdin_ok:
  assumes "length (stdin_buf st) = 256" "rd_ok 255 i"
  shows "\<exists>st'. on_stdin st i = Inr (typed_out i, \<not> input_ends i, st') \<and> length (stdin_buf st') = 256 \<and> other_buf st' = other_buf st"
proof -
  have "\<exists>b. fill (stdin_buf st) bs = Inr b \<and> length b = 256 \<and> c_str b = c_str bs" if "i = Some (RdOk bs)" for bs
    using fill_ok [of bs "stdin_buf st"] that assms by (simp add: rd_ok_def)
  then show ?thesis using assms(1)
    by (fastforce simp: on_stdin_def typed_out_def input_ends_def split: option.splits rd.splits)
qed

text \<open>A handler of the second descriptor that keeps to its buffer of \<open>m\<close> bytes.\<close>

definition handler_ok :: "nat \<Rightarrow> nat \<Rightarrow> (sel_bufs \<Rightarrow> rd option \<Rightarrow> (sel_out list \<times> bool \<times> sel_bufs) res) \<Rightarrow>
    (rd option \<Rightarrow> sel_out list) \<Rightarrow> (rd option \<Rightarrow> bool) \<Rightarrow> bool" where
  "handler_ok m n other out ends \<longleftrightarrow> (\<forall>st f. length (other_buf st) = m \<and> rd_ok n f \<longrightarrow>
     (\<exists>st'. other st f = Inr (out f, \<not> ends f, st') \<and> length (other_buf st') = m \<and> stdin_buf st' = stdin_buf st))"

lemma on_fifo_ok: "handler_ok 256 255 on_fifo fifo_out fifo_ends"
  unfolding handler_ok_def
proof (intro allI impI, elim conjE)
  fix st :: sel_bufs and f
  assume a: "length (other_buf st) = 256" "rd_ok 255 f"
  have "\<exists>b. fill (other_buf st) bs = Inr b \<and> length b = 256 \<and> c_str b = c_str bs" if "f = Some (RdOk bs)" for bs
    using fill_ok [of bs "other_buf st"] that a by (simp add: rd_ok_def)
  then show "\<exists>st'. on_fifo st f = Inr (fifo_out f, \<not> fifo_ends f, st') \<and> length (other_buf st') = 256 \<and> stdin_buf st' = stdin_buf st"
    using a(1) by (fastforce simp: on_fifo_def fifo_out_def fifo_ends_def split: option.splits rd.splits)
qed

lemma on_urandom_ok: "handler_ok 8 8 on_urandom random_out random_ends"
  unfolding handler_ok_def
proof (intro allI impI, elim conjE)
  fix st :: sel_bufs and f
  assume a: "length (other_buf st) = 8" "rd_ok 8 f"
  have "mem_write (other_buf st) 0 bs = Inr (overlay (other_buf st) 0 bs) \<and>
      mem_read (overlay (other_buf st) 0 bs) 0 (int (length bs)) = Inr bs \<and> length (overlay (other_buf st) 0 bs) = 8"
    if "f = Some (RdOk bs)" for bs
    using that a by (simp add: rd_ok_def mem_write_def mem_read_def) (simp add: overlay_def)
  then show "\<exists>st'. on_urandom st f = Inr (random_out f, \<not> random_ends f, st') \<and> length (other_buf st') = 8 \<and> stdin_buf st' = stdin_buf st"
    using a(1) by (fastforce simp: on_urandom_def random_out_def random_ends_def split: option.splits rd.splits)
qed

lemma sel_loop_session:
  assumes h: "handler_ok m n other out ends"
  shows "length (stdin_buf st) = 256 \<Longrightarrow> length (other_buf st) = m \<Longrightarrow> \<forall>t \<in> set ts. sel_ok n t \<Longrightarrow>
    sel_loop other st ts = Inr (concat (map (turn_out out) (session (turn_ends ends) ts)),
      \<not> (\<exists>t \<in> set ts. turn_ends ends t))"
proof (induction ts arbitrary: st)
  case (Cons t ts)
  have "\<exists>st'. sel_turn other st t = Inr (turn_out out t, \<not> turn_ends ends t, st') \<and>
      (\<not> turn_ends ends t \<longrightarrow> length (stdin_buf st') = 256 \<and> length (other_buf st') = m)"
  proof (cases t)
    case (SelErr e)
    then show ?thesis using Cons.prems by (simp add: sel_turn_def)
  next
    case (Ready i f)
    with Cons.prems have ok: "rd_ok 255 i" "rd_ok n f" by auto
    from on_stdin_ok [OF Cons.prems(1) ok(1)] obtain st1 where
      1: "on_stdin st i = Inr (typed_out i, \<not> input_ends i, st1)" "length (stdin_buf st1) = 256" "length (other_buf st1) = m"
      using Cons.prems(2) by auto
    obtain st2 where 2: "other st1 f = Inr (out f, \<not> ends f, st2)" "length (other_buf st2) = m" "stdin_buf st2 = stdin_buf st1"
      using h 1(3) ok(2) unfolding handler_ok_def by blast
    show ?thesis using 1 2 by (simp add: sel_turn_def Ready)
  qed
  then obtain st' where "sel_turn other st t = Inr (turn_out out t, \<not> turn_ends ends t, st')"
    "\<not> turn_ends ends t \<Longrightarrow> length (stdin_buf st') = 256 \<and> length (other_buf st') = m" by blast
  then show ?case using Cons by auto
qed simp

text \<open>
  C32: both programs print exactly what arrives, in order and per descriptor up to the first
  NUL byte, and stay within their buffers. They go on after an interrupted \<open>select\<close> (and the
  FIFO reader after an empty or would-block read) and leave the loop at the end of standard
  input or at any other error; then the status is 0, all descriptors are closed and the FIFO
  is removed.
\<close>

theorem select_programs_serve:
  assumes "0 \<le> rd_fd" "0 \<le> wr_fd" "fifo_exists \<or> 0 \<le> made" "length (stdin_buf st) = 256"
    and "length (other_buf st) = 256" "\<forall>t \<in> set ts. sel_ok 255 t"
    and "length (stdin_buf st') = 256" "length (other_buf st') = 8" "\<forall>t \<in> set ts'. sel_ok 8 t"
  shows "select_main fifo_exists made rd_fd wr_fd st ts =
      Inr (concat (map (turn_out fifo_out) (session (turn_ends fifo_ends) ts)),
        if \<exists>t \<in> set ts. turn_ends fifo_ends t then (Some 0, [CloseFd rd_fd, CloseFd wr_fd, UnlinkFifo]) else (None, [])) \<and>
    select_urandom_main rd_fd st' ts' =
      Inr (concat (map (turn_out random_out) (session (turn_ends random_ends) ts')),
        if \<exists>t \<in> set ts'. turn_ends random_ends t then (Some 0, [CloseFd rd_fd]) else (None, []))"
  using sel_loop_session [OF on_fifo_ok assms(4-6)] sel_loop_session [OF on_urandom_ok assms(7-9)] assms(1-3)
  by (auto simp: select_main_def select_urandom_main_def)

theorem select_programs_serve_witness:
  "select_main False 0 3 4 \<lparr>stdin_buf = replicate 256 NUL, other_buf = replicate 256 NUL\<rparr>
     [SelErr 4, Ready (Some (RdOk ''hi'')) (Some (RdOk ''yo'')), Ready None (Some (RdErr 11)), Ready (Some (RdOk [])) None, SelErr 9]
     = Inr ([Typed ''hi'', FromFifo ''yo'', InputClosed], Some 0, [CloseFd 3, CloseFd 4, UnlinkFifo])"
proof -
  let ?st = "\<lparr>stdin_buf = replicate 256 NUL, other_buf = replicate 256 NUL\<rparr>"
  let ?st' = "\<lparr>stdin_buf = replicate 256 NUL, other_buf = replicate 8 NUL\<rparr>"
  let ?ts = "[SelErr 4, Ready (Some (RdOk ''hi'')) (Some (RdOk ''yo'')), Ready None (Some (RdErr 11)), Ready (Some (RdOk [])) None, SelErr 9]"
  have ok: "\<forall>t \<in> set ?ts. sel_ok 255 t" by (simp add: rd_ok_def)
  have len: "length (stdin_buf ?st) = 256" "length (other_buf ?st) = 256"
    "length (stdin_buf ?st') = 256" "length (other_buf ?st') = 8"
    unfolding sel_bufs.simps length_replicate by (rule refl)+
  have out: "concat (map (turn_out fifo_out) (session (turn_ends fifo_ends) ?ts)) = [Typed ''hi'', FromFifo ''yo'', InputClosed]"
    "\<exists>t \<in> set ?ts. turn_ends fifo_ends t"
    by (simp_all add: EINTR_def EAGAIN_def typed_out_def input_ends_def fifo_out_def fifo_ends_def c_str_def NUL_def)
  have n: "(0::int) \<le> 3" "(0::int) \<le> 4" "False \<or> (0::int) \<le> 0" "\<forall>t \<in> set []. sel_ok 8 t" by simp_all
  show ?thesis
    using conjunct1 [OF select_programs_serve [OF n(1-3) len(1,2) ok len(3,4) n(4)]] unfolding out(1) if_P [OF out(2)] .
qed

text \<open>
  The simple variant checks nothing: a failing read of standard input writes in front of
  its buffer, the end of the input does not end it (it prints an empty line each time), and an
  interrupted \<open>select\<close> does.
\<close>

lemma select_simple_unchecked:
  assumes "length (stdin_buf st) = 128" "length (other_buf st) = 8"
  shows "simple_turn st (Ready (Some (RdErr e)) f) = Inl OutOfBounds \<and>
    (\<exists>st'. simple_turn st (Ready (Some (RdOk [])) None) = Inr ([Typed []], True, st')) \<and>
    simple_turn st (SelErr EINTR) = Inr ([], False, st) \<and>
    (length bs \<le> 127 \<longrightarrow> (\<exists>st'. simple_turn st (Ready (Some (RdOk bs)) None) = Inr ([Typed (c_str bs)], True, st')))"
proof -
  have ok: "\<exists>st'. simple_turn st (Ready (Some (RdOk bs)) None) = Inr ([Typed (c_str bs)], True, st')"
    if le: "length bs \<le> 127" for bs
  proof -
    obtain b where "fill (stdin_buf st) bs = Inr b" "c_str b = c_str bs"
      using fill_ok [of bs "stdin_buf st"] le assms(1) by auto
    then show ?thesis
      by (auto simp: simple_turn_def read_bytes_def read_count_def fill_def and_then_Inr)
  qed
  have "simple_turn st (Ready (Some (RdErr e)) f) = Inl OutOfBounds"
    by (simp add: simple_turn_def read_bytes_def read_count_def) (simp add: mem_write_def)
  then show ?thesis using ok [of "[]"] ok by (auto simp: simple_turn_def)
qed

lemma select_simple_unchecked_example:
  "simple_turn \<lparr>stdin_buf = replicate 128 NUL, other_buf = replicate 8 NUL\<rparr> (Ready (Some (RdErr 5)) None) = Inl OutOfBounds"
proof -
  have "length (stdin_buf \<lparr>stdin_buf = replicate 128 NUL, other_buf = replicate 8 NUL\<rparr>) = 128"
    "length (other_buf \<lparr>stdin_buf = replicate 128 NUL, other_buf = replicate 8 NUL\<rparr>) = 8"
    unfolding sel_bufs.simps length_replicate by (rule refl)+
  from select_simple_unchecked [OF this] show ?thesis by blast
qed

end
