(* ===== verification/ForkServer.thy ===== *)
theory ForkServer
  imports Prelude
begin

text \<open>
  The two servers that fork a process per connection, \<open>C/server_tcp.c\<close> and
  \<open>C/server_unix.c\<close>. They differ in the text of the reply; an input is one connection: its
  descriptor, the process id of the child that serves it, and what its \<open>read\<close> returns.
\<close>

section \<open>One connection\<close>

definition CR :: char where "CR = CHR 0x0D"

definition http_head :: string where
  "http_head = ''HTTP/1.1 200 OK'' @ [CR, NL] @ ''Content-Type: text/plain'' @ [CR, NL] @ [CR, NL]"

text \<open>The bodies and responses, as \<open>snprintf\<close> leaves them in \<open>body[256]\<close> and \<open>response[512]\<close>.\<close>

definition tcp_response :: "int \<Rightarrow> string" where
  "tcp_response pid =
     (let body = snprintf_stored 256 (''Hello! Served by PID: '' @ dec_int pid @ [NL]) in
      snprintf_stored 512 (http_head @ body))"

definition unix_response :: "int \<Rightarrow> string" where
  "unix_response pid =
     (let body = snprintf_stored 256 (''Hello! UNIX socket, Served by PID: '' @ dec_int pid @ [NL]) in
      snprintf_stored 512 body)"

datatype child_call = ShowRequest int string | Send int string | RunDate int | WaitChild | CloseConn int | CloseListener int

text \<open>
  \<open>got\<close> is what \<open>read\<close> returns (\<open>None\<close>: -1), \<open>stack\<close> the uninitialised \<open>buf[1024]\<close>. The second
  fork runs \<open>date\<close> on the connection.
\<close>

definition handle_client :: "(int \<Rightarrow> string) \<Rightarrow> int \<Rightarrow> int \<Rightarrow> char list option \<Rightarrow> char list \<Rightarrow> child_call list res" where
  "handle_client response clientfd pid got stack =
     (let n = (case got of None \<Rightarrow> -1 | Some bs \<Rightarrow> int (length bs)) in
      and_then (mem_write stack 0 (case got of None \<Rightarrow> [] | Some bs \<Rightarrow> bs)) (\<lambda>buf.
      and_then (mem_write buf n [NUL]) (\<lambda>buf.
      Inr [ShowRequest pid (c_str buf), Send clientfd (c_str (response pid @ [NUL])),
           RunDate clientfd, WaitChild, CloseConn clientfd])))"

definition tcp_handle_client :: "int \<Rightarrow> int \<Rightarrow> char list option \<Rightarrow> char list \<Rightarrow> child_call list res" where
  "tcp_handle_client = handle_client tcp_response"

definition unix_handle_client :: "int \<Rightarrow> int \<Rightarrow> char list option \<Rightarrow> char list \<Rightarrow> child_call list res" where
  "unix_handle_client = handle_client unix_response"

section \<open>The accept loop\<close>

record conn =
  clientfd :: int
  child_pid :: int
  request :: "char list option"

text \<open>What each child does, and what the parent does, for a sequence of connections.\<close>

definition child_main :: "(int \<Rightarrow> int \<Rightarrow> char list option \<Rightarrow> char list \<Rightarrow> child_call list res) \<Rightarrow> int \<Rightarrow> char list \<Rightarrow> conn \<Rightarrow> child_call list res" where
  "child_main handle sockfd stack c =
     and_then (handle (clientfd c) (child_pid c) (request c) stack) (\<lambda>cs. Inr (CloseListener sockfd # cs))"

definition fork_server :: "(int \<Rightarrow> int \<Rightarrow> char list option \<Rightarrow> char list \<Rightarrow> child_call list res) \<Rightarrow> int \<Rightarrow> char list \<Rightarrow> conn list \<Rightarrow> child_call list res list \<times> child_call list" where
  "fork_server handle sockfd stack conns =
     (map (child_main handle sockfd stack) conns, map (\<lambda>c. CloseConn (clientfd c)) conns)"

section \<open>Setting up\<close>

text \<open>
  What the set-up calls meet: the ports in use and the names present in the file system, the
  port the kernel picks for a socket that listens without an address, and the names this
  process may remove. \<open>bind\<close> fails on an address that is taken; \<open>listen\<close> without an address
  takes a port of its own for TCP and fails for a Unix socket; \<open>accept\<close> fails on a socket that
  does not listen. Neither program looks at a result.
\<close>

datatype saddr = Port nat | Path string

record sock_env =
  taken :: "saddr list"
  spare_port :: nat
  removable :: "string \<Rightarrow> bool"

record sock =
  is_unix :: bool
  local_addr :: "saddr option"
  listening :: bool

definition sys_socket :: "bool \<Rightarrow> sock" where
  "sys_socket unix = \<lparr>is_unix = unix, local_addr = None, listening = False\<rparr>"

definition sys_unlink :: "string \<Rightarrow> sock_env \<Rightarrow> sock_env" where
  "sys_unlink p e = (if removable e p then e\<lparr>taken := filter (\<lambda>a. a \<noteq> Path p) (taken e)\<rparr> else e)"

definition sys_bind :: "saddr \<Rightarrow> sock_env \<times> sock \<Rightarrow> sock_env \<times> sock" where
  "sys_bind a es = (case es of (e, s) \<Rightarrow>
     if a \<in> set (taken e) then (e, s) else (e\<lparr>taken := a # taken e\<rparr>, s\<lparr>local_addr := Some a\<rparr>))"

definition sys_listen :: "sock_env \<times> sock \<Rightarrow> sock_env \<times> sock" where
  "sys_listen es = (case es of (e, s) \<Rightarrow>
     if local_addr s \<noteq> None then (e, s\<lparr>listening := True\<rparr>)
     else if is_unix s then (e, s)
     else (e\<lparr>taken := Port (spare_port e) # taken e\<rparr>, s\<lparr>local_addr := Some (Port (spare_port e)), listening := True\<rparr>))"

definition tcp_setup :: "sock_env \<Rightarrow> sock_env \<times> sock" where
  "tcp_setup e = sys_listen (sys_bind (Port 18080) (e, sys_socket False))"

definition unix_setup :: "sock_env \<Rightarrow> sock_env \<times> sock" where
  "unix_setup e = sys_listen (sys_bind (Path ''/tmp/my_socket'') (sys_unlink ''/tmp/my_socket'' e, sys_socket True))"

text \<open>What a turn of the loop gets from \<open>accept\<close> when \<open>c\<close> is the client that connects.\<close>

definition accepted :: "sock \<Rightarrow> conn \<Rightarrow> conn" where
  "accepted s c = (if listening s then c else c\<lparr>clientfd := -1, request := None\<rparr>)"

text \<open>The two programs: the line printed, the address of the socket, the children, the parent.\<close>

definition tcp_server :: "sock_env \<Rightarrow> int \<Rightarrow> char list \<Rightarrow> conn list \<Rightarrow> string \<times> saddr option \<times> child_call list res list \<times> child_call list" where
  "tcp_server e sockfd stack conns =
     (let s = snd (tcp_setup e) in
      (''Listening on port 18080...'' @ [NL], local_addr s, fork_server tcp_handle_client sockfd stack (map (accepted s) conns)))"

definition unix_server :: "sock_env \<Rightarrow> int \<Rightarrow> char list \<Rightarrow> conn list \<Rightarrow> string \<times> saddr option \<times> child_call list res list \<times> child_call list" where
  "unix_server e sockfd stack conns =
     (let s = snd (unix_setup e) in
      (''Listening on /tmp/my_socket...'' @ [NL], local_addr s, fork_server unix_handle_client sockfd stack (map (accepted s) conns)))"

section \<open>Which requests are safe\<close>

lemma http_head_length: "length http_head = 45"
  by (simp add: http_head_def)

text \<open>Neither response is ever cut off or contains a NUL.\<close>

lemma responses_whole:
  "tcp_response (s32 i) = http_head @ ''Hello! Served by PID: '' @ dec_int (s32 i) @ [NL]"
  "unix_response (s32 i) = ''Hello! UNIX socket, Served by PID: '' @ dec_int (s32 i) @ [NL]"
  "NUL \<notin> set (tcp_response (s32 i))" "NUL \<notin> set (unix_response (s32 i))"
proof -
  note len = length_dec_int_s32 [of i] http_head_length
  show t: "tcp_response (s32 i) = http_head @ ''Hello! Served by PID: '' @ dec_int (s32 i) @ [NL]"
    using len by (simp add: tcp_response_def snprintf_stored_def Let_def)
  show u: "unix_response (s32 i) = ''Hello! UNIX socket, Served by PID: '' @ dec_int (s32 i) @ [NL]"
    using len by (simp add: unix_response_def snprintf_stored_def Let_def)
  show "NUL \<notin> set (tcp_response (s32 i))"
    using dec_int_no_nul [of "s32 i"] unfolding t by (auto simp: http_head_def NUL_def NL_def CR_def)
  show "NUL \<notin> set (unix_response (s32 i))"
    using dec_int_no_nul [of "s32 i"] unfolding u by (auto simp: NUL_def NL_def)
qed

text \<open>A request a child can handle: the read succeeded and left room for the terminator.\<close>

definition request_safe :: "char list option \<Rightarrow> bool" where
  "request_safe got \<longleftrightarrow> (case got of None \<Rightarrow> False | Some bs \<Rightarrow> length bs \<le> 1023)"

lemma handle_client_cases:
  assumes "length stack = 1024" "\<forall>bs. got = Some bs \<longrightarrow> length bs \<le> 1024"
  shows "handle_client response fd pid got stack =
    (if request_safe got
     then Inr [ShowRequest pid (c_str (the got)), Send fd (c_str (response pid @ [NUL])), RunDate fd, WaitChild, CloseConn fd]
     else Inl OutOfBounds)"
proof (cases got)
  case None
  then show ?thesis by (simp add: handle_client_def request_safe_def) (simp add: mem_write_def)
next
  case (Some bs)
  define b1 where "b1 = overlay stack 0 bs"
  have w1: "mem_write stack 0 bs = Inr b1" "length b1 = 1024"
    using assms Some by (auto simp: mem_write_def b1_def)
  show ?thesis
  proof (cases "length bs \<le> 1023")
    case True
    then have "mem_write b1 (int (length bs)) [NUL] = Inr (overlay b1 (length bs) [NUL])"
      using w1(2) by (simp add: mem_write_def)
    moreover have "overlay b1 (length bs) [NUL] = bs @ NUL # drop (Suc (length bs)) stack"
      by (simp add: b1_def overlay_def)
    then have "c_str (overlay b1 (length bs) [NUL]) = c_str bs" by (simp add: c_str_upto)
    ultimately show ?thesis using True by (simp add: handle_client_def Some w1 request_safe_def)
  next
    case False
    then have "mem_write b1 (int (length bs)) [NUL] = Inl OutOfBounds" using w1(2) by (simp add: mem_write_def)
    then show ?thesis using False by (simp add: handle_client_def Some w1 request_safe_def)
  qed
qed

text \<open>
  Both servers' loops. The parent closes each connection it accepted and each is served by one
  child. A child that reads at most 1023 bytes sends the complete reply with its process id
  and closes the connection; a child that reads the full 1024 bytes asked for writes the
  terminator behind its buffer, and one whose read fails writes it in front.
\<close>

lemma fork_server_children:
  assumes "length stack = 1024" "\<forall>c \<in> set conns. \<forall>bs. request c = Some bs \<longrightarrow> length bs \<le> 1024"
    and "\<forall>c \<in> set conns. child_pid c = s32 (child_pid c)"
    and server: "(handle, hello) = (tcp_handle_client, http_head @ ''Hello! Served by PID: '') \<or>
      (handle, hello) = (unix_handle_client, ''Hello! UNIX socket, Served by PID: '')"
  shows "fork_server handle sockfd stack conns =
    (map (\<lambda>c. if request_safe (request c)
        then Inr [CloseListener sockfd, ShowRequest (child_pid c) (c_str (the (request c))),
          Send (clientfd c) (hello @ dec_int (child_pid c) @ [NL]), RunDate (clientfd c), WaitChild, CloseConn (clientfd c)]
        else Inl OutOfBounds) conns,
     map (\<lambda>c. CloseConn (clientfd c)) conns)"
proof -
  obtain response where handle: "handle = handle_client response" and
    response: "(response, hello) = (tcp_response, http_head @ ''Hello! Served by PID: '') \<or>
      (response, hello) = (unix_response, ''Hello! UNIX socket, Served by PID: '')"
    using server by (auto simp: tcp_handle_client_def unix_handle_client_def)
  have "child_main handle sockfd stack c =
      (if request_safe (request c)
        then Inr [CloseListener sockfd, ShowRequest (child_pid c) (c_str (the (request c))),
          Send (clientfd c) (hello @ dec_int (child_pid c) @ [NL]), RunDate (clientfd c), WaitChild, CloseConn (clientfd c)]
        else Inl OutOfBounds)" if "c \<in> set conns" for c
  proof -
    have pid: "child_pid c = s32 (child_pid c)" using assms(3) that by blast
    have r: "response (child_pid c) = hello @ dec_int (child_pid c) @ [NL]" "NUL \<notin> set (response (child_pid c))"
      using response responses_whole [of "child_pid c"] pid by auto
    then have "c_str (response (child_pid c) @ [NUL]) = hello @ dec_int (child_pid c) @ [NL]"
      using c_str_app [of "response (child_pid c)" "[]"] by simp
    then show ?thesis
      using handle_client_cases [OF assms(1), of "request c" response "clientfd c" "child_pid c"] assms(2) that
      by (simp add: child_main_def handle)
  qed
  then show ?thesis by (simp add: fork_server_def)
qed

definition full_request :: conn where
  "full_request = \<lparr>clientfd = 5, child_pid = 42, request = Some (replicate 1024 CHR ''x'')\<rparr>"

text \<open>The calls of the child of one connection, and how the servers start.\<close>

definition served :: "string \<Rightarrow> int \<Rightarrow> conn \<Rightarrow> child_call list res" where
  "served hello sockfd c =
     (if request_safe (request c)
      then Inr [CloseListener sockfd, ShowRequest (child_pid c) (c_str (the (request c))),
        Send (clientfd c) (hello @ dec_int (child_pid c) @ [NL]), RunDate (clientfd c), WaitChild, CloseConn (clientfd c)]
      else Inl OutOfBounds)"

lemma tcp_setup_listens:
  "local_addr (snd (tcp_setup e)) = Some (Port (if Port 18080 \<in> set (taken e) then spare_port e else 18080)) \<and>
   listening (snd (tcp_setup e))"
  by (simp add: tcp_setup_def sys_listen_def sys_bind_def sys_socket_def)

lemma unix_setup_listens:
  "(local_addr (snd (unix_setup e)), listening (snd (unix_setup e))) =
    (if removable e ''/tmp/my_socket'' \<or> Path ''/tmp/my_socket'' \<notin> set (taken e) then (Some (Path ''/tmp/my_socket''), True) else (None, False))"
  by (simp add: unix_setup_def sys_listen_def sys_bind_def sys_socket_def sys_unlink_def)

text \<open>
  C40: the two servers from their start. The TCP server always listens, but when port 18080 is
  taken it does so on a port the kernel picks, and still announces 18080. The Unix server
  listens unless a name it may not remove is in its way; then \<open>accept\<close> fails in every turn, and
  every turn forks a child that reads from no descriptor and writes in front of its buffer. A
  server that listens serves each connection with one child: one that reads at most 1023 bytes
  sends the complete reply with its process id and closes the connection, one that reads the
  full 1024 bytes asked for writes the terminator behind its buffer, and one whose read fails
  in front of it. The parent closes each connection it accepted.
\<close>

theorem servers_serve:
  assumes "length stack = 1024" "\<forall>c \<in> set conns. \<forall>bs. request c = Some bs \<longrightarrow> length bs \<le> 1024"
    and "\<forall>c \<in> set conns. child_pid c = s32 (child_pid c)"
  shows "tcp_server e sockfd stack conns =
      (''Listening on port 18080...'' @ [NL], Some (Port (if Port 18080 \<in> set (taken e) then spare_port e else 18080)),
       map (served (http_head @ ''Hello! Served by PID: '') sockfd) conns, map (\<lambda>c. CloseConn (clientfd c)) conns) \<and>
    unix_server e sockfd stack conns = (''Listening on /tmp/my_socket...'' @ [NL],
      (if removable e ''/tmp/my_socket'' \<or> Path ''/tmp/my_socket'' \<notin> set (taken e)
       then (Some (Path ''/tmp/my_socket''),
         map (served ''Hello! UNIX socket, Served by PID: '' sockfd) conns, map (\<lambda>c. CloseConn (clientfd c)) conns)
       else (None, map (\<lambda>_. Inl OutOfBounds) conns, map (\<lambda>_. CloseConn (-1)) conns)))"
proof -
  let ?u = "snd (unix_setup e)"
  have acc: "\<forall>c \<in> set (map (accepted ?u) conns). \<forall>bs. request c = Some bs \<longrightarrow> length bs \<le> 1024"
    "\<forall>c \<in> set (map (accepted ?u) conns). child_pid c = s32 (child_pid c)"
    using assms(2,3) by (auto simp: accepted_def)
  have tcp: "map (accepted (snd (tcp_setup e))) conns = conns"
    using tcp_setup_listens [of e] by (simp add: accepted_def map_idI)
  note T = fork_server_children [OF assms disjI1 [OF refl], of sockfd, folded served_def]
  note U = fork_server_children [OF assms(1) acc disjI2 [OF refl], of sockfd, folded served_def]
  have "map (accepted ?u) conns = (if listening ?u then conns else map (\<lambda>c. c\<lparr>clientfd := -1, request := None\<rparr>) conns)"
    by (auto simp: accepted_def intro: map_idI)
  moreover have "served hello sockfd (c\<lparr>clientfd := -1, request := None\<rparr>) = Inl OutOfBounds" for hello c
    by (simp add: served_def request_safe_def)
  ultimately show ?thesis
    using T U tcp tcp_setup_listens [of e] unix_setup_listens [of e]
    by (auto simp: tcp_server_def unix_server_def Let_def comp_def split: if_splits)
qed

definition busy_host :: sock_env where
  "busy_host = \<lparr>taken = [Port 18080, Path ''/tmp/my_socket''], spare_port = 40000, removable = (\<lambda>_. False)\<rparr>"

theorem servers_serve_witness:
  "snd (tcp_server busy_host 3 (replicate 1024 NUL) [full_request\<lparr>request := Some ''GET /''\<rparr>, full_request, full_request\<lparr>request := None\<rparr>]) =
     (Some (Port 40000),
      [Inr [CloseListener 3, ShowRequest 42 ''GET /'', Send 5 (http_head @ ''Hello! Served by PID: 42'' @ [NL]), RunDate 5, WaitChild, CloseConn 5],
       Inl OutOfBounds, Inl OutOfBounds], [CloseConn 5, CloseConn 5, CloseConn 5]) \<and>
   snd (unix_server busy_host 3 (replicate 1024 NUL) [full_request\<lparr>request := Some ''GET /''\<rparr>, full_request, full_request\<lparr>request := None\<rparr>]) =
     (None, [Inl OutOfBounds, Inl OutOfBounds, Inl OutOfBounds], [CloseConn (-1), CloseConn (-1), CloseConn (-1)])"
proof -
  let ?cs = "[full_request\<lparr>request := Some ''GET /''\<rparr>, full_request, full_request\<lparr>request := None\<rparr>]"
  have len: "length (replicate 1024 x) = 1024" for x :: char by (rule length_replicate)
  have req: "request full_request = Some (replicate 1024 CHR ''x'')" "child_pid full_request = 42" "clientfd full_request = 5"
    by (simp_all only: full_request_def conn.simps)
  have a: "\<forall>c \<in> set ?cs. \<forall>bs. request c = Some bs \<longrightarrow> length bs \<le> 1024"
    using len [of "CHR ''x''"] by (auto simp: req(1))
  have b: "\<forall>c \<in> set ?cs. child_pid c = s32 (child_pid c)" by (simp add: req(2) s32_id)
  have d: "dec_int 42 = ''42''" by (simp add: dec_int_def dec_nat.simps digit_chars)
  have safe: "request_safe (Some ''GET /'')" "\<not> request_safe (request full_request)" "\<not> request_safe None"
    using len [of "CHR ''x''"] by (simp_all add: request_safe_def req(1))
  have g: "c_str ''GET /'' = ''GET /''" by (simp add: c_str_def NUL_def)
  from servers_serve [OF len a b, of busy_host 3 NUL]
  show ?thesis by (simp add: served_def busy_host_def safe safe(2) [unfolded req(1)] g req d)
qed

section \<open>Children that have ended\<close>

text \<open>
  The parent's handler of \<open>SIGCHLD\<close>. Signals that arrive while one is pending are lost, which
  is why it waits in a loop; \<open>waitpid\<close> with \<open>WNOHANG\<close> returns a child that has ended, or not a
  positive number.
\<close>

record kids =
  running :: "nat set"
  zombies :: "nat list"
  pending :: bool

fun reap :: "nat list \<Rightarrow> nat list" where
  "reap [] = []"
| "reap (pid # zs) = reap zs"

inductive kid_step :: "kids \<Rightarrow> kids \<Rightarrow> bool" where
  forked: "pid \<notin> running s \<Longrightarrow> pid \<notin> set (zombies s) \<Longrightarrow> kid_step s (s\<lparr>running := insert pid (running s)\<rparr>)"
| ended: "pid \<in> running s \<Longrightarrow>
    kid_step s (s\<lparr>running := running s - {pid}, zombies := zombies s @ [pid], pending := True\<rparr>)"
| handled: "pending s \<Longrightarrow> kid_step s (s\<lparr>pending := False, zombies := reap (zombies s)\<rparr>)"

lemma reap_all: "reap zs = []"
  by (induction zs) simp_all

text \<open>However the signals are merged, no ended child is left once none is pending.\<close>

lemma all_reaped:
  assumes "kid_step\<^sup>*\<^sup>* \<lparr>running = {}, zombies = [], pending = False\<rparr> s"
  shows "\<not> pending s \<longrightarrow> zombies s = []"
  using assms
proof induction
  case (step s t)
  from step.hyps(2) step.IH show ?case by cases (auto simp: reap_all)
qed simp

end
