(* ===== verification/SysfsLed.thy ===== *)
theory SysfsLed
  imports Prelude
begin

text \<open>
  The blinking program \<open>C/sysfs_led.c\<close>. An input of its loop is one iteration: whether
  \<open>running\<close> is still set when it is tested, and whether the write of that iteration succeeds;
  the signal handler only clears the flag, so no iteration after a cleared one is reached.
\<close>

text \<open>The outcome of \<open>open\<close> and \<open>write\<close> in one call.\<close>

datatype led_io = OpenFails | WriteFails | IoOk

text \<open>\<open>stack\<close> is \<open>buf[16]\<close>; the result is the return value and the bytes written to the LED
  file, if any were.\<close>

definition set_led_brightness :: "char list \<Rightarrow> led_io \<Rightarrow> int \<Rightarrow> (int \<times> char list list) res" where
  "set_led_brightness stack io value =
     (if io = OpenFails then Inr (-1, [])
      else
        let line = dec_int value @ [NL]; len = int (length line) in
        and_then (mem_write stack 0 (snprintf_stored 16 line @ [NUL])) (\<lambda>buf.
        and_then (mem_read buf 0 len) (\<lambda>bs.
        if io = WriteFails then Inr (-1, []) else Inr (0, [bs]))))"

definition signal_handler :: "bool \<Rightarrow> bool" where "signal_handler running = False"

text \<open>
  The loop: the new state, the lines written, and whether it was left. A list that runs out is
  a program still blinking.
\<close>

fun blink_loop :: "char list \<Rightarrow> int \<Rightarrow> (bool \<times> led_io) list \<Rightarrow> (char list list \<times> bool) res" where
  "blink_loop stack state [] = Inr ([], False)"
| "blink_loop stack state ((running, io) # is) =
     (if running
      then let state = (if state = 0 then 1 else 0) in
        and_then (set_led_brightness stack io state) (\<lambda>(r, w).
        if r < 0 then Inr (w, True)
        else and_then (blink_loop stack state is) (\<lambda>(w', left). Inr (w @ w', left)))
      else Inr ([], True))"

text \<open>\<open>access_ok\<close>, the first write, the loop, and the last write; \<open>None\<close> while running.\<close>

definition led_main :: "char list \<Rightarrow> bool \<Rightarrow> led_io \<Rightarrow> (bool \<times> led_io) list \<Rightarrow> led_io \<Rightarrow> (int option \<times> char list list) res" where
  "led_main stack access_ok first is final =
     (if \<not> access_ok then Inr (Some 1, [])
      else and_then (set_led_brightness stack first 0) (\<lambda>(r, w0).
        if r < 0 then Inr (Some 1, w0)
        else and_then (blink_loop stack 0 is) (\<lambda>(w, left).
          if \<not> left then Inr (None, w0 @ w)
          else and_then (set_led_brightness stack final 0) (\<lambda>(_, w1). Inr (Some 0, w0 @ w @ w1)))))"

definition led_line :: "int \<Rightarrow> char list" where "led_line v = dec_int v @ [NL]"

lemma set_led_brightness_ok:
  assumes "length stack = 16"
  shows "set_led_brightness stack io (s32 v) =
    Inr (if io = IoOk then 0 else -1, if io = IoOk then [led_line (s32 v)] else [])"
proof -
  have len: "length (led_line (s32 v)) \<le> 12" using length_dec_int_s32 [of v] by (simp add: led_line_def)
  then have "snprintf_stored 16 (led_line (s32 v)) = led_line (s32 v)" by (simp add: snprintf_stored_def)
  moreover have "mem_write stack 0 (led_line (s32 v) @ [NUL]) = Inr (overlay stack 0 (led_line (s32 v) @ [NUL]))"
    using len assms by (simp add: mem_write_def)
  moreover have "mem_read (overlay stack 0 (led_line (s32 v) @ [NUL])) 0 (int (length (led_line (s32 v)))) = Inr (led_line (s32 v))"
    using len assms by (simp add: mem_read_def) (simp add: overlay_def)
  ultimately show ?thesis
    by (cases io) (simp_all add: set_led_brightness_def Let_def flip: led_line_def)
qed

text \<open>How many iterations write before the loop is left, and whether it is.\<close>

definition blinks :: "(bool \<times> led_io) list \<Rightarrow> nat" where
  "blinks is = length (takeWhile (\<lambda>i. i = (True, IoOk)) is)"

lemma blink_loop_alternates:
  assumes "length stack = 16"
  shows "blink_loop stack (int k mod 2) is =
    Inr (map (\<lambda>i. led_line (int (k + i + 1) mod 2)) [0..<blinks is], \<exists>i \<in> set is. i \<noteq> (True, IoOk))"
proof (induction "is" arbitrary: k)
  case Nil
  then show ?case by (simp add: blinks_def)
next
  case (Cons i "is")
  obtain running io where i: "i = (running, io)" by fastforce
  have flip: "(if int k mod 2 = 0 then 1 else 0) = int (k + 1) mod 2" by (simp add: zmod_int) presburger
  have "int (k + 1) mod 2 = s32 (int (k + 1) mod 2)"
  proof -
    have "0 \<le> int (k + 1) mod 2" "int (k + 1) mod 2 < 2" by simp_all
    then show ?thesis by (intro s32_id [symmetric]) linarith+
  qed
  then have set: "set_led_brightness stack io (int (k + 1) mod 2) =
      Inr (if io = IoOk then 0 else -1, if io = IoOk then [led_line (int (k + 1) mod 2)] else [])"
    using set_led_brightness_ok [OF assms, of io "int (k + 1) mod 2"] by metis
  show ?case
  proof (cases "i = (True, IoOk)")
    case True
    then have b: "blinks (i # is) = Suc (blinks is)" by (simp add: blinks_def)
    have "map (\<lambda>i. led_line (int (k + i + 1) mod 2)) [0..<blinks (i # is)] =
        led_line (int (k + 1) mod 2) # map (\<lambda>i. led_line (int (k + 1 + i + 1) mod 2)) [0..<blinks is]"
      unfolding b by (subst upt_conv_Cons) (simp_all add: map_Suc_upt [symmetric] del: upt_Suc)
    then show ?thesis
      using Cons.IH [of "k + 1"] set True unfolding i by (simp add: flip Let_def del: of_nat_add)
  next
    case False
    then have "blinks (i # is) = 0" by (simp add: blinks_def)
    moreover have "running \<Longrightarrow> io \<noteq> IoOk" using False i by auto
    ultimately show ?thesis using set False unfolding i by (auto simp: flip Let_def simp del: of_nat_add)
  qed
qed

text \<open>
  The program writes 0, then alternately 1 and 0, one per iteration, until it is
  interrupted or a write fails, and then 0 once more; each time the decimal number and a
  newline, which fit the 16-byte buffer. However it was left, it reports success, and if the
  last write succeeds the last line written is 0.
\<close>

lemma led_blinks_then_off:
  assumes "length stack = 16" "\<exists>i \<in> set is. i \<noteq> (True, IoOk)"
  shows "led_main stack True IoOk is final =
    Inr (Some 0, map (\<lambda>i. led_line (int i mod 2)) [0..<Suc (blinks is)] @ (if final = IoOk then [led_line 0] else []))"
proof -
  have z: "s32 0 = 0" by (simp add: s32_id)
  note set0 = set_led_brightness_ok [OF assms(1), of _ 0, unfolded z]
  have "map (\<lambda>i. led_line (int i mod 2)) [0..<Suc (blinks is)] =
      led_line 0 # map (\<lambda>i. led_line (int (0 + i + 1) mod 2)) [0..<blinks is]"
    by (subst upt_conv_Cons) (simp_all add: map_Suc_upt [symmetric] del: upt_Suc)
  moreover have "\<not> (-1 :: int) \<ge> 0" by simp
  ultimately show ?thesis
    using blink_loop_alternates [OF assms(1), of 0 "is"] assms(2)
    by (simp add: led_main_def set0 del: upt_Suc of_nat_add of_nat_Suc)
qed

lemma led_blinks_then_off_example:
  "led_main (replicate 16 NUL) True IoOk [(True, IoOk), (True, IoOk), (True, IoOk), (False, IoOk)] IoOk =
    Inr (Some 0, [''0'' @ [NL], ''1'' @ [NL], ''0'' @ [NL], ''1'' @ [NL], ''0'' @ [NL]])"
proof -
  let ?is = "[(True, IoOk), (True, IoOk), (True, IoOk), (False, IoOk)]"
  have l: "led_line 0 = ''0'' @ [NL]" "led_line 1 = ''1'' @ [NL]"
    by (simp_all add: led_line_def dec_int_def dec_nat.simps digit_chars)
  have "blinks ?is = 3" by (simp add: blinks_def)
  moreover have "\<exists>i \<in> set ?is. i \<noteq> (True, IoOk)" by simp
  ultimately show ?thesis
    using led_blinks_then_off [OF length_replicate, of ?is NUL IoOk] by (simp add: upt_rec l)
qed

end
