(* ===== verification/ClockPrograms.thy ===== *)
theory ClockPrograms
  imports Clock
begin

text \<open>
  The measuring programs \<open>C/timer_accuracy.c\<close> (the same text as \<open>C/timer_acculacy.c\<close>) and
  \<open>C/cpu_hog.c\<close>. The clock is a sequence of samples; the lines printed are the results.
\<close>

section \<open>timer_accuracy.c\<close>

text \<open>The signal handler: the interval it prints and the new value of \<open>prev\<close>.\<close>

definition accuracy_handler :: "timespec \<Rightarrow> timespec \<Rightarrow> int \<times> timespec" where
  "accuracy_handler prev now =
     (s32 ((tv_sec now - tv_sec prev) * 1000000000 + (tv_nsec now - tv_nsec prev)), now)"

fun accuracy_run :: "timespec \<Rightarrow> timespec list \<Rightarrow> int list" where
  "accuracy_run prev [] = []"
| "accuracy_run prev (now # nows) =
     (case accuracy_handler prev now of (delta, prev) \<Rightarrow> delta # accuracy_run prev nows)"


section \<open>cpu_hog.c\<close>

text \<open>
  \<open>n\<close> more iterations; \<open>i\<close> is the index of the next clock sample. A report is the count and
  the elapsed milliseconds it prints; the rate is their quotient. The last component is the
  count of the interval that is still open.
\<close>

fun hog_loop :: "(nat \<Rightarrow> timespec) \<Rightarrow> nat \<Rightarrow> nat \<Rightarrow> timespec \<Rightarrow> int \<Rightarrow> (int \<times> int) list \<times> int" where
  "hog_loop clk 0 i t1 count = ([], count)"
| "hog_loop clk (Suc n) i t1 count =
     (let count = s32 (count + 1); elapsed = elapsed_ms t1 (clk i) in
      if elapsed \<ge> 5000
      then (case hog_loop clk n (i + 2) (clk (i + 1)) 0 of (rs, c) \<Rightarrow> ((count, elapsed) # rs, c))
      else hog_loop clk n (i + 1) t1 count)"

definition hog_main :: "(nat \<Rightarrow> timespec) \<Rightarrow> nat \<Rightarrow> (int \<times> int) list \<times> int" where
  "hog_main clk n = hog_loop clk n 1 (clk 0) 0"

lemma hog_loop_counts:
  assumes "0 \<le> count" "count + int n < 2147483648"
  shows "(case hog_loop clk n i t1 count of (rs, c) \<Rightarrow> sum_list (map fst rs) + c = count + int n \<and> 0 \<le> c \<and>
    (\<forall>(k, ms) \<in> set rs. 0 < k \<and> 5000 \<le> ms))"
  using assms
proof (induction clk n i t1 count rule: hog_loop.induct)
  case (2 clk n i t1 count)
  have c: "s32 (count + 1) = count + 1" using 2(3,4) by (intro s32_id) auto
  show ?case
  proof (cases "elapsed_ms t1 (clk i) \<ge> 5000")
    case True
    have "case hog_loop clk n (i + 2) (clk (i + 1)) 0 of (rs, c) \<Rightarrow> sum_list (map fst rs) + c = 0 + int n \<and> 0 \<le> c \<and>
      (\<forall>(k, ms) \<in> set rs. 0 < k \<and> 5000 \<le> ms)"
      using 2(1) [OF refl refl True] 2(3,4) by simp
    then show ?thesis using True 2(3) by (auto simp: c Let_def split: prod.splits)
  next
    case False
    have "case hog_loop clk n (i + 1) t1 (count + 1) of (rs, c) \<Rightarrow> sum_list (map fst rs) + c = count + 1 + int n \<and> 0 \<le> c \<and>
      (\<forall>(k, ms) \<in> set rs. 0 < k \<and> 5000 \<le> ms)"
      using 2(2) [OF refl refl False] 2(3,4) by (simp add: c)
    then show ?thesis using False by (simp add: c Let_def split: prod.splits)
  qed
qed simp

lemma accuracy_run_exact:
  assumes "\<forall>(a, b) \<in> set (zip (prev # nows) nows). \<bar>ns_of b - ns_of a\<bar> < 2147483648"
  shows "accuracy_run prev nows = map2 (\<lambda>a b. ns_of b - ns_of a) (prev # nows) nows \<and>
    sum_list (accuracy_run prev nows) = ns_of (last (prev # nows)) - ns_of prev"
  using assms
proof (induction nows arbitrary: prev)
  case (Cons now nows)
  have "fst (accuracy_handler prev now) = s32 (ns_of now - ns_of prev)"
    by (simp add: accuracy_handler_def ns_of_def algebra_simps)
  also have "\<dots> = ns_of now - ns_of prev" using Cons.prems by (intro s32_id) auto
  finally have h: "accuracy_handler prev now = (ns_of now - ns_of prev, now)"
    by (simp add: accuracy_handler_def)
  have "\<forall>(a, b) \<in> set (zip (now # nows) nows). \<bar>ns_of b - ns_of a\<bar> < 2147483648" using Cons.prems by simp
  note IH = Cons.IH [OF this]
  show ?case
  proof
    show "accuracy_run prev (now # nows) = map2 (\<lambda>a b. ns_of b - ns_of a) (prev # now # nows) (now # nows)"
      using conjunct1 [OF IH] by (simp add: h)
    show "sum_list (accuracy_run prev (now # nows)) = ns_of (last (prev # now # nows)) - ns_of prev"
      using conjunct2 [OF IH] by (simp add: h)
  qed
qed simp

text \<open>
  The accuracy test prints each interval exactly, and the printed intervals add up to the
  time since the start, as long as no interval reaches 2 to the 31 nanoseconds (2.1 seconds),
  where the \<open>long\<close> would wrap; the load generator's reports account for every iteration it
  made, each at least five seconds after the last, so that the rate never divides by 0.
\<close>

lemma clock_programs_account:
  assumes "\<forall>(a, b) \<in> set (zip (prev # nows) nows). \<bar>ns_of b - ns_of a\<bar> < 2147483648"
    and "hog_main clk n = (rs, c)" "n < 2147483648"
  shows "accuracy_run prev nows = map2 (\<lambda>a b. ns_of b - ns_of a) (prev # nows) nows \<and>
    sum_list (accuracy_run prev nows) = ns_of (last (prev # nows)) - ns_of prev \<and>
    sum_list (map fst rs) + c = int n \<and> (\<forall>(k, ms) \<in> set rs. 0 < k \<and> 5000 \<le> ms)"
proof -
  have "sum_list (map fst rs) + c = int n \<and> (\<forall>(k, ms) \<in> set rs. 0 < k \<and> 5000 \<le> ms)"
    using hog_loop_counts [of 0 n clk 1 "clk 0"] assms(2,3) by (simp add: hog_main_def)
  then show ?thesis using accuracy_run_exact [OF assms(1)] by blast
qed

definition second_clock :: "nat \<Rightarrow> timespec" where
  "second_clock i = \<lparr>tv_sec = int i, tv_nsec = 0\<rparr>"

lemma clock_programs_account_example:
  "accuracy_run \<lparr>tv_sec = 1, tv_nsec = 999000000\<rparr> [\<lparr>tv_sec = 2, tv_nsec = 0\<rparr>, \<lparr>tv_sec = 2, tv_nsec = 1500000\<rparr>] = [1000000, 1500000] \<and>
   hog_main second_clock 12 = ([(5, 5000), (5, 5000)], 2)"
proof -
  have h: "hog_main second_clock 12 = ([(5, 5000), (5, 5000)], 2)"
    by (simp add: hog_main_def second_clock_def elapsed_ms_def s32_id Let_def eval_nat_numeral)
  show ?thesis
    using clock_programs_account [OF _ h, of "\<lparr>tv_sec = 1, tv_nsec = 999000000\<rparr>"
        "[\<lparr>tv_sec = 2, tv_nsec = 0\<rparr>, \<lparr>tv_sec = 2, tv_nsec = 1500000\<rparr>]"] h
    by (simp add: ns_of_def)
qed

end
