(* ===== verification/Modules.thy ===== *)
theory Modules
  imports ChardevProps Mychardev VirtInt GpioSim IrqModules
begin

text \<open>
  All kernel modules of \<open>modules/\<close> on one kernel. Each is loaded and unloaded under its own
  behaviour of the kernel calls; a history is any sequence of such episodes of any of the
  modules.
\<close>

text \<open>The two greeting modules acquire nothing.\<close>

definition hello_init :: "unit \<Rightarrow> int \<times> kcall list" where "hello_init e = (0, [])"
definition hello_exit :: "kcall list" where "hello_exit = []"

text \<open>The parameters of \<open>hello_init.c\<close> when the command line sets none.\<close>

definition param_static :: "int \<times> string" where "param_static = (0, ''mydevice'')"

definition param_init :: "int \<Rightarrow> string \<Rightarrow> int \<times> kcall list" where
  "param_init debug_level device_name = (0, [])"
definition param_exit :: "kcall list" where "param_exit = []"

interpretation hello: kernel_module hello_init "\<lambda>_. hello_exit" "\<lambda>_. True"
  by unfold_locales (simp_all add: hello_init_def hello_exit_def)

interpretation param: kernel_module "\<lambda>(lvl, name). param_init lvl name" "\<lambda>_. param_exit" "\<lambda>_. True"
  by unfold_locales (auto simp: param_init_def param_exit_def)

text \<open>
  \<open>vint_net.c\<close> does not register its init function: loading the module calls nothing.
\<close>

definition vint_net_load :: "unit \<Rightarrow> int \<times> kcall list" where "vint_net_load e = (0, [])"
definition vint_net_unload :: "kcall list" where "vint_net_unload = []"

interpretation vint: kernel_module vint_net_load "\<lambda>_. vint_net_unload" "\<lambda>_. True"
  by unfold_locales (simp_all add: vint_net_load_def vint_net_unload_def)

datatype episode =
    EHello | EVintNet | EParam int string | EChardev chr_env | EMychardev chr_env | EVirtInt probe_env
  | EGpioDemo "demo_probe sim_env" | EGpioInt "int_probe sim_env" | ESysfs sysfs_env | EIrqnet int | EHrtimer int

fun mod_init :: "episode \<Rightarrow> int \<times> kcall list" where
  "mod_init EHello = hello_init ()"
| "mod_init EVintNet = vint_net_load ()"
| "mod_init (EParam lvl name) = param_init lvl name"
| "mod_init (EChardev e) = chardev_init e"
| "mod_init (EMychardev e) = my_mychar_init e"
| "mod_init (EVirtInt e) = virt_bind e"
| "mod_init (EGpioDemo e) = gpio_sim_demo_init demo_bind e"
| "mod_init (EGpioInt e) = gpio_sim_int_init e"
| "mod_init (ESysfs e) = sysfs_init e"
| "mod_init (EIrqnet r) = irqnet_init r"
| "mod_init (EHrtimer now) = hrtimer_mod_init now"

fun mod_exit :: "episode \<Rightarrow> kcall list" where
  "mod_exit EHello = hello_exit"
| "mod_exit EVintNet = vint_net_unload"
| "mod_exit (EParam lvl name) = param_exit"
| "mod_exit (EChardev e) = mychar_exit"
| "mod_exit (EMychardev e) = my_mychar_exit"
| "mod_exit (EVirtInt e) = virt_unbind e"
| "mod_exit (EGpioDemo e) = gpio_sim_demo_exit demo_bind demo_my_remove e"
| "mod_exit (EGpioInt e) = gpio_sim_int_exit e"
| "mod_exit (ESysfs e) = sysfs_exit"
| "mod_exit (EIrqnet r) = irqnet_exit"
| "mod_exit (EHrtimer now) = hrtimer_mod_exit"

text \<open>What the kernel calls are documented to return; the two drivers that are known to be
  unbalanced on some errors are excepted there.\<close>

fun episode_ok :: "episode \<Rightarrow> bool" where
  "episode_ok (EChardev e) \<longleftrightarrow> chr_env_doc e"
| "episode_ok (EMychardev e) \<longleftrightarrow> all_granted e"
| "episode_ok (EVirtInt e) \<longleftrightarrow> probe_env_doc e"
| "episode_ok (EGpioDemo e) \<longleftrightarrow> sim_env_doc e"
| "episode_ok (EGpioInt e) \<longleftrightarrow> int_env_ok e"
| "episode_ok (ESysfs e) \<longleftrightarrow> sysfs_env_doc e"
| "episode_ok _ \<longleftrightarrow> True"

lemmas module_contracts =
  hello.rollback hello.teardown vint.rollback vint.teardown param.rollback [of "(lvl, name)" for lvl name, simplified]
  param.teardown [of "(lvl, name)" for lvl name, simplified] chr.rollback chr.teardown mychr.rollback mychr.teardown
  virt.rollback virt.teardown gpio_demo.rollback gpio_demo.teardown gpio_int.rollback gpio_int.teardown
  sysfs.rollback sysfs.teardown irqnet.rollback irqnet.teardown hrtimer.rollback hrtimer.teardown

text \<open>All the modules together keep the contract of one.\<close>

interpretation mods: kernel_module mod_init mod_exit episode_ok
proof unfold_locales
  fix m h
  show "episode_ok m \<Longrightarrow> fst (mod_init m) \<noteq> 0 \<Longrightarrow> replay (snd (mod_init m)) h = Some h"
    by (cases m) (auto simp only: episode_ok.simps mod_init.simps simp_thms intro: module_contracts)
  show "episode_ok m \<Longrightarrow> fst (mod_init m) = 0 \<Longrightarrow> replay (snd (mod_init m) @ mod_exit m) h = Some h"
    by (cases m) (auto simp only: episode_ok.simps mod_init.simps mod_exit.simps simp_thms intro: module_contracts)
qed

definition episode_calls :: "episode \<Rightarrow> kcall list" where
  "episode_calls = load_unload mod_init mod_exit"

lemma history_balanced: "\<forall>m \<in> set ms. episode_ok m \<Longrightarrow> replay (concat (map episode_calls ms)) h = Some h"
  by (induction ms) (simp_all add: replay_append episode_calls_def mods.load_unload_balanced)

text \<open>
  Loading and unloading the modules in any order and any number of times, with any of
  their kernel calls failing each time, leaves the kernel with exactly the resources it held
  before; every resource is given back once, newest first. The two drivers that do not
  manage this on every error are taken where they do: \<open>mychardev.c\<close> when everything it asks for is
  granted, \<open>gpio-sim-int.c\<close> when its probe succeeds. A failing load reports its error, except
  for \<open>mychardev.c\<close>, and a missing switch is no error for \<open>virt-int.c\<close>, which then binds without an
  interrupt.
\<close>

lemma module_cycles_balanced:
  assumes "\<forall>m \<in> set ms. episode_ok m"
  shows "replay (concat (map episode_calls ms)) h = Some h \<and>
    (IS_ERR (sw_desc e) \<longrightarrow> fst (virt_bind e) = 0 \<and> (\<forall>i. Acq (KIrq i) \<notin> set (snd (virt_bind e))))"
  using history_balanced [OF assms] virt_int_cycles_balanced [of "[]" e] by simp

lemma module_cycles_balanced_example:
  "replay (concat (map episode_calls
     [EChardev \<lparr>get_free_page = True, alloc_chrdev_region = 0, cdev_add = 0, class_create = ErrPtr (- 12), device_create = Ptr\<rparr>,
      EVirtInt no_hardware, EGpioDemo no_lines, EGpioInt all_lines, ESysfs sysfs_fail_file, EHello,
      EChardev \<lparr>get_free_page = True, alloc_chrdev_region = 0, cdev_add = 0, class_create = Ptr, device_create = Ptr\<rparr>])) []
   = Some [] \<and> fst (virt_bind no_hardware) = 0"
proof -
  have "\<forall>m \<in> set [EChardev \<lparr>get_free_page = True, alloc_chrdev_region = 0, cdev_add = 0, class_create = ErrPtr (- 12), device_create = Ptr\<rparr>,
      EVirtInt no_hardware, EGpioDemo no_lines, EGpioInt all_lines, ESysfs sysfs_fail_file, EHello,
      EChardev \<lparr>get_free_page = True, alloc_chrdev_region = 0, cdev_add = 0, class_create = Ptr, device_create = Ptr\<rparr>]. episode_ok m"
    by (simp add: chr_env_doc_def probe_env_doc_def no_hardware_def sim_env_doc_def no_lines_def
        int_env_ok_def all_lines_def sysfs_env_doc_def sysfs_fail_file_def ENOMEM_def int_bind_def int_my_probe_def)
  from module_cycles_balanced [OF this, of "[]" no_hardware] show ?thesis by (simp add: no_hardware_def)
qed

end
