(* ===== verification/AddressSpace.thy ===== *)
theory AddressSpace
  imports Prelude
begin

text \<open>
  The address space of a 32-bit process as the memory programs of \<open>C/\<close> see it: pages with
  permissions, bytes, the \<open>personality\<close> word. Accesses that the permissions do not allow are
  traps. \<open>mmap\<close> and \<open>munmap\<close> are the kernel's; \<open>mmap_doc\<close> and \<open>munmap_doc\<close> state what their
  manual pages promise.
\<close>

section \<open>Pages and accesses\<close>

definition PG :: int where "PG = 4096"

record prot =
  can_read :: bool
  can_write :: bool
  can_exec :: bool

record vm =
  page_prot :: "int \<Rightarrow> prot option"
  byte_at :: "int \<Rightarrow> char"
  persona :: int

datatype trap = Segv int | IllegalInstruction int

definition allowed :: "(prot \<Rightarrow> bool) \<Rightarrow> vm \<Rightarrow> int \<Rightarrow> nat \<Rightarrow> bool" where
  "allowed f v a n = list_all (\<lambda>i. case page_prot v ((a + int i) div PG) of None \<Rightarrow> False | Some p \<Rightarrow> f p) [0..<n]"

definition bytes_at :: "vm \<Rightarrow> int \<Rightarrow> nat \<Rightarrow> char list" where
  "bytes_at v a n = map (\<lambda>i. byte_at v (a + int i)) [0..<n]"

definition load :: "vm \<Rightarrow> int \<Rightarrow> nat \<Rightarrow> trap + char list" where
  "load v a n = (if allowed can_read v a n then Inr (bytes_at v a n) else Inl (Segv a))"

definition fetch :: "vm \<Rightarrow> int \<Rightarrow> nat \<Rightarrow> trap + char list" where
  "fetch v a n = (if allowed can_exec v a n then Inr (bytes_at v a n) else Inl (Segv a))"

definition poke :: "vm \<Rightarrow> int \<Rightarrow> char list \<Rightarrow> vm" where
  "poke v a bs = v\<lparr>byte_at := (\<lambda>x. if a \<le> x \<and> x < a + int (length bs) then bs ! nat (x - a) else byte_at v x)\<rparr>"

definition store :: "vm \<Rightarrow> int \<Rightarrow> char list \<Rightarrow> trap + vm" where
  "store v a bs = (if allowed can_write v a (length bs) then Inr (poke v a bs) else Inl (Segv a))"

lemma poke_simps [simp]:
  "page_prot (poke v a bs) = page_prot v" "persona (poke v a bs) = persona v"
  "allowed f (poke v a bs) = allowed f v"
  by (simp_all add: poke_def allowed_def fun_eq_iff)

lemma length_bytes_at [simp]: "length (bytes_at v a n) = n"
  by (simp add: bytes_at_def)

lemma bytes_at_poke [simp]: "n = length bs \<Longrightarrow> bytes_at (poke v a bs) a n = bs"
  by (rule nth_equalityI) (simp_all add: bytes_at_def poke_def)

lemma bytes_at_poke_inside:
  "a \<le> b \<Longrightarrow> b + int n \<le> a + int (length bs) \<Longrightarrow> bytes_at (poke v a bs) b n = take n (drop (nat (b - a)) bs)"
  by (rule nth_equalityI) (auto simp: bytes_at_def poke_def nat_diff_distrib nat_add_distrib intro!: arg_cong [of _ _ "nth bs"])

lemma bytes_at_poke_outside:
  "b + int n \<le> a \<or> a + int (length bs) \<le> b \<Longrightarrow> bytes_at (poke v a bs) b n = bytes_at v b n"
  by (rule nth_equalityI) (auto simp: bytes_at_def poke_def)

lemma load_store:
  "store v a bs = Inr v' \<Longrightarrow> allowed can_read v a (length bs) \<Longrightarrow> load v' a (length bs) = Inr bs"
  by (auto simp: store_def load_def split: if_splits)

lemma not_allowed:
  "0 < n \<Longrightarrow> (\<And>p. page_prot v (a div PG) = Some p \<Longrightarrow> \<not> f p) \<Longrightarrow> \<not> allowed f v a n"
  by (auto simp: allowed_def list_all_iff split: option.splits intro!: bexI [of _ 0])

text \<open>Permissions of a whole range of pages give permissions of the accesses inside it.\<close>

definition range_prot :: "(prot \<Rightarrow> bool) \<Rightarrow> vm \<Rightarrow> int \<Rightarrow> int \<Rightarrow> bool" where
  "range_prot f v a b \<longleftrightarrow> (\<forall>pg. a div PG \<le> pg \<and> pg * PG < b \<longrightarrow> (\<exists>p. page_prot v pg = Some p \<and> f p))"

lemma allowed_in_range:
  assumes "range_prot f v a b" "a \<le> x" "x + int n \<le> b"
  shows "allowed f v x n"
proof -
  have "\<exists>p. page_prot v ((x + int i) div PG) = Some p \<and> f p" if "i < n" for i
  proof -
    have "a div PG \<le> (x + int i) div PG" using assms(2) by (intro zdiv_mono1) (simp_all add: PG_def)
    moreover have "(x + int i) div PG * PG \<le> x + int i" by (simp add: PG_def)
    then have "(x + int i) div PG * PG < b" using that assms(3) by linarith
    ultimately show ?thesis using assms(1) by (simp add: range_prot_def)
  qed
  then show ?thesis by (fastforce simp: allowed_def list_all_iff)
qed

text \<open>One byte after the other, as assignments to array elements do it.\<close>

fun store_each :: "vm \<Rightarrow> int \<Rightarrow> char list \<Rightarrow> trap + vm" where
  "store_each v a [] = Inr v"
| "store_each v a (b # bs) = and_then (store v a [b]) (\<lambda>v. store_each v (a + 1) bs)"

lemma allowed_Cons: "allowed f v a (Suc n) \<longleftrightarrow> allowed f v a 1 \<and> allowed f v (a + 1) n"
proof -
  have "[0..<Suc n] = 0 # map Suc [0..<n]" by (simp add: upt_conv_Cons map_Suc_upt)
  then show ?thesis by (simp add: allowed_def list.pred_map comp_def add.assoc)
qed

lemma poke_Cons: "poke (poke v a [b]) (a + 1) bs = poke v a (b # bs)"
proof (rule vm.equality)
  show "byte_at (poke (poke v a [b]) (a + 1) bs) = byte_at (poke v a (b # bs))"
  proof
    fix x
    have "nat (x - a) - 1 = nat (x - (a + 1))" by simp
    then show "byte_at (poke (poke v a [b]) (a + 1) bs) x = byte_at (poke v a (b # bs)) x"
      by (auto simp: poke_def nth_Cons')
  qed
qed (simp_all add: poke_def)

lemma poke_Nil [simp]: "poke v a [] = v"
  by (rule vm.equality) (auto simp: poke_def fun_eq_iff)

lemma store_each_ok: "allowed can_write v a (length bs) \<Longrightarrow> store_each v a bs = Inr (poke v a bs)"
proof (induction bs arbitrary: v a)
  case Nil
  then show ?case by simp
next
  case (Cons b bs)
  from Cons.prems have "allowed can_write v a 1" "allowed can_write v (a + 1) (length bs)"
    using allowed_Cons [of can_write v a "length bs"] by simp_all
  then show ?case using Cons.IH [of "poke v a [b]" "a + 1"] by (simp add: store_def poke_Cons)
qed

lemma page_of_offset: "r mod PG = 0 \<Longrightarrow> 0 \<le> k \<Longrightarrow> k < PG \<Longrightarrow> (r + k) div PG = r div PG"
  by (auto simp: mod_eq_0_iff_dvd elim!: dvdE)

section \<open>Values in memory\<close>

definition int_bytes :: "int \<Rightarrow> char list" where
  "int_bytes x = map (\<lambda>k. char_of (nat (u32 x) div 256 ^ k)) [0..<4]"

definition le_int :: "char list \<Rightarrow> int" where
  "le_int bs = foldr (\<lambda>b y. of_char b + 256 * y) bs 0"

definition bytes_int :: "char list \<Rightarrow> int" where
  "bytes_int bs = s32 (le_int bs)"

lemma length_int_bytes [simp]: "length (int_bytes x) = 4"
  by (simp add: int_bytes_def)

lemma int_bytes_eq:
  "int_bytes x = (let n = nat (u32 x) in [char_of n, char_of (n div 256), char_of (n div 65536), char_of (n div 16777216)])"
proof -
  have "[0..<4::nat] = [0, 1, 2, 3]" by (simp add: upt_conv_Cons)
  then show ?thesis by (simp add: int_bytes_def Let_def)
qed

lemma le_int_bytes: "le_int (int_bytes x) = u32 x"
proof -
  define n where "n = nat (u32 x)"
  have n: "int n = u32 x" "n < 4294967296" using u32_range [of x] by (auto simp: n_def)
  have byte: "(of_char (char_of m) :: int) = int (m mod 256)" for m :: nat
    by (metis char_of_mod_256 of_char_of of_nat_of_char)
  have split: "m mod 256 + 256 * (m div 256) = m" for m :: nat by simp
  have d: "n div 65536 = n div 256 div 256" "n div 16777216 = n div 65536 div 256"
    by (simp_all add: div_mult2_eq [symmetric])
  have top: "n div 256 div 256 div 256 mod 256 = n div 256 div 256 div 256"
    using n(2) by (intro mod_less less_mult_imp_div_less) simp
  have "n mod 256 + 256 * (n div 256 mod 256 + 256 * (n div 65536 mod 256 + 256 * (n div 16777216 mod 256))) = n"
    unfolding d top by (simp only: split)
  then have "int (n mod 256 + 256 * (n div 256 mod 256 + 256 * (n div 65536 mod 256 + 256 * (n div 16777216 mod 256)))) = u32 x"
    using n(1) by (simp only:)
  then have "int (n mod 256) + 256 * (int (n div 256 mod 256) + 256 * (int (n div 65536 mod 256) + 256 * int (n div 16777216 mod 256))) = u32 x"
    by (simp only: of_nat_add of_nat_mult of_nat_numeral)
  then show ?thesis
    unfolding int_bytes_eq Let_def le_int_def by (simp add: byte flip: n_def)
qed

lemma bytes_int_bytes: "bytes_int (int_bytes x) = s32 x"
  by (simp add: bytes_int_def le_int_bytes) (simp add: s32_def u32_def signed_take_bit_take_bit)

section \<open>The kernel's calls\<close>

text \<open>
  A request of \<open>mmap\<close>; \<open>m_fd\<close> is \<open>None\<close> for \<open>MAP_ANONYMOUS\<close>, the offset is in pages. The
  constants are those the programs name.
\<close>

record mmap_req =
  m_addr :: int
  m_len :: int
  m_prot :: prot
  m_fixed :: bool
  m_shared :: bool
  m_fd :: "int option"
  m_pgoff :: int

definition MAP_FAILED :: int where "MAP_FAILED = 4294967295"
definition TASK_SIZE :: int where "TASK_SIZE = 2625634304"
definition READ_IMPLIES_EXEC :: int where "READ_IMPLIES_EXEC = 4194304"

definition PROT_RW :: prot where "PROT_RW = \<lparr>can_read = True, can_write = True, can_exec = False\<rparr>"
definition PROT_RWX :: prot where "PROT_RWX = \<lparr>can_read = True, can_write = True, can_exec = True\<rparr>"

text \<open>The usual request: private anonymous memory, anywhere unless an address is suggested.\<close>

definition anon :: "int \<Rightarrow> int \<Rightarrow> prot \<Rightarrow> mmap_req" where
  "anon a n p = \<lparr>m_addr = a, m_len = n, m_prot = p, m_fixed = False, m_shared = False, m_fd = None, m_pgoff = 0\<rparr>"

definition pages :: "int \<Rightarrow> int" where "pages n = (n + PG - 1) div PG"

definition effective :: "int \<Rightarrow> prot \<Rightarrow> prot" where
  "effective w p = (if bit w 22 \<and> can_read p then p\<lparr>can_exec := True\<rparr> else p)"

type_synonym mmap_call = "vm \<Rightarrow> mmap_req \<Rightarrow> int \<times> vm"
type_synonym munmap_call = "vm \<Rightarrow> int \<Rightarrow> int \<Rightarrow> int \<times> vm"

text \<open>
  What a successful \<open>mmap\<close> that returned \<open>r\<close> has done: the pages of a page-aligned range inside
  the user address space are mapped with the permissions asked for, anonymous ones filled
  with zeros; nothing else changes, and without \<open>MAP_FIXED\<close> the range was free before.
\<close>

definition mapped :: "vm \<Rightarrow> mmap_req \<Rightarrow> int \<Rightarrow> vm \<Rightarrow> bool" where
  "mapped v q r v' \<longleftrightarrow>
     0 \<le> r \<and> r mod PG = 0 \<and> 0 < m_len q \<and> r + m_len q \<le> TASK_SIZE \<and>
     m_pgoff q + pages (m_len q) < 4294967296 \<and>
     (m_fixed q \<longrightarrow> r = m_addr q) \<and>
     (\<forall>pg. r div PG \<le> pg \<and> pg < r div PG + pages (m_len q) \<longrightarrow>
        page_prot v' pg = Some (effective (persona v) (m_prot q)) \<and> (\<not> m_fixed q \<longrightarrow> page_prot v pg = None)) \<and>
     (\<forall>pg. \<not> (r div PG \<le> pg \<and> pg < r div PG + pages (m_len q)) \<longrightarrow> page_prot v' pg = page_prot v pg) \<and>
     (\<forall>x. if r \<le> x \<and> x < r + pages (m_len q) * PG then m_fd q = None \<longrightarrow> byte_at v' x = CHR 0x00
          else byte_at v' x = byte_at v x) \<and>
     persona v' = persona v"

definition mmap_doc :: "mmap_call \<Rightarrow> bool" where
  "mmap_doc K \<longleftrightarrow> (\<forall>v q. case K v q of (r, v') \<Rightarrow>
     if r = MAP_FAILED then \<not> m_fixed q \<longrightarrow> v' = v else mapped v q r v')"

definition munmap_doc :: "munmap_call \<Rightarrow> bool" where
  "munmap_doc U \<longleftrightarrow> (\<forall>v a n. case U v a n of (r, v') \<Rightarrow>
     persona v' = persona v \<and> byte_at v' = byte_at v \<and>
     page_prot v' = (if r = 0 then (\<lambda>pg. if a div PG \<le> pg \<and> pg < a div PG + pages n then None else page_prot v pg)
       else page_prot v))"

lemma mmap_docD:
  "mmap_doc K \<Longrightarrow> K v q = (r, v') \<Longrightarrow> r \<noteq> MAP_FAILED \<Longrightarrow> mapped v q r v'"
  "mmap_doc K \<Longrightarrow> K v q = (MAP_FAILED, v') \<Longrightarrow> \<not> m_fixed q \<Longrightarrow> v' = v"
  by (force simp: mmap_doc_def split: prod.splits if_splits)+

text \<open>Accesses inside a fresh mapping.\<close>

lemma mapped_range:
  assumes "mapped v q r v'" "f (effective (persona v) (m_prot q))"
  shows "range_prot f v' r (r + m_len q)"
  unfolding range_prot_def
proof (intro allI impI)
  fix pg assume pg: "r div PG \<le> pg \<and> pg * PG < r + m_len q"
  have "pg - r div PG < pages (m_len q)"
    using pg assms(1) by (auto simp: mapped_def pages_def PG_def)
  then show "\<exists>p. page_prot v' pg = Some p \<and> f p" using pg assms by (simp add: mapped_def)
qed

lemma mapped_zero:
  assumes "mapped v q r v'" "m_fd q = None" "r \<le> x" "x < r + m_len q"
  shows "byte_at v' x = CHR 0x00"
proof -
  have "m_len q \<le> pages (m_len q) * PG" by (simp add: pages_def PG_def)
  then show ?thesis using assms unfolding mapped_def by (smt (verit))
qed

lemma mapped_bytes_zero:
  assumes "mapped v q r v'" "m_fd q = None" "r \<le> a" "a + int n \<le> r + m_len q"
  shows "bytes_at v' a n = replicate n (CHR 0x00)"
  using assms(3,4) by (intro nth_equalityI) (auto simp: bytes_at_def intro!: mapped_zero [OF assms(1,2)])

text \<open>A kernel that follows the suggested address when it can, and otherwise maps at a fixed place.\<close>

definition free_pages :: "vm \<Rightarrow> int \<Rightarrow> int \<Rightarrow> bool" where
  "free_pages v r n = list_all (\<lambda>pg. page_prot v pg = None) [r div PG .. r div PG + pages n - 1]"

definition map_at :: "vm \<Rightarrow> mmap_req \<Rightarrow> int \<Rightarrow> vm" where
  "map_at v q r = v\<lparr>page_prot := (\<lambda>pg. if r div PG \<le> pg \<and> pg < r div PG + pages (m_len q)
       then Some (effective (persona v) (m_prot q)) else page_prot v pg),
     byte_at := (\<lambda>x. if r \<le> x \<and> x < r + pages (m_len q) * PG then CHR 0x00 else byte_at v x)\<rparr>"

definition plain_mmap :: mmap_call where
  "plain_mmap v q =
     (let r = (if m_fixed q \<or> m_addr q \<noteq> 0 \<and> m_addr q mod PG = 0 then m_addr q else 268435456) in
      if 0 \<le> r \<and> r mod PG = 0 \<and> 0 < m_len q \<and> r + m_len q \<le> TASK_SIZE \<and> m_pgoff q + pages (m_len q) < 4294967296 \<and>
         (\<not> m_fixed q \<longrightarrow> free_pages v r (m_len q))
      then (r, map_at v q r) else (MAP_FAILED, v))"

definition plain_munmap :: munmap_call where
  "plain_munmap v a n = (0, v\<lparr>page_prot := (\<lambda>pg. if a div PG \<le> pg \<and> pg < a div PG + pages n then None else page_prot v pg)\<rparr>)"

lemma map_at_mapped:
  assumes "0 \<le> r" "r mod PG = 0" "0 < m_len q" "r + m_len q \<le> TASK_SIZE" "m_pgoff q + pages (m_len q) < 4294967296"
    "\<not> m_fixed q \<longrightarrow> free_pages v r (m_len q)" "m_fixed q \<longrightarrow> r = m_addr q"
  shows "mapped v q r (map_at v q r)"
proof -
  have "page_prot v pg = None" if "\<not> m_fixed q" "r div PG \<le> pg" "pg < r div PG + pages (m_len q)" for pg
    using assms(6) that by (simp add: free_pages_def list_all_iff)
  then show ?thesis using assms unfolding mapped_def by (simp add: map_at_def)
qed

lemma plain_mmap_doc: "mmap_doc plain_mmap"
  unfolding mmap_doc_def
proof (intro allI)
  fix v :: vm and q :: mmap_req
  define r where "r = (if m_fixed q \<or> m_addr q \<noteq> 0 \<and> m_addr q mod PG = 0 then m_addr q else 268435456)"
  define ok where "ok \<longleftrightarrow> 0 \<le> r \<and> r mod PG = 0 \<and> 0 < m_len q \<and> r + m_len q \<le> TASK_SIZE \<and>
    m_pgoff q + pages (m_len q) < 4294967296 \<and> (\<not> m_fixed q \<longrightarrow> free_pages v r (m_len q))"
  have eq: "plain_mmap v q = (if ok then (r, map_at v q r) else (MAP_FAILED, v))"
    unfolding plain_mmap_def Let_def ok_def r_def ..
  have "r \<noteq> MAP_FAILED" if ok using that by (auto simp: ok_def TASK_SIZE_def MAP_FAILED_def)
  moreover have "mapped v q r (map_at v q r)" if ok
    using that by (intro map_at_mapped) (auto simp: ok_def r_def)
  ultimately show "case plain_mmap v q of (r, v') \<Rightarrow> if r = MAP_FAILED then \<not> m_fixed q \<longrightarrow> v' = v else mapped v q r v'"
    unfolding eq by simp
qed

lemma plain_munmap_doc: "munmap_doc plain_munmap"
  by (simp add: munmap_doc_def plain_munmap_def)

end
