(* ===== verification/RV32.thy ===== *)
theory RV32
  imports AddressSpace
begin

text \<open>
  The part of the RV32I instruction set that the programs of \<open>C/\<close> write as bytes or as inline
  assembly: encoding, decoding, and execution over an address space. A function pointer that
  is called is machine code that runs until it comes back to its return address.
\<close>

unbundle bit_operations_syntax

section \<open>Instructions\<close>

datatype instr =
    LUI "5 word" "20 word"
  | ADDI "5 word" "5 word" "12 word"
  | ADD "5 word" "5 word" "5 word"
  | JALR "5 word" "5 word" "12 word"
  | LW "5 word" "5 word" "12 word"
  | SW "5 word" "5 word" "12 word"

definition field :: "nat \<Rightarrow> 32 word \<Rightarrow> 'a::len word" where
  "field k w = ucast (drop_bit k w)"

text \<open>The formats: I-type immediates in bits 20 to 31, S-type ones split around \<open>rs1\<close> and \<open>rs2\<close>.\<close>

definition enc :: "7 word \<Rightarrow> 5 word \<Rightarrow> 3 word \<Rightarrow> 5 word \<Rightarrow> 12 word \<Rightarrow> 32 word" where
  "enc op rd f3 rs1 imm = ucast op OR push_bit 7 (ucast rd) OR push_bit 12 (ucast f3) OR
     push_bit 15 (ucast rs1) OR push_bit 20 (ucast imm)"

definition s_imm :: "5 word \<Rightarrow> 7 word \<Rightarrow> 12 word" where
  "s_imm lo hi = ucast lo OR push_bit 5 (ucast hi)"

fun encode :: "instr \<Rightarrow> 32 word" where
  "encode (LUI rd imm) = 0x37 OR push_bit 7 (ucast rd) OR push_bit 12 (ucast imm)"
| "encode (ADDI rd rs1 imm) = enc 0x13 rd 0 rs1 imm"
| "encode (ADD rd rs1 rs2) = enc 0x33 rd 0 rs1 (ucast rs2)"
| "encode (JALR rd rs1 imm) = enc 0x67 rd 0 rs1 imm"
| "encode (LW rd rs1 imm) = enc 0x03 rd 2 rs1 imm"
| "encode (SW rs2 rs1 imm) = enc 0x23 (ucast imm) 2 rs1 (ucast rs2 OR push_bit 5 (drop_bit 5 imm))"

definition decode :: "32 word \<Rightarrow> instr option" where
  "decode w =
     (let op = field 0 w :: 7 word; rd = field 7 w; f3 = field 12 w :: 3 word; rs1 = field 15 w;
          rs2 = field 20 w; imm = field 20 w; f7 = field 25 w :: 7 word in
      if op = 0x37 then Some (LUI rd (field 12 w))
      else if op = 0x13 \<and> f3 = 0 then Some (ADDI rd rs1 imm)
      else if op = 0x33 \<and> f3 = 0 \<and> f7 = 0 then Some (ADD rd rs1 rs2)
      else if op = 0x67 \<and> f3 = 0 then Some (JALR rd rs1 imm)
      else if op = 0x03 \<and> f3 = 2 then Some (LW rd rs1 imm)
      else if op = 0x23 \<and> f3 = 2 then Some (SW rs2 rs1 (s_imm rd f7))
      else None)"

lemma field_enc:
  "field 0 (enc op rd f3 rs1 imm) = op" "field 7 (enc op rd f3 rs1 imm) = rd"
  "field 12 (enc op rd f3 rs1 imm) = f3" "field 15 (enc op rd f3 rs1 imm) = rs1"
  "field 20 (enc op rd f3 rs1 imm) = imm"
  "field 20 (enc op rd f3 rs1 imm) = (ucast imm :: 5 word)"
  "field 25 (enc op rd f3 rs1 imm) = (ucast (drop_bit 5 imm) :: 7 word)"
  unfolding field_def enc_def
  by (rule bit_word_eqI; auto simp: bit_simps dest: bit_imp_le_length)+

lemma field_lui:
  "field 0 (0x37 OR push_bit 7 (ucast rd) OR push_bit 12 (ucast imm)) = (0x37 :: 7 word)"
  "field 7 (0x37 OR push_bit 7 (ucast rd) OR push_bit 12 (ucast imm)) = (rd :: 5 word)"
  "field 12 (0x37 OR push_bit 7 (ucast rd) OR push_bit 12 (ucast imm)) = (imm :: 20 word)"
  unfolding field_def
  by (rule bit_word_eqI; auto simp: bit_simps dest: bit_imp_le_length)+

lemma imm_parts:
  fixes a :: "5 word" and imm :: "12 word"
  shows "(ucast (ucast a :: 12 word) :: 5 word) = a" "(ucast (drop_bit 5 (ucast a :: 12 word)) :: 7 word) = 0"
    "(ucast (ucast a OR push_bit 5 (drop_bit 5 imm)) :: 5 word) = a"
    "s_imm (ucast imm) (ucast (drop_bit 5 (ucast a) OR drop_bit 5 (push_bit 5 (drop_bit 5 imm)))) = imm"
  unfolding s_imm_def
  by (rule bit_word_eqI; auto simp: bit_simps dest: bit_imp_le_length)+

lemma decode_encode: "decode (encode i) = Some i"
  by (cases i) (simp_all add: decode_def Let_def field_enc field_lui imm_parts)

section \<open>Execution\<close>

record cpu =
  regs :: "5 word \<Rightarrow> 32 word"
  pc :: "32 word"

definition reg :: "cpu \<Rightarrow> 5 word \<Rightarrow> 32 word" where
  "reg c r = (if r = 0 then 0 else regs c r)"

text \<open>The write of a result and the step to the next instruction.\<close>

definition put :: "5 word \<Rightarrow> 32 word \<Rightarrow> cpu \<Rightarrow> cpu" where
  "put r x c = \<lparr>regs = (regs c)(r := x), pc = pc c + 4\<rparr>"

fun exec_instr :: "instr \<Rightarrow> vm \<Rightarrow> cpu \<Rightarrow> trap + vm \<times> cpu" where
  "exec_instr (LUI rd imm) v c = Inr (v, put rd (push_bit 12 (ucast imm)) c)"
| "exec_instr (ADDI rd rs1 imm) v c = Inr (v, put rd (reg c rs1 + scast imm) c)"
| "exec_instr (ADD rd rs1 rs2) v c = Inr (v, put rd (reg c rs1 + reg c rs2) c)"
| "exec_instr (JALR rd rs1 imm) v c =
     Inr (v, (put rd (pc c + 4) c)\<lparr>pc := (reg c rs1 + scast imm) AND NOT 1\<rparr>)"
| "exec_instr (LW rd rs1 imm) v c =
     and_then (load v (uint (reg c rs1 + scast imm)) 4) (\<lambda>bs. Inr (v, put rd (word_of_int (le_int bs)) c))"
| "exec_instr (SW rs2 rs1 imm) v c =
     and_then (store v (uint (reg c rs1 + scast imm)) (int_bytes (uint (reg c rs2)))) (\<lambda>v. Inr (v, c\<lparr>pc := pc c + 4\<rparr>))"

definition step :: "vm \<Rightarrow> cpu \<Rightarrow> trap + vm \<times> cpu" where
  "step v c = and_then (fetch v (uint (pc c)) 4) (\<lambda>bs.
     case decode (word_of_int (le_int bs)) of
       None \<Rightarrow> Inl (IllegalInstruction (uint (pc c)))
     | Some i \<Rightarrow> exec_instr i v c)"

text \<open>Straight-line assembly, and machine code that runs until it is back at \<open>ra\<close>.\<close>

fun exec_asm :: "instr list \<Rightarrow> vm \<Rightarrow> cpu \<Rightarrow> trap + vm \<times> cpu" where
  "exec_asm [] v c = Inr (v, c)"
| "exec_asm (i # is) v c = and_then (exec_instr i v c) (\<lambda>(v, c). exec_asm is v c)"

partial_function (option) run_to :: "32 word \<Rightarrow> vm \<Rightarrow> cpu \<Rightarrow> (trap + vm \<times> cpu) option" where
  "run_to ra v c =
     (if pc c = ra then Some (Inr (v, c))
      else (case step v c of
              Inl t \<Rightarrow> Some (Inl t)
            | Inr (v, c) \<Rightarrow> run_to ra v c))"

definition call_code :: "32 word \<Rightarrow> 32 word \<Rightarrow> vm \<Rightarrow> cpu \<Rightarrow> (trap + vm \<times> cpu) option" where
  "call_code a ra v c = run_to ra v \<lparr>regs = (regs c)(1 := ra), pc = a\<rparr>"

lemma reg_put [simp]: "reg (put r x c) q = (if q = 0 then 0 else if q = r then x else reg c q)"
  by (simp add: reg_def put_def)

lemma pc_put [simp]: "pc (put r x c) = pc c + 4"
  by (simp add: put_def)

lemma step_code:
  assumes "fetch v (uint (pc c)) 4 = Inr (int_bytes (uint (encode i)))"
  shows "step v c = exec_instr i v c"
proof -
  have "u32 (uint w) = uint w" for w :: "32 word"
    using uint_bounded [of w] by (intro u32_id) simp_all
  then have "(word_of_int (le_int (int_bytes (uint (encode i)))) :: 32 word) = encode i"
    by (simp add: le_int_bytes)
  then show ?thesis by (simp add: step_def assms decode_encode)
qed

section \<open>The function built in memory\<close>

text \<open>The bytes stored into \<open>inst\<close>, the same in \<open>mem_ex1.c\<close> to \<open>mem_ex4.c\<close>, and what their
  comments say they are.\<close>

definition mem_ex_bytes :: "char list" where
  "mem_ex_bytes = map char_of [0x37, 0x15, 0x00, 0x00::nat, 0x13, 0x05, 0x15, 0x00, 0x67, 0x80, 0x00, 0x00]"

definition mem_ex_asm :: "instr list" where
  "mem_ex_asm = [LUI 10 1, ADDI 10 10 1, JALR 0 1 0]"

lemma mem_ex_assembled: "mem_ex_bytes = concat (map (\<lambda>i. int_bytes (uint (encode i))) mem_ex_asm)"
  by (simp add: mem_ex_bytes_def mem_ex_asm_def enc_def int_bytes_eq u32_def Let_def)

lemma allowed_part: "allowed f v a n \<Longrightarrow> k + m \<le> n \<Longrightarrow> allowed f v (a + int k) m"
  by (force simp: allowed_def list_all_iff add.assoc simp flip: of_nat_add)

lemma bytes_at_part: "k + m \<le> n \<Longrightarrow> bytes_at v (a + int k) m = take m (drop k (bytes_at v a n))"
  by (rule nth_equalityI) (auto simp: bytes_at_def add.assoc)

lemma mem_ex_fetch:
  assumes "allowed can_exec v a 12" "bytes_at v a 12 = mem_ex_bytes" "k < 3"
  shows "fetch v (a + int (4 * k)) 4 = Inr (int_bytes (uint (encode (mem_ex_asm ! k))))"
proof -
  have "take 4 (drop (4 * k) mem_ex_bytes) = int_bytes (uint (encode (mem_ex_asm ! k)))"
    using assms(3) unfolding mem_ex_assembled
    by (auto simp: mem_ex_asm_def less_Suc_eq numeral_3_eq_3)
  moreover have "allowed can_exec v (a + int (4 * k)) 4" using assms(1,3) by (intro allowed_part) auto
  moreover have "bytes_at v (a + int (4 * k)) 4 = take 4 (drop (4 * k) mem_ex_bytes)"
    using bytes_at_part [of "4 * k" 4 12 v a] assms(2,3) by simp
  ultimately show ?thesis by (simp add: fetch_def)
qed

lemma run_to_step: "pc c \<noteq> ra \<Longrightarrow> step v c = Inr (v', c') \<Longrightarrow> run_to ra v c = run_to ra v' c'"
  by (subst run_to.simps) simp

lemma mem_ex_call:
  assumes a: "uint a + 12 \<le> 4294967296" and code: "allowed can_exec v (uint a) 12" "bytes_at v (uint a) 12 = mem_ex_bytes"
    and ra: "ra \<notin> {a, a + 4, a + 8}" "ra AND NOT 1 = ra"
  obtains c' where "call_code a ra v c = Some (Inr (v, c'))" "reg c' 10 = 0x1001" "pc c' = ra"
    "\<And>r. r \<noteq> 10 \<Longrightarrow> reg c' r = reg (c\<lparr>regs := (regs c)(1 := ra)\<rparr>) r"
proof -
  define c0 where "c0 = \<lparr>regs = (regs c)(1 := ra), pc = a\<rparr>"
  define c1 where "c1 = put 10 (push_bit 12 (ucast (1 :: 20 word))) c0"
  define c2 where "c2 = put 10 (reg c1 10 + scast (1 :: 12 word)) c1"
  define c3 where "c3 = (put 0 (pc c2 + 4) c2)\<lparr>pc := (reg c2 1 + scast (0 :: 12 word)) AND NOT 1\<rparr>"
  have u: "uint (a + 4) = uint a + 4" "uint (a + 8) = uint a + 8"
    using a by (simp_all add: uint_plus_if_size word_size)
  have pcs: "pc c0 = a" "pc c1 = a + 4" "pc c2 = a + 8"
    by (simp_all add: c0_def c1_def c2_def)
  note fetch = mem_ex_fetch [OF code]
  have "step v c0 = Inr (v, c1)"
    using fetch [of 0] step_code [of v c0 "LUI 10 1"] by (simp add: mem_ex_asm_def pcs c1_def)
  moreover have "step v c1 = Inr (v, c2)"
    using fetch [of 1] step_code [of v c1 "ADDI 10 10 1"] by (simp add: mem_ex_asm_def pcs u c2_def)
  moreover have "step v c2 = Inr (v, c3)"
    using fetch [of 2] step_code [of v c2 "JALR 0 1 0"] by (simp add: mem_ex_asm_def pcs u c3_def)
  moreover have r: "reg c2 1 = ra" by (simp add: c2_def c1_def c0_def reg_def put_def)
  then have "pc c3 = ra" using ra(2) by (simp add: c3_def)
  ultimately have "call_code a ra v c = Some (Inr (v, c3))"
    using ra(1) run_to_step [of c0 ra v v c1] run_to_step [of c1 ra v v c2] run_to_step [of c2 ra v v c3]
    by (auto simp add: call_code_def pcs c0_def [symmetric] run_to.simps [of ra v c3])
  moreover have "reg c3 10 = 0x1001"
    by (simp add: c3_def c2_def c1_def reg_def put_def)
  moreover have "reg c3 q = reg (c\<lparr>regs := (regs c)(1 := ra)\<rparr>) q" if "q \<noteq> 10" for q
    using that by (simp add: c3_def c2_def c1_def c0_def reg_def put_def)
  ultimately show thesis using \<open>pc c3 = ra\<close> by (rule_tac that)
qed

lemma call_code_not_executable:
  "\<not> allowed can_exec v (uint a) 4 \<Longrightarrow> a \<noteq> ra \<Longrightarrow> call_code a ra v c = Some (Inl (Segv (uint a)))"
  by (simp add: call_code_def run_to.simps [of ra v "\<lparr>regs = (regs c)(1 := ra), pc = a\<rparr>"] step_def fetch_def)

end
