(* ===== verification/MemCode.thy ===== *)
theory MemCode
  imports RV32
begin

text \<open>
  The programs that build a function in memory and call it, \<open>C/mem_ex1.c\<close> to \<open>C/mem_ex4.c\<close>,
  and the one that moves its stack pointer in assembly, \<open>C/mem_stack.c\<close>.
\<close>

section \<open>Programs\<close>

datatype mem_out = Text string | Failed string | MappedAt int | Persona int | Result int

text \<open>A program's run: what it printed, its exit status and the address space it leaves, or a trap;
  \<open>None\<close> if the called code never returns. \<open>c\<close> are the registers at the call, \<open>ra\<close> the return
  address the call instruction stores.\<close>

type_synonym mem_run = "(trap + mem_out list \<times> int \<times> vm) option"

definition build_and_call :: "string \<Rightarrow> 32 word \<Rightarrow> 32 word \<Rightarrow> vm \<Rightarrow> cpu \<Rightarrow> mem_run" where
  "build_and_call success inst ra v c =
     (case store_each v (uint inst) mem_ex_bytes of
        Inl t \<Rightarrow> Some (Inl t)
      | Inr v \<Rightarrow> map_option (\<lambda>r. and_then r (\<lambda>(v, c).
          Inr ([Result (sint (reg c 10)), Text success], 0, v))) (call_code inst ra v c))"

definition mem_ex1 :: "32 word \<Rightarrow> 32 word \<Rightarrow> vm \<Rightarrow> cpu \<Rightarrow> mem_run" where
  "mem_ex1 inst ra v c = build_and_call ''Success! READ_IMPLIES_EXEC made it executable.'' inst ra v c"

text \<open>The other three map 16 bytes first, and unmap them at the end.\<close>

definition map_build_call :: "mmap_call \<Rightarrow> munmap_call \<Rightarrow> prot \<Rightarrow> string \<Rightarrow> 32 word \<Rightarrow> vm \<Rightarrow> cpu \<Rightarrow> mem_run" where
  "map_build_call K U p success ra v c =
     (case K v (anon 0 16 p) of (inst, v) \<Rightarrow>
        if inst = MAP_FAILED then Some (Inr ([Failed ''mmap failed''], 1, v))
        else map_option (\<lambda>r. and_then r (\<lambda>(os, x, v). Inr (MappedAt inst # os, x, snd (U v inst 16))))
               (build_and_call success (word_of_int inst) ra v c))"

definition mem_ex2 :: "mmap_call \<Rightarrow> munmap_call \<Rightarrow> 32 word \<Rightarrow> vm \<Rightarrow> cpu \<Rightarrow> mem_run" where
  "mem_ex2 K U ra v c = map_build_call K U PROT_RWX ''Success! '' ra v c"

definition mem_ex3 :: "mmap_call \<Rightarrow> munmap_call \<Rightarrow> 32 word \<Rightarrow> vm \<Rightarrow> cpu \<Rightarrow> mem_run" where
  "mem_ex3 K U ra v c = map_build_call K U PROT_RW ''Success! '' ra v c"

text \<open>\<open>personality\<close> returns the previous word and sets a new one, unless it is asked with all ones.\<close>

type_synonym personality_call = "vm \<Rightarrow> int \<Rightarrow> int \<times> vm"

definition personality_doc :: "personality_call \<Rightarrow> bool" where
  "personality_doc P \<longleftrightarrow> (\<forall>v w. P v w = (persona v, if w = 4294967295 then v else v\<lparr>persona := w\<rparr>))"

definition mem_ex4 :: "personality_call \<Rightarrow> mmap_call \<Rightarrow> munmap_call \<Rightarrow> 32 word \<Rightarrow> vm \<Rightarrow> cpu \<Rightarrow> mem_run" where
  "mem_ex4 P K U ra v c =
     (let (old_persona, v) = P v 4294967295;
          v = snd (P v (old_persona OR READ_IMPLIES_EXEC));
          (new_persona, v) = P v 4294967295 in
      map_option (\<lambda>r. and_then r (\<lambda>(os, x, v). Inr (Persona new_persona # os, x, v)))
        (map_build_call K U PROT_RW ''Success! READ_IMPLIES_EXEC made it executable.'' ra v c))"

section \<open>What they do\<close>

text \<open>The caller's own code does not lie in the page that is mapped, and return addresses are even.\<close>

definition ra_ok :: "vm \<Rightarrow> 32 word \<Rightarrow> bool" where
  "ra_ok v ra \<longleftrightarrow> ra AND NOT 1 = ra \<and> page_prot v (uint ra div PG) \<noteq> None"

lemma build_and_call_executable:
  assumes w: "range_prot can_write v (uint inst) (uint inst + 16)" and x: "range_prot can_exec v (uint inst) (uint inst + 16)"
    and a: "uint inst + 16 \<le> 4294967296" and ra: "ra \<notin> {inst, inst + 4, inst + 8}" "ra AND NOT 1 = ra"
  shows "build_and_call s inst ra v c =
    Some (Inr ([Result 0x1001, Text s], 0, poke v (uint inst) mem_ex_bytes))"
proof -
  have len: "length mem_ex_bytes = 12" by (simp add: mem_ex_bytes_def)
  define v1 where "v1 = poke v (uint inst) mem_ex_bytes"
  have st: "store_each v (uint inst) mem_ex_bytes = Inr v1"
    unfolding v1_def using allowed_in_range [OF w, of "uint inst" 12] by (intro store_each_ok) (simp add: len)
  have ex: "allowed can_exec v1 (uint inst) 12"
    using allowed_in_range [OF x, of "uint inst" 12] by (simp add: v1_def)
  have bs: "bytes_at v1 (uint inst) 12 = mem_ex_bytes" by (simp add: v1_def len)
  have a12: "uint inst + 12 \<le> 4294967296" using a by simp
  obtain c' where "call_code inst ra v1 c = Some (Inr (v1, c'))" "reg c' 10 = 0x1001"
    by (rule mem_ex_call [OF a12 ex bs ra, of c]) blast
  then show ?thesis by (simp add: build_and_call_def st flip: v1_def)
qed

lemma build_and_call_not_executable:
  assumes w: "range_prot can_write v (uint inst) (uint inst + 16)" and x: "\<not> allowed can_exec v (uint inst) 4"
    and ra: "ra \<noteq> inst"
  shows "build_and_call s inst ra v c = Some (Inl (Segv (uint inst)))"
proof -
  have len: "length mem_ex_bytes = 12" by (simp add: mem_ex_bytes_def)
  have "store_each v (uint inst) mem_ex_bytes = Inr (poke v (uint inst) mem_ex_bytes)"
    using allowed_in_range [OF w, of "uint inst" 12] by (intro store_each_ok) (simp add: len)
  then show ?thesis
    using x ra call_code_not_executable [of "poke v (uint inst) mem_ex_bytes" inst ra c] by (simp add: build_and_call_def)
qed

text \<open>A fresh mapping of 16 bytes: inside the address space, and none of the caller's pages.\<close>

lemma mapped_16:
  assumes m: "mapped v (anon 0 16 p) r v'" and ra: "ra_ok v ra"
  shows "uint (word_of_int r :: 32 word) = r" "r + 16 \<le> 4294967296"
    "ra \<notin> {word_of_int r, word_of_int r + 4, word_of_int r + 8}" "r \<noteq> uint ra"
proof -
  have r: "0 \<le> r" "r mod PG = 0" "r + 16 \<le> TASK_SIZE" "page_prot v (r div PG) = None"
    using m by (auto simp: mapped_def anon_def pages_def PG_def)
  show u: "uint (word_of_int r :: 32 word) = r" "r + 16 \<le> 4294967296"
    using r by (auto simp: TASK_SIZE_def uint_word_of_int take_bit_int_eq_self)
  have off: "uint ra \<noteq> r + k" if "0 \<le> k" "k < 16" for k
  proof
    assume "uint ra = r + k"
    then have "uint ra div PG = r div PG" using page_of_offset [OF r(2), of k] that by (simp add: PG_def)
    then show False using ra r(4) by (simp add: ra_ok_def)
  qed
  show "r \<noteq> uint ra" using off [of 0] by simp
  have "uint (word_of_int r + 4 :: 32 word) = r + 4" "uint (word_of_int r + 8 :: 32 word) = r + 8"
    using u by (simp_all add: uint_plus_if_size word_size)
  then show "ra \<notin> {word_of_int r, word_of_int r + 4, word_of_int r + 8}"
    using off [of 0] off [of 4] off [of 8] u(1) by auto
qed

lemma map_build_call_outcome:
  assumes K: "mmap_doc K" and ra: "ra_ok v ra" and p: "can_read p" "can_write p"
  shows "(\<exists>v'. map_build_call K U p s ra v c = Some (Inr ([Failed ''mmap failed''], 1, v'))) \<or>
    (\<exists>inst v'. map_build_call K U p s ra v c =
      (if can_exec p \<or> bit (persona v) 22
       then Some (Inr ([MappedAt inst, Result 0x1001, Text s], 0, snd (U v' inst 16)))
       else Some (Inl (Segv inst))))"
proof -
  obtain r v' where m: "K v (anon 0 16 p) = (r, v')" by fastforce
  show ?thesis
  proof (cases "r = MAP_FAILED")
    case True
    then show ?thesis by (simp add: map_build_call_def m)
  next
    case False
    then have mp: "mapped v (anon 0 16 p) r v'" using mmap_docD(1) [OF K m] by simp
    note f = mapped_16 [OF mp ra]
    have range: "range_prot g v' r (r + 16)" if "g (effective (persona v) p)" for g
      using mapped_range [OF mp, of g] that by (simp add: anon_def)
    have w: "range_prot can_write v' r (r + 16)" using p by (intro range) (simp add: effective_def)
    have even: "ra AND NOT 1 = ra" using ra by (simp add: ra_ok_def)
    show ?thesis
    proof (cases "can_exec p \<or> bit (persona v) 22")
      case True
      then have "range_prot can_exec v' r (r + 16)" using p by (intro range) (auto simp: effective_def)
      with w build_and_call_executable [of v' "word_of_int r" ra s c] f even
      have "build_and_call s (word_of_int r) ra v' c = Some (Inr ([Result 0x1001, Text s], 0, poke v' r mem_ex_bytes))"
        by simp
      then show ?thesis using True False
        by (intro disjI2 exI [of _ r] exI [of _ "poke v' r mem_ex_bytes"]) (simp add: map_build_call_def m)
    next
      case no: False
      then have "page_prot v' (r div PG) = Some p"
        using mp by (auto simp: mapped_def anon_def pages_def PG_def effective_def)
      then have "\<not> allowed can_exec v' r 4" using no by (intro not_allowed) simp_all
      with w build_and_call_not_executable [of v' "word_of_int r" ra s c] f
      have "build_and_call s (word_of_int r) ra v' c = Some (Inl (Segv r))" by auto
      then show ?thesis using no False by (intro disjI2 exI [of _ r]) (simp add: map_build_call_def m)
    qed
  qed
qed

text \<open>
  C18: the twelve bytes the programs store are the assembly their comments give, every
  instruction is recovered from its encoding, and calling them is a function: it returns to
  its caller with 0x1001 in \<open>a0\<close>, having changed no memory and no register but \<open>a0\<close> and the
  return address.
\<close>

theorem mem_ex_code:
  assumes "uint a + 12 \<le> 4294967296" "allowed can_exec v (uint a) 12" "bytes_at v (uint a) 12 = mem_ex_bytes"
    and "ra \<notin> {a, a + 4, a + 8}" "ra AND NOT 1 = ra"
  shows "mem_ex_bytes = concat (map (\<lambda>i. int_bytes (uint (encode i))) [LUI 10 0x1, ADDI 10 10 0x1, JALR 0 1 0]) \<and>
    (\<forall>i. decode (encode i) = Some i) \<and>
    (\<exists>c'. call_code a ra v c = Some (Inr (v, c')) \<and> reg c' 10 = 0x1001 \<and> pc c' = ra \<and>
      (\<forall>r. r \<noteq> 10 \<and> r \<noteq> 1 \<longrightarrow> reg c' r = reg c r))"
proof (intro conjI)
  show "mem_ex_bytes = concat (map (\<lambda>i. int_bytes (uint (encode i))) [LUI 10 0x1, ADDI 10 10 0x1, JALR 0 1 0])"
    using mem_ex_assembled by (simp add: mem_ex_asm_def)
  show "\<forall>i. decode (encode i) = Some i" by (simp add: decode_encode)
  obtain c' where "call_code a ra v c = Some (Inr (v, c'))" "reg c' 10 = 0x1001" "pc c' = ra"
    "\<And>r. r \<noteq> 10 \<Longrightarrow> reg c' r = reg (c\<lparr>regs := (regs c)(1 := ra)\<rparr>) r"
    by (rule mem_ex_call [OF assms, of c]) blast
  then show "\<exists>c'. call_code a ra v c = Some (Inr (v, c')) \<and> reg c' 10 = 0x1001 \<and> pc c' = ra \<and>
      (\<forall>r. r \<noteq> 10 \<and> r \<noteq> 1 \<longrightarrow> reg c' r = reg c r)"
    by (intro exI [of _ c']) (simp add: reg_def)
qed

definition code_page :: "bool \<Rightarrow> vm" where
  "code_page x = \<lparr>page_prot = (\<lambda>pg. if pg = 16 then Some \<lparr>can_read = True, can_write = True, can_exec = x\<rparr>
       else if pg = 32 then Some PROT_RWX else None),
     byte_at = (\<lambda>_. CHR 0x00), persona = 0\<rparr>"

definition plain_cpu :: cpu where "plain_cpu = \<lparr>regs = (\<lambda>_. 7), pc = 0\<rparr>"

theorem mem_ex_code_witness:
  "\<exists>c'. call_code 0x10000 0x20004 (poke (code_page True) 0x10000 mem_ex_bytes) plain_cpu =
     Some (Inr (poke (code_page True) 0x10000 mem_ex_bytes, c')) \<and> reg c' 10 = 0x1001 \<and> pc c' = 0x20004 \<and>
     (\<forall>r. r \<noteq> 10 \<and> r \<noteq> 1 \<longrightarrow> reg c' r = reg plain_cpu r)"
proof (rule mem_ex_code [THEN conjunct2, THEN conjunct2])
  have "range_prot can_exec (code_page True) 65536 65552"
    by (auto simp: range_prot_def code_page_def PG_def)
  from allowed_in_range [OF this, of 65536 12]
  show "allowed can_exec (poke (code_page True) 0x10000 mem_ex_bytes) (uint (0x10000 :: 32 word)) 12" by simp
qed (simp_all add: mem_ex_bytes_def)

lemma personality_twice:
  assumes "personality_doc P" "0 \<le> persona v" "persona v < 2147483648"
  shows "P v 4294967295 = (persona v, v)"
    "snd (P v (persona v OR READ_IMPLIES_EXEC)) = v\<lparr>persona := persona v OR READ_IMPLIES_EXEC\<rparr>"
    "bit (persona v OR READ_IMPLIES_EXEC) 22"
proof -
  have "persona v OR READ_IMPLIES_EXEC < 2 ^ 31"
    using assms(2,3) by (intro OR_upper) (simp_all add: READ_IMPLIES_EXEC_def)
  then show "P v 4294967295 = (persona v, v)"
    "snd (P v (persona v OR READ_IMPLIES_EXEC)) = v\<lparr>persona := persona v OR READ_IMPLIES_EXEC\<rparr>"
    using assms(1) by (auto simp: personality_doc_def)
  have "bit READ_IMPLIES_EXEC 22" by (simp add: READ_IMPLIES_EXEC_def bit_iff_odd)
  then show "bit (persona v OR READ_IMPLIES_EXEC) 22" by (simp add: bit_simps)
qed


definition plain_personality :: personality_call where
  "plain_personality v w = (persona v, if w = 4294967295 then v else v\<lparr>persona := w\<rparr>)"


section \<open>A moved stack\<close>

text \<open>The pseudo-instruction \<open>li\<close>: the upper 20 bits, rounded for the signed lower 12, and those.\<close>

definition li :: "5 word \<Rightarrow> 32 word \<Rightarrow> instr list" where
  "li rd n = [LUI rd (ucast (drop_bit 12 (n + 0x800))), ADDI rd rd (ucast n)]"

text \<open>
  The two \<open>asm\<close> statements of \<open>mem_stack.c\<close>, \<open>t0\<close> being register 5 and \<open>sp\<close> register 2; \<open>tmp\<close>
  is the register the compiler chose for \<open>%0\<close>. \<open>between\<close> is the call of \<open>printf\<close>.
\<close>

definition move_down :: "instr list" where
  "move_down = li 5 (- 1000000) @ [ADD 2 2 5, SW 5 2 10]"

definition move_up :: "5 word \<Rightarrow> instr list" where
  "move_up tmp = li 5 1000000 @ [LW tmp 2 10, ADD 2 2 5]"

definition mem_stack :: "(vm \<times> cpu \<Rightarrow> vm \<times> cpu) \<Rightarrow> 5 word \<Rightarrow> vm \<Rightarrow> cpu \<Rightarrow> trap + mem_out list \<times> vm \<times> cpu" where
  "mem_stack between tmp v c =
     and_then (exec_asm move_down v c) (\<lambda>s.
     and_then (case between s of (v, c) \<Rightarrow> exec_asm (move_up tmp) v c) (\<lambda>(v, c).
     Inr ([Text ''stack moved'', Result (sint (reg c tmp))], v, c)))"

text \<open>What the calling convention promises of \<open>printf\<close>: the stack pointer comes back, and nothing
  at or above it is changed or unmapped.\<close>

definition callee_doc :: "(vm \<times> cpu \<Rightarrow> vm \<times> cpu) \<Rightarrow> bool" where
  "callee_doc f \<longleftrightarrow> (\<forall>v c. case f (v, c) of (v', c') \<Rightarrow>
     reg c' 2 = reg c 2 \<and> (\<forall>x \<ge> uint (reg c 2). byte_at v' x = byte_at v x) \<and>
     (\<forall>pg p. page_prot v pg = Some p \<longrightarrow> page_prot v' pg = Some p))"

lemma exec_li:
  assumes "rd \<noteq> 0" "push_bit 12 (ucast (ucast (drop_bit 12 (n + 0x800)) :: 20 word)) + scast (ucast n :: 12 word) = n"
  shows "exec_asm (li rd n @ is) v c = exec_asm is v \<lparr>regs = (regs c)(rd := n), pc = pc c + 8\<rparr>"
  using assms by (simp add: li_def put_def reg_def add.commute [of 8])

lemma exec_li_million:
  "exec_asm (li 5 (- 1000000) @ is) v c = exec_asm is v \<lparr>regs = (regs c)(5 := - 1000000), pc = pc c + 8\<rparr>"
  "exec_asm (li 5 1000000 @ is) v c = exec_asm is v \<lparr>regs = (regs c)(5 := 1000000), pc = pc c + 8\<rparr>"
  by (rule exec_li; simp)+

lemma allowed_mono:
  "allowed f v a n \<Longrightarrow> (\<And>pg p. page_prot v pg = Some p \<Longrightarrow> page_prot v' pg = Some p) \<Longrightarrow> allowed f v' a n"
  by (fastforce simp: allowed_def list_all_iff split: option.splits)

text \<open>
  Moving the stack pointer by a million bytes and back leaves it where it was, and the word
  stored through the moved pointer is what is printed at the end, as long as that address is
  mapped and \<open>printf\<close> behaves as the calling convention says.
\<close>

lemma mem_stack_restores:
  assumes B: "callee_doc between" and tmp: "tmp \<notin> {0, 2, 5}" and sp: "1000000 \<le> uint (reg c 2)"
    and rw: "allowed can_write v (uint (reg c 2) - 999990) 4" "allowed can_read v (uint (reg c 2) - 999990) 4"
  shows "\<exists>v' c'. mem_stack between tmp v c = Inr ([Text ''stack moved'', Result (- 1000000)], v', c') \<and> reg c' 2 = reg c 2"
proof -
  define sp' where "sp' = reg c 2 - 1000000"
  have u: "uint sp' = uint (reg c 2) - 1000000" "uint (sp' + 10) = uint (reg c 2) - 999990"
    "uint (reg c 2 - 999990) = uint (reg c 2) - 999990"
    using sp uint_bounded [of "reg c 2"] unfolding sp'_def by (simp_all add: uint_word_ariths)
  define a where "a = uint (sp' + 10)"
  define v1 where "v1 = poke v a (int_bytes (uint (- 1000000 :: 32 word)))"
  define c1 where "c1 = \<lparr>regs = (regs c)(5 := - 1000000, 2 := sp'), pc = pc c + 16\<rparr>"
  have down: "exec_asm move_down v c = Inr (v1, c1)"
    using rw(1) unfolding move_down_def exec_li_million
    using u(3) by (simp add: put_def reg_def store_def v1_def c1_def a_def u sp'_def)
  obtain v2 c2 where bt: "between (v1, c1) = (v2, c2)" by fastforce
  have "reg c1 2 = sp'" by (simp add: c1_def reg_def)
  with B bt have b: "reg c2 2 = sp'" "\<forall>x \<ge> uint sp'. byte_at v2 x = byte_at v1 x"
    "\<And>pg p. page_prot v1 pg = Some p \<Longrightarrow> page_prot v2 pg = Some p"
    by (auto simp: callee_doc_def split: prod.splits)
  have "allowed can_read v2 a 4"
    using rw(2) u by (intro allowed_mono [OF _ b(3)]) (simp_all add: v1_def a_def)
  moreover have "bytes_at v2 a 4 = bytes_at v1 a 4"
    using b(2) u by (simp add: bytes_at_def a_def)
  then have "bytes_at v2 a 4 = int_bytes (uint (- 1000000 :: 32 word))" by (simp add: v1_def)
  ultimately have ld: "load v2 (uint (sp' + 10)) 4 = Inr (int_bytes (uint (- 1000000 :: 32 word)))"
    by (simp add: load_def a_def)
  have val: "(word_of_int (le_int (int_bytes 4293967296)) :: 32 word) = - 1000000"
    by (simp add: le_int_bytes u32_def)
  define c3 where "c3 = \<lparr>regs = (regs c2)(5 := 1000000, tmp := - 1000000, 2 := sp' + 1000000), pc = pc c2 + 16\<rparr>"
  have "exec_asm (move_up tmp) v2 c2 = Inr (v2, c3)"
    using tmp b(1) ld unfolding move_up_def exec_li_million
    by (simp add: put_def reg_def val c3_def)
  then have "mem_stack between tmp v c = Inr ([Text ''stack moved'', Result (- 1000000)], v2, c3)"
    using tmp by (simp add: mem_stack_def down bt) (simp add: c3_def reg_def)
  moreover have "reg c3 2 = reg c 2" by (simp add: c3_def reg_def sp'_def)
  ultimately show ?thesis by blast
qed

definition stack_page :: vm where
  "stack_page = \<lparr>page_prot = (\<lambda>pg. if 0 \<le> pg then Some PROT_RW else None), byte_at = (\<lambda>_. CHR 0x00), persona = 0\<rparr>"

lemma mem_stack_restores_example:
  "\<exists>v' c'. mem_stack id 10 stack_page \<lparr>regs = (\<lambda>_. 2000000), pc = 0\<rparr> =
     Inr ([Text ''stack moved'', Result (- 1000000)], v', c') \<and> reg c' 2 = 2000000"
proof -
  let ?c = "\<lparr>regs = (\<lambda>_. 2000000), pc = 0\<rparr>"
  have r: "reg ?c 2 = 2000000" by (simp add: reg_def)
  have "allowed f stack_page (uint (reg ?c 2) - 999990) 4" if "f PROT_RW" for f
    using that by (simp add: allowed_def stack_page_def r PG_def list_all_iff pos_imp_zdiv_nonneg_iff)
  then show ?thesis
    using mem_stack_restores [of id 10 ?c stack_page] r by (simp add: callee_doc_def PROT_RW_def)
qed

end
