(* ===== verification/MapPrograms.thy ===== *)
theory MapPrograms
  imports AddressSpace
begin

text \<open>
  The programs that try out \<open>mmap\<close>: a mapping replaced by \<open>MAP_FIXED\<close> (\<open>C/mmap_fixed.c\<close>), page
  zero (\<open>C/mmap_zero.c\<close>), a fixed pointer with and without a mapping (\<open>C/user_mmap.c\<close>,
  \<open>C/user_read.c\<close>), walks over low pages (\<open>C/testlow.c\<close>, \<open>C/zeroacc.c\<close>), requests beyond the
  limits (\<open>C/mmap_ovf.c\<close>, \<open>C/mmap_tasksz.c\<close>), and loops over mapped files
  (\<open>C/mmap_write.c\<close>, \<open>C/zero_mmap.c\<close>).
\<close>

unbundle bit_operations_syntax

section \<open>Output, integers and strings in memory\<close>

datatype map_out = Says string | Fails string | Cell int int | Addr int | Str int string | Byte int int

type_synonym map_run = "trap + map_out list \<times> int"

definition load_int :: "vm \<Rightarrow> int \<Rightarrow> trap + int" where
  "load_int v a = and_then (load v a 4) (\<lambda>bs. Inr (bytes_int bs))"

definition store_int :: "vm \<Rightarrow> int \<Rightarrow> int \<Rightarrow> trap + vm" where
  "store_int v a x = store v a (int_bytes x)"

text \<open>What \<open>%s\<close> reads: bytes up to the first NUL; \<open>None\<close> if there is no end.\<close>

partial_function (option) str_at :: "vm \<Rightarrow> int \<Rightarrow> (trap + string) option" where
  "str_at v a =
     (case load v a 1 of
        Inl t \<Rightarrow> Some (Inl t)
      | Inr bs \<Rightarrow> if bs = [NUL] then Some (Inr [])
                  else Option.bind (str_at v (a + 1)) (\<lambda>r. Some (and_then r (\<lambda>s. Inr (bs @ s)))))"

lemma str_at_stored:
  assumes "allowed can_read v a (Suc (length s))" "bytes_at v a (Suc (length s)) = s @ [NUL]" "NUL \<notin> set s"
  shows "str_at v a = Some (Inr s)"
  using assms
proof (induction s arbitrary: a)
  case Nil
  then show ?case by (subst str_at.simps) (simp add: load_def)
next
  case (Cons x s)
  have split: "bytes_at v a (Suc n) = byte_at v a # bytes_at v (a + 1) n" for n
    by (simp add: bytes_at_def upt_conv_Cons map_Suc_upt [symmetric] add.assoc del: upt_Suc)
  from Cons.prems have "x = byte_at v a" "bytes_at v (a + 1) (Suc (length s)) = s @ [NUL]" "allowed can_read v a 1"
    "allowed can_read v (a + 1) (Suc (length s))"
    using split [of "Suc (length s)"] allowed_Cons [of can_read v a "Suc (length s)"] by auto
  moreover have "bytes_at v a 1 = [byte_at v a]" using split [of 0] by (simp add: bytes_at_def)
  moreover have "byte_at v a \<noteq> NUL" using Cons.prems(3) \<open>x = byte_at v a\<close> by auto
  ultimately show ?case using Cons.IH [of "a + 1"] Cons.prems(3)
    by (subst str_at.simps) (simp add: load_def)
qed

lemma store_load_int:
  "store_int v a x = Inr v' \<Longrightarrow> allowed can_read v a 4 \<Longrightarrow> load_int v' a = Inr (s32 x)"
  by (auto simp: store_int_def load_int_def store_def load_def bytes_int_bytes split: if_splits)

section \<open>Single mappings\<close>

definition MADR :: int where "MADR = 268435456"

definition mmap_fixed :: "mmap_call \<Rightarrow> vm \<Rightarrow> map_run option" where
  "mmap_fixed K v =
     (case K v (anon MADR 4096 PROT_RW) of (prevmap, v) \<Rightarrow>
      if prevmap = MAP_FAILED then Some (Inr ([Fails ''prevmap mmap failed''], 1)) else
      case store v prevmap (''PREVIOUS MAP DATA'' @ [NL, NUL]) of
        Inl t \<Rightarrow> Some (Inl t)
      | Inr v \<Rightarrow>
        (case str_at v prevmap of None \<Rightarrow> None | Some (Inl t) \<Rightarrow> Some (Inl t) | Some (Inr s) \<Rightarrow>
         (case K v ((anon prevmap 4096 PROT_RW)\<lparr>m_fixed := True\<rparr>) of (newmap, v) \<Rightarrow>
          if newmap = MAP_FAILED then Some (Inr ([Str prevmap s, Fails ''newmap mmap failed''], 1)) else
          map_option (\<lambda>r. and_then (load v newmap 1) (\<lambda>b. and_then r (\<lambda>s'.
            Inr ([Str prevmap s, Byte newmap (of_char (hd b)), Str newmap s'], 0)))) (str_at v newmap))))"

definition mmap_zero :: "mmap_call \<Rightarrow> vm \<Rightarrow> map_run" where
  "mmap_zero K v =
     (case K v ((anon 0 4096 PROT_RW)\<lparr>m_fixed := True\<rparr>) of (p, v) \<Rightarrow>
      if p AND 4095 \<noteq> 0 then Inr ([Fails ''mmap ERROR''], -1) else
      and_then (store_int v p 1) (\<lambda>v. and_then (load_int v p) (\<lambda>x. Inr ([Cell p x], 0))))"

definition user_mmap :: "mmap_call \<Rightarrow> vm \<Rightarrow> map_run" where
  "user_mmap K v =
     (let p = 268435456; (mm, v) = K v (anon p 4096 PROT_RW) in
      and_then (store_int v p 10) (\<lambda>v. and_then (load_int v p) (\<lambda>x. Inr ([Cell p x, Addr mm], 0))))"

definition user_read :: "vm \<Rightarrow> map_run" where
  "user_read v = and_then (load_int v 268435456) (\<lambda>x. Inr ([Cell 268435456 x], 0))"

section \<open>Requests beyond the limits\<close>

definition mmap_ovf :: "mmap_call \<Rightarrow> vm \<Rightarrow> map_run" where
  "mmap_ovf K v =
     (let (prevmap, v) = K v (anon MADR 4294963201 PROT_RW);
          (newmap, v) = K v ((anon MADR 16777216 PROT_RW)\<lparr>m_pgoff := 4294963200\<rparr>) in
      Inr ((if prevmap = MAP_FAILED then [Fails ''case1 mmap failed''] else []) @
           (if newmap = MAP_FAILED then [Fails ''case2 mmap failed''] else []) @
           [Addr prevmap, Addr newmap], 0))"

definition mmap_tasksz :: "mmap_call \<Rightarrow> vm \<Rightarrow> map_run" where
  "mmap_tasksz K v =
     (let (prevmap, v) = K v (anon 0 (u32 (TASK_SIZE + PG)) PROT_RW) in
      Inr ((if prevmap = MAP_FAILED then [Fails ''mmap failed''] else []) @ [Addr prevmap], 0))"

section \<open>What they do\<close>

lemma mapped_anon:
  assumes "mapped v q r v'" "m_fd q = None" "m_prot q = p" "can_read p" "can_write p"
  shows "r \<le> a \<Longrightarrow> a + int n \<le> r + m_len q \<Longrightarrow> allowed can_read v' a n"
    and "r \<le> a \<Longrightarrow> a + int n \<le> r + m_len q \<Longrightarrow> allowed can_write v' a n"
    and "r \<le> a \<Longrightarrow> a + int n \<le> r + m_len q \<Longrightarrow> bytes_at v' a n = replicate n NUL"
  using allowed_in_range [OF mapped_range [OF assms(1), of can_read], of a n]
    allowed_in_range [OF mapped_range [OF assms(1), of can_write], of a n]
    mapped_bytes_zero [OF assms(1,2), of a n] assms(3-5)
  by (simp_all add: effective_def NUL_def)

lemma prot_rw [simp]: "can_read PROT_RW" "can_write PROT_RW" "can_read PROT_RWX" "can_write PROT_RWX"
  by (simp_all add: PROT_RW_def PROT_RWX_def)

lemma anon_simps [simp]:
  "m_addr (anon a n p) = a" "m_len (anon a n p) = n" "m_prot (anon a n p) = p" "\<not> m_fixed (anon a n p)"
  "m_fd (anon a n p) = None" "m_pgoff (anon a n p) = 0"
  by (simp_all add: anon_def)

lemma of_char_NUL [simp]: "(of_char NUL :: int) = 0"
  by (simp add: NUL_def)

lemma map_failed_unaligned: "MAP_FAILED AND 4095 \<noteq> 0"
  by (simp add: MAP_FAILED_def)

text \<open>An integer stored into a fresh mapping and read back.\<close>

lemma mapped_int:
  assumes "mapped v q r v'" "m_fd q = None" "m_prot q = p" "can_read p" "can_write p" "r \<le> a" "a + 4 \<le> r + m_len q"
  shows "\<exists>v2. store_int v' a x = Inr v2 \<and> load_int v2 a = Inr (s32 x) \<and> page_prot v2 = page_prot v'"
proof -
  note f = mapped_anon [OF assms(1-5), of a 4]
  have st: "store_int v' a x = Inr (poke v' a (int_bytes x))"
    using f(2) assms(6,7) by (simp add: store_int_def store_def)
  with store_load_int [OF st] f(1) assms(6,7) show ?thesis by simp
qed

lemma mmap_fixed_outcome:
  assumes K: "mmap_doc K"
  shows "mmap_fixed K v = Some (Inr ([Fails ''prevmap mmap failed''], 1)) \<or>
    (\<exists>a. mmap_fixed K v = Some (Inr ([Str a (''PREVIOUS MAP DATA'' @ [NL]), Fails ''newmap mmap failed''], 1)) \<or>
         mmap_fixed K v = Some (Inr ([Str a (''PREVIOUS MAP DATA'' @ [NL]), Byte a 0, Str a []], 0)))"
proof -
  define prev where "prev = ''PREVIOUS MAP DATA'' @ [NL]"
  obtain a v1 where m1: "K v (anon MADR 4096 PROT_RW) = (a, v1)" by fastforce
  show ?thesis
  proof (cases "a = MAP_FAILED")
    case True
    then show ?thesis by (simp add: mmap_fixed_def m1)
  next
    case False
    note f1 = mapped_anon [OF mmap_docD(1) [OF K m1 False], of PROT_RW, simplified]
    define v2 where "v2 = poke v1 a (prev @ [NUL])"
    have len: "length prev = 18" by (simp add: prev_def)
    have st: "store v1 a (''PREVIOUS MAP DATA'' @ [NL, NUL]) = Inr v2"
      using f1(2) [of a 19] by (simp add: store_def v2_def prev_def eval_nat_numeral)
    have rd: "str_at v2 a = Some (Inr prev)"
    proof (rule str_at_stored)
      show "allowed can_read v2 a (Suc (length prev))" using f1(1) [of a 19] by (simp add: v2_def len)
      show "bytes_at v2 a (Suc (length prev)) = prev @ [NUL]" by (simp add: v2_def)
      show "NUL \<notin> set prev" by (simp add: prev_def NUL_def NL_def)
    qed
    obtain b v3 where m2: "K v2 ((anon a 4096 PROT_RW)\<lparr>m_fixed := True\<rparr>) = (b, v3)" by fastforce
    show ?thesis
    proof (cases "b = MAP_FAILED")
      case True
      then have "mmap_fixed K v = Some (Inr ([Str a prev, Fails ''newmap mmap failed''], 1))"
        using False by (simp add: mmap_fixed_def m1 st [simplified] rd m2)
      then show ?thesis unfolding prev_def by blast
    next
      case ok: False
      then have mp: "mapped v2 ((anon a 4096 PROT_RW)\<lparr>m_fixed := True\<rparr>) b v3" using mmap_docD(1) [OF K m2] by simp
      then have b: "b = a" by (simp add: mapped_def)
      note f2 = mapped_anon [OF mp, of PROT_RW, simplified]
      have z: "bytes_at v3 a 1 = [NUL]" "allowed can_read v3 a 1" using f2(1,3) [of a 1] b by simp_all
      have "str_at v3 a = Some (Inr [])" using z by (intro str_at_stored) simp_all
      moreover have "load v3 a 1 = Inr [NUL]" using z by (simp add: load_def)
      ultimately have "mmap_fixed K v = Some (Inr ([Str a prev, Byte a 0, Str a []], 0))"
        using False ok by (simp add: mmap_fixed_def m1 st [simplified] rd m2 b)
      then show ?thesis unfolding prev_def by blast
    qed
  qed
qed

lemma mmap_zero_outcome:
  assumes K: "mmap_doc K"
  shows "mmap_zero K v = (if fst (K v ((anon 0 4096 PROT_RW)\<lparr>m_fixed := True\<rparr>)) = MAP_FAILED
    then Inr ([Fails ''mmap ERROR''], -1) else Inr ([Cell 0 1], 0))"
proof -
  obtain p v1 where m: "K v ((anon 0 4096 PROT_RW)\<lparr>m_fixed := True\<rparr>) = (p, v1)" by fastforce
  show ?thesis
  proof (cases "p = MAP_FAILED")
    case True
    then show ?thesis using map_failed_unaligned by (simp add: mmap_zero_def m)
  next
    case False
    then have mp: "mapped v ((anon 0 4096 PROT_RW)\<lparr>m_fixed := True\<rparr>) p v1" using mmap_docD(1) [OF K m] by simp
    then have p: "p = 0" by (simp add: mapped_def)
    obtain v2 where "store_int v1 0 1 = Inr v2" "load_int v2 0 = Inr (s32 1)"
      using mapped_int [OF mp, of PROT_RW 0 1] p by auto
    then show ?thesis using False p by (simp add: mmap_zero_def m s32_id)
  qed
qed

text \<open>The suggested page is writable only if the kernel followed the suggestion.\<close>

lemma hint_refused:
  assumes K: "mmap_doc K" and free: "page_prot v 65536 = None"
    and m: "K v (anon 268435456 4096 PROT_RW) = (mm, v1)" and mm: "mm \<noteq> 268435456"
  shows "\<not> allowed can_write v1 268435456 4"
proof -
  have "page_prot v1 65536 = None"
  proof (cases "mm = MAP_FAILED")
    case True
    then show ?thesis using mmap_docD(2) [OF K m [unfolded True]] free by simp
  next
    case ok: False
    then have "mapped v (anon 268435456 4096 PROT_RW) mm v1" using mmap_docD(1) [OF K m] by simp
    then have "mm mod PG = 0" "\<forall>pg. \<not> (mm div PG \<le> pg \<and> pg < mm div PG + pages 4096) \<longrightarrow> page_prot v1 pg = page_prot v pg"
      by (auto simp: mapped_def)
    moreover have "mm div PG \<noteq> 65536" using mm \<open>mm mod PG = 0\<close> by (auto simp: PG_def)
    moreover have "pages 4096 = 1" by (simp add: pages_def PG_def)
    ultimately show ?thesis using free by simp
  qed
  then show ?thesis by (intro not_allowed) (simp_all add: PG_def)
qed

lemma user_mmap_outcome:
  assumes K: "mmap_doc K" and free: "page_prot v 65536 = None"
  shows "user_mmap K v = (if fst (K v (anon 268435456 4096 PROT_RW)) = 268435456
    then Inr ([Cell 268435456 10, Addr 268435456], 0) else Inl (Segv 268435456))"
proof -
  obtain mm v1 where m: "K v (anon 268435456 4096 PROT_RW) = (mm, v1)" by fastforce
  show ?thesis
  proof (cases "mm = 268435456")
    case True
    then have mp: "mapped v (anon 268435456 4096 PROT_RW) 268435456 v1" using mmap_docD(1) [OF K m] by (simp add: MAP_FAILED_def)
    obtain v2 where "store_int v1 268435456 10 = Inr v2" "load_int v2 268435456 = Inr (s32 10)"
      using mapped_int [OF mp, of PROT_RW 268435456 10] by auto
    then show ?thesis using True by (simp add: user_mmap_def m s32_id)
  next
    case False
    then show ?thesis using hint_refused [OF K free m] by (simp add: user_mmap_def m store_int_def store_def)
  qed
qed

text \<open>
  What one mapping gives, whatever the kernel decides. A mapping replaced with
  \<open>MAP_FIXED\<close> has lost the text of the old one and reads as zeros; \<open>mmap_zero\<close>'s test of the low
  address bits tells success from failure, and on success page zero is written and read;
  \<open>user_mmap\<close>, which ignores what \<open>mmap\<close> returned, works exactly when the kernel followed its
  suggestion and otherwise dies on its pointer, as \<open>user_read\<close> always does.
\<close>

lemma mmap_programs:
  assumes K: "mmap_doc K" and free: "page_prot v 65536 = None"
  shows "(mmap_fixed K v = Some (Inr ([Fails ''prevmap mmap failed''], 1)) \<or>
      (\<exists>a. mmap_fixed K v = Some (Inr ([Str a (''PREVIOUS MAP DATA'' @ [NL]), Fails ''newmap mmap failed''], 1)) \<or>
           mmap_fixed K v = Some (Inr ([Str a (''PREVIOUS MAP DATA'' @ [NL]), Byte a 0, Str a []], 0)))) \<and>
    mmap_zero K v = (if fst (K v ((anon 0 4096 PROT_RW)\<lparr>m_fixed := True\<rparr>)) = MAP_FAILED
      then Inr ([Fails ''mmap ERROR''], -1) else Inr ([Cell 0 1], 0)) \<and>
    user_mmap K v = (if fst (K v (anon 268435456 4096 PROT_RW)) = 268435456
      then Inr ([Cell 268435456 10, Addr 268435456], 0) else Inl (Segv 268435456)) \<and>
    user_read v = Inl (Segv 268435456)"
proof (intro conjI)
  have "\<not> allowed can_read v 268435456 4" using free by (intro not_allowed) (simp_all add: PG_def)
  then show "user_read v = Inl (Segv 268435456)" by (simp add: user_read_def load_int_def load_def)
qed (rule mmap_fixed_outcome [OF K] mmap_zero_outcome [OF K] user_mmap_outcome [OF K free])+

definition empty_vm :: vm where
  "empty_vm = \<lparr>page_prot = (\<lambda>_. None), byte_at = (\<lambda>_. CHR 0x41), persona = 0\<rparr>"

lemma mmap_programs_example:
  "mmap_zero plain_mmap empty_vm = Inr ([Cell 0 1], 0) \<and>
   user_mmap plain_mmap empty_vm = Inr ([Cell 268435456 10, Addr 268435456], 0) \<and>
   user_read empty_vm = Inl (Segv 268435456)"
proof -
  have free: "page_prot empty_vm 65536 = None" by (simp add: empty_vm_def)
  have f: "free_pages empty_vm r n" for r n by (simp add: free_pages_def empty_vm_def list_all_iff)
  have "fst (plain_mmap empty_vm ((anon 0 4096 PROT_RW)\<lparr>m_fixed := True\<rparr>)) = 0"
    by (simp add: plain_mmap_def Let_def TASK_SIZE_def pages_def PG_def)
  moreover have "fst (plain_mmap empty_vm (anon 268435456 4096 PROT_RW)) = 268435456"
    using f by (simp add: plain_mmap_def Let_def TASK_SIZE_def pages_def PG_def)
  ultimately show ?thesis
    using mmap_programs [OF plain_mmap_doc free] by (simp add: MAP_FAILED_def)
qed

text \<open>
  The requests of \<open>mmap_ovf\<close> (a length whose rounding wraps around, a page offset whose end
  does) and of \<open>mmap_tasksz\<close> (one page more than the user address space) fail under every
  kernel, are reported, and both programs go on to their end.
\<close>

lemma mmap_limits:
  assumes K: "mmap_doc K"
  shows "mmap_ovf K v = Inr ([Fails ''case1 mmap failed'', Fails ''case2 mmap failed'', Addr MAP_FAILED, Addr MAP_FAILED], 0) \<and>
    mmap_tasksz K v = Inr ([Fails ''mmap failed'', Addr MAP_FAILED], 0)"
proof -
  have fails: "fst (K u q) = MAP_FAILED" if "TASK_SIZE < m_len q \<or> 4294967296 \<le> m_pgoff q + pages (m_len q)" for u q
  proof (rule ccontr)
    assume no: "fst (K u q) \<noteq> MAP_FAILED"
    obtain r u' where m: "K u q = (r, u')" by fastforce
    with no have "mapped u q r u'" using mmap_docD(1) [OF K] by simp
    then show False using that by (auto simp: mapped_def)
  qed
  have "fst (K u (anon MADR 4294963201 PROT_RW)) = MAP_FAILED" for u
    by (rule fails) (simp add: TASK_SIZE_def)
  moreover have "fst (K u ((anon MADR 16777216 PROT_RW)\<lparr>m_pgoff := 4294963200\<rparr>)) = MAP_FAILED" for u
    by (rule fails) (simp add: pages_def PG_def)
  moreover have "fst (K u (anon 0 (u32 (TASK_SIZE + PG)) PROT_RW)) = MAP_FAILED" for u
    by (rule fails) (simp add: TASK_SIZE_def PG_def u32_id)
  ultimately show ?thesis
    by (simp add: mmap_ovf_def mmap_tasksz_def Let_def case_prod_unfold)
qed

lemma mmap_limits_example:
  "mmap_tasksz plain_mmap empty_vm = Inr ([Fails ''mmap failed'', Addr MAP_FAILED], 0)"
  using mmap_limits [OF plain_mmap_doc, of empty_vm] by simp

section \<open>Walks over low pages\<close>

text \<open>What was printed, and the trap that ended the run, if any.\<close>

function testlow_loop :: "mmap_call \<Rightarrow> munmap_call \<Rightarrow> int \<Rightarrow> vm \<Rightarrow> map_out list \<times> trap option" where
  "testlow_loop K U i v =
     (if 0 < i
      then let v = snd (U v i 4096); (p, v) = K v (anon i 4096 PROT_RW) in
        (case load_int v p of
           Inl t \<Rightarrow> ([], Some t)
         | Inr x \<Rightarrow> (case testlow_loop K U (i - 4096) v of (os, t) \<Rightarrow> (Cell p x # os, t)))
      else ([], None))"
  by pat_completeness auto

termination by (relation "measure (\<lambda>(_, _, i, _). nat i)") auto

definition testlow :: "mmap_call \<Rightarrow> munmap_call \<Rightarrow> vm \<Rightarrow> map_out list \<times> trap option" where
  "testlow K U v = testlow_loop K U 61440 v"

function zeroacc_loop :: "mmap_call \<Rightarrow> int \<Rightarrow> vm \<Rightarrow> map_out list \<times> trap option" where
  "zeroacc_loop K i v =
     (if 0 < i
      then let (p, v) = K v (anon i 4096 PROT_RWX) in
        (case and_then (store_int v p i) (\<lambda>v. and_then (load_int v p) (\<lambda>x. Inr (x, v))) of
           Inl t \<Rightarrow> ([Addr p], Some t)
         | Inr (x, v) \<Rightarrow> (case zeroacc_loop K (i - 4096) v of (os, t) \<Rightarrow> (Addr p # Cell p x # os, t)))
      else ([], None))"
  by pat_completeness auto

termination by (relation "measure (\<lambda>(_, i, _). nat i)") auto

definition zeroacc :: "mmap_call \<Rightarrow> vm \<Rightarrow> map_out list \<times> trap option" where
  "zeroacc K v = zeroacc_loop K 1048576 v"

declare testlow_loop.simps [simp del] zeroacc_loop.simps [simp del]

text \<open>Only pages below \<open>TASK_SIZE\<close> can be mapped, so \<open>MAP_FAILED\<close> is never a valid pointer.\<close>

definition user_vm :: "vm \<Rightarrow> bool" where
  "user_vm v \<longleftrightarrow> (\<forall>pg \<ge> TASK_SIZE div PG. page_prot v pg = None)"

lemma user_vm_mmap: "mmap_doc K \<Longrightarrow> K v q = (r, v') \<Longrightarrow> \<not> m_fixed q \<Longrightarrow> user_vm v \<Longrightarrow> user_vm v'"
proof (cases "r = MAP_FAILED")
  case True
  then show "mmap_doc K \<Longrightarrow> K v q = (r, v') \<Longrightarrow> \<not> m_fixed q \<Longrightarrow> user_vm v \<Longrightarrow> user_vm v'"
    using mmap_docD(2) by blast
next
  case False
  assume K: "mmap_doc K" "K v q = (r, v')" and u: "user_vm v"
  have m: "mapped v q r v'" using mmap_docD(1) [OF K False] .
  have "r div PG + pages (m_len q) \<le> TASK_SIZE div PG"
  proof -
    have "r mod PG = 0" "r + m_len q \<le> TASK_SIZE" using m by (auto simp: mapped_def)
    then show ?thesis by (auto simp: pages_def PG_def TASK_SIZE_def mod_eq_0_iff_dvd elim!: dvdE)
  qed
  then show "user_vm v'" using m u by (auto simp: user_vm_def mapped_def)
qed

lemma user_vm_munmap: "munmap_doc U \<Longrightarrow> user_vm v \<Longrightarrow> user_vm (snd (U v a n))"
proof -
  assume U: "munmap_doc U" and v: "user_vm v"
  obtain r v' where m: "U v a n = (r, v')" by fastforce
  then have "page_prot v' = (if r = 0 then (\<lambda>pg. if a div PG \<le> pg \<and> pg < a div PG + pages n then None else page_prot v pg)
       else page_prot v)"
    using U [unfolded munmap_doc_def, rule_format, of v a n] m by simp
  then show ?thesis using v m by (simp add: user_vm_def)
qed

lemma user_vm_store: "store_int v a x = Inr v' \<Longrightarrow> user_vm v \<Longrightarrow> user_vm v'"
  by (auto simp: store_int_def store_def user_vm_def split: if_splits)

lemma failed_pointer: "user_vm v \<Longrightarrow> \<not> allowed f v MAP_FAILED 4"
proof -
  assume "user_vm v"
  moreover have "TASK_SIZE div PG \<le> MAP_FAILED div PG" by (simp add: MAP_FAILED_def PG_def TASK_SIZE_def)
  ultimately have "page_prot v (MAP_FAILED div PG) = None" by (simp only: user_vm_def)
  then show ?thesis by (intro not_allowed) simp_all
qed

text \<open>The pages at which a walk of \<open>n\<close> pages down from page \<open>m\<close> looks.\<close>

lemma testlow_loop_outcome:
  assumes K: "mmap_doc K" "munmap_doc U"
  shows "user_vm v \<Longrightarrow> \<exists>ps. length ps \<le> m \<and> testlow_loop K U (4096 * int m) v =
     (map (\<lambda>p. Cell p 0) ps, if length ps = m then None else Some (Segv MAP_FAILED))"
proof (induction m arbitrary: v)
  case 0
  then show ?case by (simp add: testlow_loop.simps [of K U 0])
next
  case (Suc m)
  define i where "i = 4096 * int (Suc m)"
  define v1 where "v1 = snd (U v i 4096)"
  obtain p v2 where mm: "K v1 (anon i 4096 PROT_RW) = (p, v2)" by fastforce
  have u: "user_vm v1" "user_vm v2"
    using user_vm_munmap [OF K(2) Suc.prems] user_vm_mmap [OF K(1) mm] by (simp_all add: v1_def)
  have i: "0 < i" "i - 4096 = 4096 * int m" by (simp_all add: i_def)
  have step: "testlow_loop K U i v = (case load_int v2 p of Inl t \<Rightarrow> ([], Some t)
      | Inr x \<Rightarrow> (case testlow_loop K U (4096 * int m) v2 of (os, t) \<Rightarrow> (Cell p x # os, t)))"
    unfolding i(2) [symmetric] by (subst testlow_loop.simps) (simp add: i(1) mm flip: v1_def)
  show ?case
  proof (cases "p = MAP_FAILED")
    case True
    have "load_int v2 p = Inl (Segv MAP_FAILED)"
      using failed_pointer [OF u(2)] True by (simp add: load_int_def load_def)
    then have "testlow_loop K U i v = ([], Some (Segv MAP_FAILED))" by (simp add: step)
    then show ?thesis by (intro exI [of _ "[]"]) (simp add: i_def)
  next
    case False
    note f = mapped_anon [OF mmap_docD(1) [OF K(1) mm False], of PROT_RW p 4, simplified]
    have "bytes_int [NUL, NUL, NUL, NUL] = 0"
      by (simp add: bytes_int_def le_int_def s32_def)
    then have "load_int v2 p = Inr 0" using f by (simp add: load_int_def load_def numeral_eq_Suc)
    moreover obtain ps where "length ps \<le> m" "testlow_loop K U (4096 * int m) v2 =
       (map (\<lambda>p. Cell p 0) ps, if length ps = m then None else Some (Segv MAP_FAILED))"
      using Suc.IH [OF u(2)] by blast
    ultimately show ?thesis
      unfolding i_def [symmetric] by (intro exI [of _ "p # ps"]) (simp add: step)
  qed
qed

lemma zeroacc_loop_outcome:
  assumes K: "mmap_doc K"
  shows "m < 262144 \<Longrightarrow> user_vm v \<Longrightarrow> \<exists>ps. length ps \<le> m \<and> zeroacc_loop K (4096 * int m) v =
     (concat (map (\<lambda>(k, p). [Addr p, Cell p (4096 * int (m - k))]) (enumerate 0 ps)) @
        (if length ps = m then [] else [Addr MAP_FAILED]),
      if length ps = m then None else Some (Segv MAP_FAILED))"
proof (induction m arbitrary: v)
  case 0
  then show ?case by (simp add: zeroacc_loop.simps [of K 0])
next
  case (Suc m)
  define i where "i = 4096 * int (Suc m)"
  obtain p v2 where mm: "K v (anon i 4096 PROT_RWX) = (p, v2)" by fastforce
  have u: "user_vm v2" using user_vm_mmap [OF K mm] Suc.prems by simp
  have i: "0 < i" "i - 4096 = 4096 * int m" "s32 i = i" using Suc.prems by (auto simp: i_def intro: s32_id)
  show ?case
  proof (cases "p = MAP_FAILED")
    case True
    have "store_int v2 p i = Inl (Segv MAP_FAILED)"
      using failed_pointer [OF u] True by (auto simp: store_int_def store_def)
    then have "zeroacc_loop K i v = ([Addr MAP_FAILED], Some (Segv MAP_FAILED))"
      by (subst zeroacc_loop.simps) (simp add: i(1) mm True)
    then show ?thesis by (intro exI [of _ "[]"]) (simp add: i_def)
  next
    case False
    obtain v3 where st: "store_int v2 p i = Inr v3" "load_int v3 p = Inr i"
      using mapped_int [OF mmap_docD(1) [OF K mm False], of PROT_RWX p i] i(3) by auto
    obtain ps where ps: "length ps \<le> m" "zeroacc_loop K (4096 * int m) v3 =
       (concat (map (\<lambda>(k, p). [Addr p, Cell p (4096 * int (m - k))]) (enumerate 0 ps)) @
        (if length ps = m then [] else [Addr MAP_FAILED]), if length ps = m then None else Some (Segv MAP_FAILED))"
      using Suc.IH [of v3] Suc.prems user_vm_store [OF st(1) u] by auto
    have "concat (map (\<lambda>(k, p). [Addr p, Cell p (4096 * int (Suc m - k))]) (enumerate (Suc 0) ps)) =
        concat (map (\<lambda>(k, p). [Addr p, Cell p (4096 * int (m - k))]) (enumerate 0 ps))"
      by (rule arg_cong [of _ _ concat], rule nth_equalityI) (simp_all add: nth_enumerate_eq)
    moreover have "zeroacc_loop K i v = (case zeroacc_loop K (4096 * int m) v3 of (os, t) \<Rightarrow> (Addr p # Cell p i # os, t))"
      by (subst zeroacc_loop.simps) (simp add: i(1,2) mm st)
    ultimately show ?thesis using ps
      by (intro exI [of _ "p # ps"]) (simp add: i_def)
  qed
qed

text \<open>
  Both walks end. Each page they get reads as the value it should have (zero in
  \<open>testlow\<close>, the loop's counter in \<open>zeroacc\<close>), and the first page the kernel refuses ends the
  program with an access to \<open>MAP_FAILED\<close>, the result neither of them checks.
\<close>

lemma low_page_walks:
  assumes K: "mmap_doc K" "munmap_doc U" and v: "user_vm v"
  shows "(\<exists>ps. length ps \<le> 15 \<and> testlow K U v =
      (map (\<lambda>p. Cell p 0) ps, if length ps = 15 then None else Some (Segv MAP_FAILED))) \<and>
    (\<exists>ps. length ps \<le> 256 \<and> zeroacc K v =
      (concat (map (\<lambda>(k, p). [Addr p, Cell p (4096 * int (256 - k))]) (enumerate 0 ps)) @
        (if length ps = 256 then [] else [Addr MAP_FAILED]),
       if length ps = 256 then None else Some (Segv MAP_FAILED)))"
  using testlow_loop_outcome [OF K v, of 15] zeroacc_loop_outcome [OF K(1) _ v, of 256]
  by (simp add: testlow_def zeroacc_def)

lemma low_page_walks_example:
  "\<exists>ps. length ps \<le> 15 \<and> testlow plain_mmap plain_munmap empty_vm =
     (map (\<lambda>p. Cell p 0) ps, if length ps = 15 then None else Some (Segv MAP_FAILED))"
  using low_page_walks [OF plain_mmap_doc plain_munmap_doc, of empty_vm]
  by (simp add: user_vm_def empty_vm_def)

section \<open>Loops over mapped files\<close>

definition FILE_LEN :: nat where "FILE_LEN = 2 * 4096"

definition file_req :: "bool \<Rightarrow> int \<Rightarrow> mmap_req" where
  "file_req sh fd = \<lparr>m_addr = 0, m_len = int FILE_LEN, m_prot = PROT_RW, m_fixed = False, m_shared = sh, m_fd = Some fd, m_pgoff = 0\<rparr>"

text \<open>The byte \<open>mmap_write\<close> puts at index \<open>i\<close>, and its loop.\<close>

definition fill_char :: "nat \<Rightarrow> char" where
  "fill_char i = (if i mod 27 \<noteq> 0 then char_of (i mod 26 + 65) else NL)"

fun fill_loop :: "int \<Rightarrow> nat \<Rightarrow> nat \<Rightarrow> vm \<Rightarrow> trap + vm" where
  "fill_loop p i 0 v = Inr v"
| "fill_loop p i (Suc n) v = and_then (store v (p + int i) [fill_char i]) (\<lambda>v. fill_loop p (Suc i) n v)"

text \<open>Output, exit status, and what the mapping (hence the file, it is shared) holds before \<open>munmap\<close>.\<close>

definition mmap_write :: "mmap_call \<Rightarrow> int \<Rightarrow> int \<Rightarrow> vm \<Rightarrow> trap + map_out list \<times> int \<times> char list" where
  "mmap_write K fd truncated v =
     (if fd < 0 then Inr ([Fails ''open test.txt''], 1, [])
      else if truncated < 0 then Inr ([Fails ''ftruncate''], 1, [])
      else case K v (file_req True fd) of (p, v) \<Rightarrow>
        if p = MAP_FAILED then Inr ([Fails ''mmap error''], 1, [])
        else and_then (fill_loop p 0 FILE_LEN v) (\<lambda>v. Inr ([Says ''all data filled''], 0, bytes_at v p FILE_LEN)))"

text \<open>The check of \<open>zero_mmap\<close>: the index and value of a byte that is not 0.\<close>

fun zero_scan :: "int \<Rightarrow> nat \<Rightarrow> nat \<Rightarrow> vm \<Rightarrow> trap + (nat \<times> char) option" where
  "zero_scan p i 0 v = Inr None"
| "zero_scan p i (Suc n) v = and_then (load v (p + int i) 1) (\<lambda>bs.
     if hd bs \<noteq> NUL then Inr (Some (i, hd bs)) else zero_scan p (Suc i) n v)"

definition zero_mmap :: "mmap_call \<Rightarrow> int \<Rightarrow> vm \<Rightarrow> map_run" where
  "zero_mmap K fd v =
     (if fd < 0 then Inr ([Fails ''open /dev/zero''], 1)
      else case K v (file_req False fd) of (p, v) \<Rightarrow>
        if p = MAP_FAILED then Inr ([Fails ''mmap error''], 1)
        else and_then (zero_scan p 0 FILE_LEN v) (\<lambda>r. case r of
          Some (i, c) \<Rightarrow> Inr ([Byte (int i) (of_char c)], 1)
        | None \<Rightarrow> Inr ([Says ''all data cleared''], 0)))"

lemma allowed_byte: "allowed f v p n \<Longrightarrow> i < n \<Longrightarrow> allowed f v (p + int i) 1"
  by (simp add: allowed_def list_all_iff)

lemma fill_loop_fills:
  assumes "allowed can_write v p m" "i + n \<le> m"
  shows "fill_loop p i n v = Inr (poke v (p + int i) (map fill_char [i..<i + n]))"
  using assms
proof (induction n arbitrary: i v)
  case (Suc n)
  have "allowed can_write v (p + int i) 1" using allowed_byte [OF Suc.prems(1)] Suc.prems(2) by simp
  moreover have "[i..<i + Suc n] = i # [Suc i..<Suc i + n]" by (simp add: upt_conv_Cons)
  ultimately show ?case
    using Suc.IH [of "poke v (p + int i) [fill_char i]" "Suc i"] Suc.prems
      poke_Cons [of v "p + int i" "fill_char i" "map fill_char [Suc i..<Suc i + n]"]
    by (simp add: store_def add.assoc del: upt_Suc) (simp add: add.commute)
qed simp

lemma bytes_at_1: "bytes_at v a 1 = [byte_at v a]"
  by (simp add: bytes_at_def)

lemma zero_scan_finds:
  assumes "allowed can_read v p m" "i + n \<le> m"
  shows "zero_scan p i n v = Inr (map_option (\<lambda>k. (k, byte_at v (p + int k)))
    (List.find (\<lambda>k. byte_at v (p + int k) \<noteq> NUL) [i..<i + n]))"
  using assms
proof (induction n arbitrary: i)
  case (Suc n)
  have "allowed can_read v (p + int i) 1" using allowed_byte [OF Suc.prems(1)] Suc.prems(2) by simp
  moreover have "[i..<i + Suc n] = i # [Suc i..<Suc i + n]" by (simp add: upt_conv_Cons)
  ultimately show ?case
    using Suc.IH [of "Suc i"] Suc.prems bytes_at_1 [of v "p + int i"] by (simp add: load_def del: upt_Suc)
qed simp

text \<open>The lines of the file: each is the alphabet, rotated by one more letter than the line before.\<close>

definition alphabet :: string where "alphabet = map (\<lambda>k. char_of (65 + k)) [0..<26::nat]"

lemma fill_line: "map fill_char [27 * k + 1..<27 * k + 27] = rotate (Suc k) alphabet"
proof (rule nth_equalityI)
  show "length (map fill_char [27 * k + 1..<27 * k + 27]) = length (rotate (Suc k) alphabet)"
    by (simp add: alphabet_def)
  fix j assume "j < length (map fill_char [27 * k + 1..<27 * k + 27])"
  then have j: "j < 26" by simp
  have "(27 * k + 1 + j) mod 27 = 1 + j" using j by (simp add: mod_mult_self4 add.assoc)
  moreover have "(27 * k + 1 + j) mod 26 = (Suc k + j) mod 26"
  proof -
    have "27 * k + 1 + j = (Suc k + j) + 26 * k" by simp
    then show ?thesis by (metis mod_mult_self2)
  qed
  moreover have "map fill_char [27 * k + 1..<27 * k + 27] ! j = fill_char (27 * k + 1 + j)"
    using j by (subst nth_map) simp_all
  moreover have "rotate (Suc k) alphabet ! j = alphabet ! ((Suc k + j) mod 26)"
    using j nth_rotate [of j alphabet "Suc k"] by (simp add: alphabet_def)
  moreover have "alphabet ! m = char_of (65 + m)" if "m < 26" for m using that by (simp add: alphabet_def)
  ultimately show "map fill_char [27 * k + 1..<27 * k + 27] ! j = rotate (Suc k) alphabet ! j"
    by (simp add: fill_char_def add.commute)
qed

lemma file_req_simps [simp]:
  "m_len (file_req sh fd) = 8192" "m_prot (file_req sh fd) = PROT_RW" "\<not> m_fixed (file_req sh fd)"
  by (simp_all add: file_req_def FILE_LEN_def)

lemma mapped_file:
  assumes "mmap_doc K" "K v (file_req sh fd) = (p, v1)" "p \<noteq> MAP_FAILED"
  shows "allowed can_write v1 p FILE_LEN" "allowed can_read v1 p FILE_LEN"
proof -
  have m: "mapped v (file_req sh fd) p v1" using mmap_docD(1) [OF assms] .
  have "range_prot f v1 p (p + 8192)" if "f (effective (persona v) PROT_RW)" for f
    using mapped_range [OF m, of f] that by simp
  then show "allowed can_write v1 p FILE_LEN" "allowed can_read v1 p FILE_LEN"
    by (rule allowed_in_range; simp add: effective_def FILE_LEN_def)+
qed

text \<open>
  \<open>mmap_write\<close> fills the two pages of the file with 303 whole lines, the \<open>k\<close>-th being the
  alphabet rotated by \<open>k + 1\<close> letters, and \<open>zero_mmap\<close> reports the first byte that is not zero
  or that there is none; every failing call on the way is reported with exit status 1.
\<close>

lemma mmap_files:
  assumes K: "mmap_doc K"
  shows "(\<exists>content. mmap_write K fd tr v =
      (if fd < 0 then Inr ([Fails ''open test.txt''], 1, []) else if tr < 0 then Inr ([Fails ''ftruncate''], 1, [])
       else if fst (K v (file_req True fd)) = MAP_FAILED then Inr ([Fails ''mmap error''], 1, [])
       else Inr ([Says ''all data filled''], 0, content)) \<and> length content = 8192 \<and>
      (\<forall>k < 303. content ! (27 * k) = NL \<and> take 26 (drop (27 * k + 1) content) = rotate (Suc k) alphabet)) \<and>
    zero_mmap K fd v =
      (if fd < 0 then Inr ([Fails ''open /dev/zero''], 1)
       else let (p, v1) = K v (file_req False fd) in
         if p = MAP_FAILED then Inr ([Fails ''mmap error''], 1)
         else case List.find (\<lambda>i. byte_at v1 (p + int i) \<noteq> NUL) [0..<8192] of
             None \<Rightarrow> Inr ([Says ''all data cleared''], 0)
           | Some i \<Rightarrow> Inr ([Byte (int i) (of_char (byte_at v1 (p + int i)))], 1))"
proof (intro conjI)
  define content where "content = map fill_char [0..<8192]"
  have line: "content ! (27 * k) = NL \<and> take 26 (drop (27 * k + 1) content) = rotate (Suc k) alphabet" if "k < 303" for k
  proof -
    have "27 * k + 27 \<le> 8192" using that by simp
    then have "take 26 (drop (27 * k + 1) content) = map fill_char [27 * k + 1..<27 * k + 27]"
      by (simp add: content_def drop_map take_map add.commute)
    moreover have "content ! (27 * k) = NL" using that by (simp add: content_def fill_char_def)
    ultimately show ?thesis by (simp only: fill_line simp_thms)
  qed
  obtain p v1 where m: "K v (file_req True fd) = (p, v1)" by fastforce
  have "mmap_write K fd tr v =
      (if fd < 0 then Inr ([Fails ''open test.txt''], 1, []) else if tr < 0 then Inr ([Fails ''ftruncate''], 1, [])
       else if fst (K v (file_req True fd)) = MAP_FAILED then Inr ([Fails ''mmap error''], 1, [])
       else Inr ([Says ''all data filled''], 0, content))"
  proof (cases "p = MAP_FAILED")
    case False
    have "fill_loop p 0 FILE_LEN v1 = Inr (poke v1 p content)"
      using fill_loop_fills [OF mapped_file(1) [OF K m False], of 0 FILE_LEN] by (simp add: content_def FILE_LEN_def)
    moreover have "bytes_at (poke v1 p content) p FILE_LEN = content"
      by (rule bytes_at_poke) (simp add: content_def FILE_LEN_def)
    ultimately show ?thesis by (simp add: mmap_write_def m)
  qed (simp add: mmap_write_def m)
  then show "\<exists>content. mmap_write K fd tr v =
      (if fd < 0 then Inr ([Fails ''open test.txt''], 1, []) else if tr < 0 then Inr ([Fails ''ftruncate''], 1, [])
       else if fst (K v (file_req True fd)) = MAP_FAILED then Inr ([Fails ''mmap error''], 1, [])
       else Inr ([Says ''all data filled''], 0, content)) \<and> length content = 8192 \<and>
      (\<forall>k < 303. content ! (27 * k) = NL \<and> take 26 (drop (27 * k + 1) content) = rotate (Suc k) alphabet)"
    using line by (intro exI [of _ content]) (simp add: content_def)
next
  obtain p v1 where m: "K v (file_req False fd) = (p, v1)" by fastforce
  show "zero_mmap K fd v =
      (if fd < 0 then Inr ([Fails ''open /dev/zero''], 1)
       else let (p, v1) = K v (file_req False fd) in
         if p = MAP_FAILED then Inr ([Fails ''mmap error''], 1)
         else case List.find (\<lambda>i. byte_at v1 (p + int i) \<noteq> NUL) [0..<8192] of
             None \<Rightarrow> Inr ([Says ''all data cleared''], 0)
           | Some i \<Rightarrow> Inr ([Byte (int i) (of_char (byte_at v1 (p + int i)))], 1))"
  proof (cases "p = MAP_FAILED")
    case False
    have "zero_scan p 0 FILE_LEN v1 = Inr (map_option (\<lambda>k. (k, byte_at v1 (p + int k)))
        (List.find (\<lambda>k. byte_at v1 (p + int k) \<noteq> NUL) [0..<8192]))"
      using zero_scan_finds [OF mapped_file(2) [OF K m False], of 0 FILE_LEN] by (simp add: FILE_LEN_def)
    then show ?thesis using False by (simp add: zero_mmap_def m Let_def split: option.splits)
  qed (simp add: zero_mmap_def m Let_def)
qed

lemma mmap_files_example:
  "\<exists>content. mmap_write plain_mmap 3 0 empty_vm = Inr ([Says ''all data filled''], 0, content) \<and>
     content ! 27 = NL \<and> take 26 (drop 28 content) = rotate 2 alphabet"
proof -
  have "free_pages empty_vm r n" for r n by (simp add: free_pages_def empty_vm_def list_all_iff)
  then have "fst (plain_mmap empty_vm (file_req True 3)) \<noteq> MAP_FAILED"
    by (simp add: plain_mmap_def Let_def TASK_SIZE_def pages_def PG_def MAP_FAILED_def) (simp add: file_req_def)
  then obtain content where c: "mmap_write plain_mmap 3 0 empty_vm = Inr ([Says ''all data filled''], 0, content)"
    "\<forall>k < 303. content ! (27 * k) = NL \<and> take 26 (drop (27 * k + 1) content) = rotate (Suc k) alphabet"
    using mmap_files [OF plain_mmap_doc, of 3 0 empty_vm] by auto
  from c(2) [rule_format, of 1] have "content ! 27 = NL \<and> take 26 (drop 28 content) = rotate 2 alphabet"
    by (simp add: numeral_2_eq_2)
  with c(1) show ?thesis by blast
qed

end
