(* ===== verification/Arrays.thy ===== *)
theory Arrays
  imports Prelude
begin

text \<open>
  The array programs: \<open>C/array.c\<close>, which runs the same update over two 1000 by 1000 matrices in
  row order and in column order, and the functions of \<open>C/sum_array.c\<close> and \<open>C/func.c\<close>.
\<close>

section \<open>array.c\<close>

definition ARRAYSIZE :: nat where "ARRAYSIZE = 1000"

type_synonym matrix = "nat \<Rightarrow> nat \<Rightarrow> int"

text \<open>A counting loop, and the statements in the loops' bodies.\<close>

fun for_below :: "nat \<Rightarrow> (nat \<Rightarrow> 's \<Rightarrow> 's) \<Rightarrow> 's \<Rightarrow> 's" where
  "for_below 0 body s = s"
| "for_below (Suc n) body s = body n (for_below n body s)"

definition assign :: "nat \<Rightarrow> nat \<Rightarrow> int \<Rightarrow> matrix \<Rightarrow> matrix" where
  "assign i j x m = m(i := (m i)(j := x))"

definition init_body :: "nat \<Rightarrow> nat \<Rightarrow> matrix \<times> matrix \<Rightarrow> matrix \<times> matrix" where
  "init_body i j s = (case s of (a, b) \<Rightarrow> let x = s32 (int i + int j) in (assign i j x a, assign i j x b))"

definition add_body :: "nat \<Rightarrow> nat \<Rightarrow> matrix \<times> matrix \<Rightarrow> matrix \<times> matrix" where
  "add_body i j s = (case s of (a, b) \<Rightarrow> (assign i j (s32 (a i j + s32 (b i j + int i + int j))) a, b))"

definition init_loop :: "nat \<Rightarrow> matrix \<times> matrix \<Rightarrow> matrix \<times> matrix" where
  "init_loop n = for_below n (\<lambda>i. for_below n (\<lambda>j. init_body i j))"

definition ij_loop :: "nat \<Rightarrow> matrix \<times> matrix \<Rightarrow> matrix \<times> matrix" where
  "ij_loop n = for_below n (\<lambda>i. for_below n (\<lambda>j. add_body i j))"

definition ji_loop :: "nat \<Rightarrow> matrix \<times> matrix \<Rightarrow> matrix \<times> matrix" where
  "ji_loop n = for_below n (\<lambda>j. for_below n (\<lambda>i. add_body i j))"

text \<open>The whole program on four readings of the clock: the two printed times and the matrices.\<close>

definition array_main :: "(nat \<Rightarrow> 64 word) \<Rightarrow> matrix \<times> matrix \<Rightarrow> int list \<times> matrix \<times> matrix" where
  "array_main clk s =
     (let s = init_loop ARRAYSIZE s; s = ij_loop ARRAYSIZE s; first = sint (clk 1 - clk 0);
          s = ji_loop ARRAYSIZE s; second = sint (clk 3 - clk 2) in
      ([first, second], s))"

text \<open>
  A body that changes only the elements at \<open>(i, j)\<close>, from their own values, can be run in either
  order, and touches each element once.
\<close>

definition pointwise :: "(nat \<Rightarrow> nat \<Rightarrow> matrix \<times> matrix \<Rightarrow> matrix \<times> matrix) \<Rightarrow> (nat \<Rightarrow> nat \<Rightarrow> int \<times> int \<Rightarrow> int \<times> int) \<Rightarrow> bool" where
  "pointwise body f \<longleftrightarrow> (\<forall>i j a b. body i j (a, b) = (assign i j (fst (f i j (a i j, b i j))) a, assign i j (snd (f i j (a i j, b i j))) b))"

definition at_all :: "(nat \<Rightarrow> nat \<Rightarrow> bool) \<Rightarrow> (nat \<Rightarrow> nat \<Rightarrow> int \<times> int \<Rightarrow> int \<times> int) \<Rightarrow> matrix \<times> matrix \<Rightarrow> matrix \<times> matrix" where
  "at_all D f s =
     ((\<lambda>i j. if D i j then fst (f i j (fst s i j, snd s i j)) else fst s i j),
      (\<lambda>i j. if D i j then snd (f i j (fst s i j, snd s i j)) else snd s i j))"

lemma body_at: "pointwise body f \<Longrightarrow> body i j s = at_all (\<lambda>x y. x = i \<and> y = j) f s"
  by (cases s) (auto simp: pointwise_def at_all_def assign_def fun_eq_iff)

lemma at_all_at_all:
  "(\<And>i j. \<not> (D i j \<and> E i j)) \<Longrightarrow> at_all D f (at_all E f s) = at_all (\<lambda>i j. D i j \<or> E i j) f s"
proof -
  assume dis: "\<And>i j. \<not> (D i j \<and> E i j)"
  define t where "t = at_all E f s"
  have t: "fst t i j = (if E i j then fst (f i j (fst s i j, snd s i j)) else fst s i j)"
    "snd t i j = (if E i j then snd (f i j (fst s i j, snd s i j)) else snd s i j)" for i j
    by (simp_all add: t_def at_all_def)
  have pt: "fst (at_all D f t) i j = fst (at_all (\<lambda>i j. D i j \<or> E i j) f s) i j \<and>
      snd (at_all D f t) i j = snd (at_all (\<lambda>i j. D i j \<or> E i j) f s) i j" for i j
  proof (cases "D i j")
    case True
    then have "\<not> E i j" using dis by blast
    with True show ?thesis by (simp add: at_all_def t)
  qed (simp add: at_all_def t)
  show ?thesis
    unfolding t_def [symmetric] by (rule prod_eqI; rule ext, rule ext; simp only: pt)
qed

lemma for_below_at_all:
  assumes "\<And>k s. body k s = at_all (D k) f s" "\<And>k l i j. k \<noteq> l \<Longrightarrow> \<not> (D k i j \<and> D l i j)"
  shows "for_below n body s = at_all (\<lambda>i j. \<exists>k<n. D k i j) f s"
proof (induction n)
  case 0
  show ?case by (simp add: at_all_def)
next
  case (Suc n)
  have dis: "\<not> (D n i j \<and> (\<exists>k<n. D k i j))" for i j
    using assms(2) [of n _ i j] by (metis less_irrefl)
  have "for_below (Suc n) body s = at_all (D n) f (at_all (\<lambda>i j. \<exists>k<n. D k i j) f s)"
    by (simp only: for_below.simps assms(1) Suc.IH)
  also have "\<dots> = at_all (\<lambda>i j. D n i j \<or> (\<exists>k<n. D k i j)) f s"
    using dis by (rule at_all_at_all)
  finally have "for_below (Suc n) body s = at_all (\<lambda>i j. D n i j \<or> (\<exists>k<n. D k i j)) f s" .
  moreover have "(\<lambda>i j. D n i j \<or> (\<exists>k<n. D k i j)) = (\<lambda>i j. \<exists>k<Suc n. D k i j)"
    by (auto simp: fun_eq_iff less_Suc_eq)
  ultimately show ?case by simp
qed

lemma nested_loops:
  assumes "pointwise body f"
  shows "for_below n (\<lambda>i. for_below n (\<lambda>j. body i j)) s = at_all (\<lambda>i j. i < n \<and> j < n) f s"
    and "for_below n (\<lambda>j. for_below n (\<lambda>i. body i j)) s = at_all (\<lambda>i j. i < n \<and> j < n) f s"
proof -
  have "for_below n (\<lambda>j. body i j) s = at_all (\<lambda>x y. \<exists>j<n. x = i \<and> y = j) f s" for i s
    by (rule for_below_at_all) (auto simp: body_at [OF assms])
  note inner = this
  have "for_below n (\<lambda>i. for_below n (\<lambda>j. body i j)) s = at_all (\<lambda>x y. \<exists>i<n. \<exists>j<n. x = i \<and> y = j) f s"
    by (rule for_below_at_all) (auto simp: inner)
  then show "for_below n (\<lambda>i. for_below n (\<lambda>j. body i j)) s = at_all (\<lambda>i j. i < n \<and> j < n) f s" by simp
  have "for_below n (\<lambda>i. body i j) s = at_all (\<lambda>x y. \<exists>i<n. x = i \<and> y = j) f s" for j s
    by (rule for_below_at_all) (auto simp: body_at [OF assms])
  note inner = this
  have "for_below n (\<lambda>j. for_below n (\<lambda>i. body i j)) s = at_all (\<lambda>x y. \<exists>j<n. \<exists>i<n. x = i \<and> y = j) f s"
    by (rule for_below_at_all) (auto simp: inner)
  moreover have "(\<lambda>x y. \<exists>j<n. \<exists>i<n. x = i \<and> y = j) = (\<lambda>i j. i < n \<and> j < n)" by (auto simp: fun_eq_iff)
  ultimately show "for_below n (\<lambda>j. for_below n (\<lambda>i. body i j)) s = at_all (\<lambda>i j. i < n \<and> j < n) f s" by simp
qed

lemma pointwise_init: "pointwise init_body (\<lambda>i j _. (s32 (int i + int j), s32 (int i + int j)))"
  by (simp add: pointwise_def init_body_def Let_def)

lemma pointwise_add: "pointwise add_body (\<lambda>i j (x, y). (s32 (x + s32 (y + int i + int j)), y))"
  by (simp add: pointwise_def add_body_def assign_def)

lemmas loop_values = init_loop_def ij_loop_def ji_loop_def
  nested_loops [OF pointwise_init] nested_loops [OF pointwise_add]

section \<open>sum_array.c and func.c\<close>

fun sum_from :: "int list \<Rightarrow> int \<Rightarrow> nat \<Rightarrow> nat \<Rightarrow> int res" where
  "sum_from a acc i 0 = Inr acc"
| "sum_from a acc i (Suc n) = (if i < length a then sum_from a (s32 (acc + a ! i)) (Suc i) n else Inl OutOfBounds)"

definition sum_array :: "int list \<Rightarrow> int \<Rightarrow> int res" where
  "sum_array a n = sum_from a 0 0 (nat n)"

definition func_f :: "int \<Rightarrow> int" where
  "func_f x = (let y = s32 (x + 1) in y)"

definition func_main :: int where
  "func_main = (let a = 10; b = func_f a in b)"

lemma sum_from_take:
  "i + n \<le> length a \<Longrightarrow> sum_from a acc i n = Inr (foldl (\<lambda>s x. s32 (s + x)) acc (take n (drop i a)))"
proof (induction n arbitrary: i acc)
  case (Suc n)
  then have "take (Suc n) (drop i a) = a ! i # take n (drop (Suc i) a)"
    by (simp flip: Cons_nth_drop_Suc)
  then show ?case using Suc by simp
qed simp

lemma foldl_s32: "foldl (\<lambda>s x. s32 (s + x)) (s32 s) xs = s32 (s + sum_list xs)"
  by (induction xs arbitrary: s) (simp_all add: s32_add_left add.assoc)

text \<open>
  C34: the order of the two nested loops does not matter: started from any matrices, of any
  size, the row-wise and the column-wise loop compute the same. In \<open>main\<close> no sum leaves the
  range of \<open>int\<close>, and at the end every element is five times the sum of its indices.
  \<open>sum_array\<close> returns the sum of its first \<open>n\<close> elements, wrapped to 32 bits, and reads past
  its array exactly when \<open>n\<close> exceeds the length.
\<close>

theorem array_loops_agree:
  "ij_loop n s = ji_loop n s \<and>
   (\<exists>a b. array_main clk s = ([sint (clk 1 - clk 0), sint (clk 3 - clk 2)], a, b) \<and>
      (\<forall>i < 1000. \<forall>j < 1000. a i j = 5 * (int i + int j) \<and> b i j = int i + int j)) \<and>
   sum_array xs m = (if m \<le> int (length xs) then Inr (s32 (sum_list (take (nat m) xs))) else Inl OutOfBounds)"
proof (intro conjI)
  show "ij_loop n s = ji_loop n s" by (simp add: loop_values)
  obtain a b where ab: "snd (array_main clk s) = (a, b)" by fastforce
  have "a i j = 5 * (int i + int j) \<and> b i j = int i + int j" if "i < 1000" "j < 1000" for i j
  proof -
    have "s32 x = x" if "0 \<le> x" "x < 2147483648" for x using that by (intro s32_id) auto
    then show ?thesis using ab that
      by (auto simp: array_main_def Let_def loop_values at_all_def ARRAYSIZE_def)
  qed
  then show "\<exists>a b. array_main clk s = ([sint (clk 1 - clk 0), sint (clk 3 - clk 2)], a, b) \<and>
      (\<forall>i < 1000. \<forall>j < 1000. a i j = 5 * (int i + int j) \<and> b i j = int i + int j)"
    using ab by (intro exI [of _ a] exI [of _ b]) (auto simp: array_main_def Let_def)
  have past: "sum_from xs t i k = Inl OutOfBounds" if "length xs < i + k" "i \<le> length xs" for t i k
    using that by (induction k arbitrary: i t) auto
  show "sum_array xs m = (if m \<le> int (length xs) then Inr (s32 (sum_list (take (nat m) xs))) else Inl OutOfBounds)"
    using sum_from_take [of 0 "nat m" xs 0] foldl_s32 [of 0 "take (nat m) xs"] past [of 0 "nat m" 0]
    by (auto simp: sum_array_def s32_def)
qed

theorem array_loops_agree_witness:
  "(\<exists>a b. array_main (\<lambda>k. of_nat (10 * k)) ((\<lambda>_ _. 0), (\<lambda>_ _. 0)) = ([10, 10], a, b) \<and> a 999 998 = 9985 \<and> b 3 4 = 7) \<and>
   sum_array [5, 6, 7] 2 = Inr 11 \<and> sum_array [5] 2 = Inl OutOfBounds"
proof (intro conjI)
  let ?clk = "\<lambda>k. of_nat (10 * k) :: 64 word"
  obtain a b where ab: "array_main ?clk ((\<lambda>_ _. 0), (\<lambda>_ _. 0)) = ([sint (?clk 1 - ?clk 0), sint (?clk 3 - ?clk 2)], a, b)"
    "\<forall>i < 1000. \<forall>j < 1000. a i j = 5 * (int i + int j) \<and> b i j = int i + int j"
    using array_loops_agree by blast
  have "a 999 998 = 9985" "b 3 4 = 7" using ab(2) [rule_format, of 999 998] ab(2) [rule_format, of 3 4] by simp_all
  moreover have "sint (?clk 1 - ?clk 0) = 10" "sint (?clk 3 - ?clk 2) = 10" by simp_all
  ultimately show "\<exists>a b. array_main ?clk ((\<lambda>_ _. 0), (\<lambda>_ _. 0)) = ([10, 10], a, b) \<and> a 999 998 = 9985 \<and> b 3 4 = 7"
    using ab(1) by auto
  show "sum_array [5, 6, 7] 2 = Inr 11" "sum_array [5] 2 = Inl OutOfBounds"
    using array_loops_agree [where xs = "[5, 6, 7]" and m = 2] array_loops_agree [where xs = "[5]" and m = 2]
    by (simp_all add: numeral_2_eq_2 s32_id)
qed

end
