(* ===== verification/Pipeline.thy ===== *)
theory Pipeline
  imports Prelude
begin

text \<open>
  The shell-like pipeline \<open>C/pipe2.c\<close>: a process forks \<open>ps\<close> and \<open>grep\<close>, rewires their
  standard descriptors to a pipe and waits for both. Every process runs its own list of
  calls; a step of the system is one call of one process. The descriptors that hold an end
  of the pipe open are what decides whether \<open>grep\<close> ever sees the end of its input.
\<close>

section \<open>Processes and their calls\<close>

datatype fdobj = Tty | ReadEnd | WriteEnd

text \<open>\<open>Put\<close> is a line written to descriptor 1 by \<open>ps\<close>, \<open>Filter\<close> is \<open>grep\<close>'s loop over descriptor 0.\<close>

datatype pcall =
    Fork "pcall list" | Dup2 nat nat | Close nat | ExecPs | ExecGrep | Wait | Exit
  | Put string | Filter

record psys =
  code :: "nat \<Rightarrow> pcall list"
  fdt :: "nat \<Rightarrow> nat \<Rightarrow> fdobj option"
  parent_of :: "nat \<Rightarrow> nat option"
  next_pid :: nat
  waited :: "nat set"
  pipebuf :: "string list"
  screen :: "string list"

text \<open>
  The source's \<open>main\<close> after \<open>pipe(fd)\<close>, which returns the lowest free descriptors 3 and 4. A
  child whose \<open>execl\<close> fails goes on with the code behind its \<open>if\<close>.
\<close>

definition after_b :: "pcall list" where
  "after_b = [Close 3, Close 4, Wait, Wait, Exit]"

definition child_b :: "pcall list" where
  "child_b = [Dup2 3 0, Close 3, Close 4, ExecGrep] @ after_b"

definition after_a :: "pcall list" where
  "after_a = Fork child_b # after_b"

definition child_a :: "pcall list" where
  "child_a = [Dup2 4 1, Close 3, Close 4, ExecPs] @ after_a"

definition pipe2_main :: "pcall list" where
  "pipe2_main = Fork child_a # after_a"

definition base_fds :: "nat \<Rightarrow> fdobj option" where
  "base_fds = [0 \<mapsto> Tty, 1 \<mapsto> Tty, 2 \<mapsto> Tty, 3 \<mapsto> ReadEnd, 4 \<mapsto> WriteEnd]"

definition pipe2_start :: psys where
  "pipe2_start = \<lparr>code = (\<lambda>_. [])(0 := pipe2_main), fdt = (\<lambda>_ _. None)(0 := base_fds),
     parent_of = (\<lambda>_. None), next_pid = 1, waited = {}, pipebuf = [], screen = []\<rparr>"

definition open_end :: "fdobj \<Rightarrow> psys \<Rightarrow> bool" where
  "open_end e s \<longleftrightarrow> (\<exists>p n. fdt s p n = Some e)"

definition run_on :: "nat \<Rightarrow> pcall list \<Rightarrow> psys \<Rightarrow> psys" where
  "run_on p cs s = s\<lparr>code := (code s)(p := cs)\<rparr>"

definition set_fd :: "nat \<Rightarrow> nat \<Rightarrow> fdobj option \<Rightarrow> psys \<Rightarrow> psys" where
  "set_fd p n e s = s\<lparr>fdt := (fdt s)(p := (fdt s p)(n := e))\<rparr>"

text \<open>The end of a process closes its descriptors.\<close>

definition die :: "nat \<Rightarrow> psys \<Rightarrow> psys" where
  "die p s = s\<lparr>code := (code s)(p := []), fdt := (fdt s)(p := (\<lambda>_. None))\<rparr>"

definition unwaited :: "nat \<Rightarrow> psys \<Rightarrow> nat set" where
  "unwaited p s = {c. parent_of s c = Some p \<and> c \<notin> waited s}"

text \<open>
  The step relation, for the lines \<open>ps\<close> writes, the lines \<open>grep\<close> selects, the capacity of the
  pipe and the success of \<open>execl\<close>. A write with no reader kills the writer; a full pipe and
  an empty one with a writer left block; \<open>wait\<close> blocks while children run and fails at once
  without any.
\<close>

inductive pstep :: "string list \<Rightarrow> (string \<Rightarrow> bool) \<Rightarrow> nat \<Rightarrow> (pcall \<Rightarrow> bool) \<Rightarrow> psys \<Rightarrow> psys \<Rightarrow> bool"
  for ls sel cap ok where
  fork: "code s p = Fork child # cs \<Longrightarrow> c = next_pid s \<Longrightarrow>
    pstep ls sel cap ok s (run_on p cs (s\<lparr>code := (code s)(c := child), fdt := (fdt s)(c := fdt s p),
      parent_of := (parent_of s)(c := Some p), next_pid := Suc c\<rparr>))"
| dup2: "code s p = Dup2 a b # cs \<Longrightarrow>
    pstep ls sel cap ok s (run_on p cs (if fdt s p a = None then s else set_fd p b (fdt s p a) s))"
| close: "code s p = Close a # cs \<Longrightarrow> pstep ls sel cap ok s (run_on p cs (set_fd p a None s))"
| exec_ps: "code s p = ExecPs # cs \<Longrightarrow>
    pstep ls sel cap ok s (run_on p (if ok ExecPs then map Put ls @ [Exit] else cs) s)"
| exec_grep: "code s p = ExecGrep # cs \<Longrightarrow>
    pstep ls sel cap ok s (run_on p (if ok ExecGrep then [Filter, Exit] else cs) s)"
| wait_child: "code s p = Wait # cs \<Longrightarrow> c \<in> unwaited p s \<Longrightarrow> code s c = [] \<Longrightarrow>
    pstep ls sel cap ok s (run_on p cs (s\<lparr>waited := insert c (waited s)\<rparr>))"
| wait_none: "code s p = Wait # cs \<Longrightarrow> unwaited p s = {} \<Longrightarrow> pstep ls sel cap ok s (run_on p cs s)"
| exit: "code s p = Exit # cs \<Longrightarrow> pstep ls sel cap ok s (die p s)"
| put_pipe: "code s p = Put l # cs \<Longrightarrow> fdt s p 1 = Some WriteEnd \<Longrightarrow> open_end ReadEnd s \<Longrightarrow> length (pipebuf s) < cap \<Longrightarrow>
    pstep ls sel cap ok s (run_on p cs (s\<lparr>pipebuf := pipebuf s @ [l]\<rparr>))"
| put_broken: "code s p = Put l # cs \<Longrightarrow> fdt s p 1 = Some WriteEnd \<Longrightarrow> \<not> open_end ReadEnd s \<Longrightarrow>
    pstep ls sel cap ok s (die p s)"
| put_tty: "code s p = Put l # cs \<Longrightarrow> fdt s p 1 = Some Tty \<Longrightarrow>
    pstep ls sel cap ok s (run_on p cs (s\<lparr>screen := screen s @ [l]\<rparr>))"
| filter_line: "code s p = Filter # cs \<Longrightarrow> fdt s p 0 = Some ReadEnd \<Longrightarrow> pipebuf s = l # rest \<Longrightarrow>
    pstep ls sel cap ok s (s\<lparr>pipebuf := rest, screen := screen s @ (if sel l then [l] else [])\<rparr>)"
| filter_eof: "code s p = Filter # cs \<Longrightarrow> fdt s p 0 = Some ReadEnd \<Longrightarrow> pipebuf s = [] \<Longrightarrow> \<not> open_end WriteEnd s \<Longrightarrow>
    pstep ls sel cap ok s (run_on p cs s)"

inductive_cases pstepE: "pstep ls sel cap ok s t"

abbreviation pipe2_reach where "pipe2_reach ls sel cap ok \<equiv> (pstep ls sel cap ok)\<^sup>*\<^sup>* pipe2_start"

lemma psys_simps [simp]:
  "code (run_on p cs s) = (code s)(p := cs)" "fdt (run_on p cs s) = fdt s" "parent_of (run_on p cs s) = parent_of s"
  "next_pid (run_on p cs s) = next_pid s" "waited (run_on p cs s) = waited s" "pipebuf (run_on p cs s) = pipebuf s"
  "screen (run_on p cs s) = screen s"
  "code (set_fd p n e s) = code s" "fdt (set_fd p n e s) = (fdt s)(p := (fdt s p)(n := e))"
  "parent_of (set_fd p n e s) = parent_of s" "next_pid (set_fd p n e s) = next_pid s" "waited (set_fd p n e s) = waited s"
  "pipebuf (set_fd p n e s) = pipebuf s" "screen (set_fd p n e s) = screen s"
  "code (die p s) = (code s)(p := [])" "fdt (die p s) = (fdt s)(p := (\<lambda>_. None))" "parent_of (die p s) = parent_of s"
  "next_pid (die p s) = next_pid s" "waited (die p s) = waited s" "pipebuf (die p s) = pipebuf s" "screen (die p s) = screen s"
  by (simp_all add: run_on_def set_fd_def die_def)

section \<open>Every run ends\<close>

text \<open>The work a call list still stands for: a line is written and then read.\<close>

fun effort :: "nat \<Rightarrow> pcall list \<Rightarrow> nat" and effort1 :: "nat \<Rightarrow> pcall \<Rightarrow> nat" where
  "effort n [] = 0"
| "effort n (c # cs) = effort1 n c + effort n cs"
| "effort1 n (Fork cs) = 1 + effort n cs"
| "effort1 n (Dup2 a b) = 1"
| "effort1 n (Close a) = 1"
| "effort1 n ExecPs = 2 * n + 2"
| "effort1 n ExecGrep = 3"
| "effort1 n Wait = 1"
| "effort1 n Exit = 1"
| "effort1 n (Put l) = 2"
| "effort1 n Filter = 1"

definition total_effort :: "nat \<Rightarrow> psys \<Rightarrow> nat" where
  "total_effort n s = (\<Sum>p < next_pid s. effort n (code s p)) + length (pipebuf s)"

definition pids_ok :: "psys \<Rightarrow> bool" where
  "pids_ok s \<longleftrightarrow> (\<forall>p \<ge> next_pid s. code s p = [])"

lemma effort_puts: "effort n (map Put ls @ cs) = 2 * length ls + effort n cs"
  by (induction ls) simp_all

lemma effort_change:
  fixes m :: nat
  assumes "p < m" "effort n cs + k < effort n (c p)"
  shows "(\<Sum>q < m. effort n ((c(p := cs)) q)) + k < (\<Sum>q < m. effort n (c q))"
proof -
  have eq: "(\<Sum>q < m. f q) = f p + (\<Sum>q \<in> {..<m} - {p}. f q)" for f :: "nat \<Rightarrow> nat"
    using assms(1) by (simp add: sum.remove)
  have "(\<Sum>q \<in> {..<m} - {p}. effort n ((c(p := cs)) q)) = (\<Sum>q \<in> {..<m} - {p}. effort n (c q))"
    by (rule sum.cong) auto
  then show ?thesis using assms(2) unfolding eq [of "\<lambda>q. effort n ((c(p := cs)) q)"] eq [of "\<lambda>q. effort n (c q)"] by simp
qed

lemma pstep_effort:
  assumes "pstep ls sel cap ok s t" "pids_ok s"
  shows "total_effort (length ls) t < total_effort (length ls) s" and "pids_ok t"
proof -
  let ?n = "length ls"
  have below: "p < next_pid s" if "code s p = c # cs" for p c cs
    using assms(2) that by (metis list.distinct(1) not_le pids_ok_def)
  have change: "total_effort ?n t < total_effort ?n s"
    if "code s p = c # cs'" "next_pid t = next_pid s" "code t = (code s)(p := cs)"
      "effort ?n cs + k < effort ?n (c # cs')" "length (pipebuf t) = length (pipebuf s) + k" for p c cs' cs k
    using effort_change [OF below [OF that(1)], of ?n cs k "code s"] that by (simp add: total_effort_def)
  show "pids_ok t"
    using assms(1)
  proof cases
    case (fork p child cs c)
    then show ?thesis using assms(2) below [OF fork(2)] by (auto simp: pids_ok_def)
  qed (use assms(2) below in \<open>force simp: pids_ok_def\<close>)+
  show "total_effort ?n t < total_effort ?n s"
    using assms(1)
  proof cases
    case (fork p child cs c)
    have p: "p < next_pid s" using below [OF fork(2)] .
    have "(\<Sum>q < next_pid s. effort ?n (((code s)(c := child, p := cs)) q)) = (\<Sum>q < next_pid s. effort ?n (((code s)(p := cs)) q))"
      using fork(3) by (intro sum.cong) auto
    moreover have "(\<Sum>q < next_pid s. effort ?n (((code s)(p := cs)) q)) + effort ?n child < (\<Sum>q < next_pid s. effort ?n (code s q))"
      using effort_change [OF p, of ?n cs "effort ?n child" "code s"] fork(2) by simp
    ultimately show ?thesis using fork p by (simp add: total_effort_def)
  next
    case (filter_line p cs l rest)
    then show ?thesis by (simp add: total_effort_def)
  next
    case (dup2 p a b cs)
    then show ?thesis by (intro change [of p "Dup2 a b" cs cs 0]) simp_all
  next
    case (exec_ps p cs)
    then show ?thesis by (intro change [of p ExecPs cs _ 0]) (auto simp: effort_puts)
  next
    case (exec_grep p cs)
    then show ?thesis by (intro change [of p ExecGrep cs _ 0]) auto
  next
    case (exit p cs)
    then show ?thesis by (intro change [of p Exit cs "[]" 0]) simp_all
  next
    case (put_broken p l cs)
    then show ?thesis by (intro change [of p "Put l" cs "[]" 0]) simp_all
  next
    case (put_pipe p l cs)
    then show ?thesis by (intro change [of p "Put l" cs cs 1]) simp_all
  next
    case (close p a cs)
    then show ?thesis by (intro change [of p "Close a" cs cs 0]) simp_all
  next
    case (wait_child p cs c)
    then show ?thesis by (intro change [of p Wait cs cs 0]) simp_all
  next
    case (wait_none p cs)
    then show ?thesis by (intro change [of p Wait cs cs 0]) simp_all
  next
    case (put_tty p l cs)
    then show ?thesis by (intro change [of p "Put l" cs cs 0]) simp_all
  next
    case (filter_eof p cs)
    then show ?thesis by (intro change [of p Filter cs cs 0]) simp_all
  qed
qed

lemma pstep_stops:
  assumes "pids_ok s"
  shows "\<exists>t. (pstep ls sel cap ok)\<^sup>*\<^sup>* s t \<and> (\<forall>u. \<not> pstep ls sel cap ok t u)"
  using assms
proof (induction "total_effort (length ls) s" arbitrary: s rule: less_induct)
  case less
  show ?case
  proof (cases "\<exists>t. pstep ls sel cap ok s t")
    case True
    then obtain t where t: "pstep ls sel cap ok s t" by blast
    then show ?thesis using less.hyps [OF pstep_effort [OF t less.prems]] by (meson converse_rtranclp_into_rtranclp)
  qed blast
qed

section \<open>The states of the three processes\<close>

text \<open>
  When \<open>execl\<close> succeeds there are three processes, and each is at one point of its code with
  the descriptors that belong to that point: the parent (with the number of processes so
  far), \<open>ps\<close> with the lines it still has to write, and \<open>grep\<close>, which may have seen the end.
\<close>

definition no_fds :: "nat \<Rightarrow> fdobj option" where "no_fds = (\<lambda>_. None)"
definition fds_closed :: "nat \<Rightarrow> fdobj option" where "fds_closed = base_fds(3 := None, 4 := None)"

definition parent_ok :: "pcall list \<Rightarrow> (nat \<Rightarrow> fdobj option) \<Rightarrow> nat \<Rightarrow> bool" where
  "parent_ok c f n \<longleftrightarrow>
     (c, f, n) \<in> {(pipe2_main, base_fds, 1), (after_a, base_fds, 2), (after_b, base_fds, 3),
       ([Close 4, Wait, Wait, Exit], base_fds(3 := None), 3), ([Wait, Wait, Exit], fds_closed, 3),
       ([Wait, Exit], fds_closed, 3), ([Exit], fds_closed, 3), ([], no_fds, 3)}"

definition ps_ok :: "string list \<Rightarrow> pcall list \<Rightarrow> (nat \<Rightarrow> fdobj option) \<Rightarrow> string list \<Rightarrow> bool" where
  "ps_ok ls c f rem \<longleftrightarrow>
     (c, f, rem) \<in> {(child_a, base_fds, ls), ([Close 3, Close 4, ExecPs] @ after_a, base_fds(1 \<mapsto> WriteEnd), ls),
       ([Close 4, ExecPs] @ after_a, base_fds(1 \<mapsto> WriteEnd, 3 := None), ls),
       (ExecPs # after_a, fds_closed(1 \<mapsto> WriteEnd), ls),
       (map Put rem @ [Exit], fds_closed(1 \<mapsto> WriteEnd), rem), ([], no_fds, [])}"

definition grep_ok :: "pcall list \<Rightarrow> (nat \<Rightarrow> fdobj option) \<Rightarrow> bool \<Rightarrow> bool" where
  "grep_ok c f fin \<longleftrightarrow>
     (c, f, fin) \<in> {(child_b, base_fds, False), ([Close 3, Close 4, ExecGrep] @ after_b, base_fds(0 \<mapsto> ReadEnd), False),
       ([Close 4, ExecGrep] @ after_b, base_fds(0 \<mapsto> ReadEnd, 3 := None), False),
       (ExecGrep # after_b, fds_closed(0 \<mapsto> ReadEnd), False), ([Filter, Exit], fds_closed(0 \<mapsto> ReadEnd), False),
       ([Exit], fds_closed(0 \<mapsto> ReadEnd), True), ([], no_fds, True)}"

definition pipe_inv :: "string list \<Rightarrow> (string \<Rightarrow> bool) \<Rightarrow> psys \<Rightarrow> string list \<Rightarrow> string list \<Rightarrow> bool \<Rightarrow> bool" where
  "pipe_inv ls sel s seen rem fin \<longleftrightarrow>
     parent_ok (code s 0) (fdt s 0) (next_pid s) \<and>
     (if next_pid s < 2 then rem = ls else ps_ok ls (code s 1) (fdt s 1) rem) \<and>
     (if next_pid s < 3 then \<not> fin else grep_ok (code s 2) (fdt s 2) fin) \<and>
     (\<forall>p \<ge> next_pid s. code s p = [] \<and> fdt s p = no_fds) \<and>
     ls = seen @ pipebuf s @ rem \<and> screen s = filter sel seen \<and>
     (fin \<longrightarrow> rem = [] \<and> pipebuf s = [] \<and> code s 1 = [])"

lemmas phase_defs = pipe2_main_def after_a_def after_b_def child_a_def child_b_def

lemma pipe_inv_start: "pipe_inv ls sel pipe2_start [] ls False"
  by (simp add: pipe_inv_def pipe2_start_def parent_ok_def no_fds_def)

lemma parent_next: "parent_ok c f n \<Longrightarrow> 1 \<le> n \<and> n \<le> 3"
  by (auto simp: parent_ok_def)

lemma pipe_inv_pid: "pipe_inv ls sel s seen rem fin \<Longrightarrow> code s p = c # cs \<Longrightarrow> p < next_pid s \<and> p \<in> {0, 1, 2}"
proof -
  assume inv: "pipe_inv ls sel s seen rem fin" and c: "code s p = c # cs"
  then have "p < next_pid s" by (metis list.distinct(1) not_le pipe_inv_def)
  moreover have "next_pid s \<le> 3" using inv parent_next by (auto simp: pipe_inv_def)
  ultimately show ?thesis by auto
qed

lemma pipe_invD:
  assumes "pipe_inv ls sel s seen rem fin"
  shows "parent_ok (code s 0) (fdt s 0) (next_pid s)"
    "(next_pid s < 2 \<longrightarrow> rem = ls) \<and> (\<not> next_pid s < 2 \<longrightarrow> ps_ok ls (code s 1) (fdt s 1) rem)"
    "(next_pid s < 3 \<longrightarrow> \<not> fin) \<and> (\<not> next_pid s < 3 \<longrightarrow> grep_ok (code s 2) (fdt s 2) fin)"
    "\<forall>p \<ge> next_pid s. code s p = [] \<and> fdt s p = no_fds"
    "ls = seen @ pipebuf s @ rem" "screen s = filter sel seen"
    "fin \<longrightarrow> rem = [] \<and> pipebuf s = [] \<and> code s 1 = []"
proof -
  have "if next_pid s < 2 then rem = ls else ps_ok ls (code s 1) (fdt s 1) rem"
    "if next_pid s < 3 then \<not> fin else grep_ok (code s 2) (fdt s 2) fin"
    using assms unfolding pipe_inv_def by blast+
  then show "(next_pid s < 2 \<longrightarrow> rem = ls) \<and> (\<not> next_pid s < 2 \<longrightarrow> ps_ok ls (code s 1) (fdt s 1) rem)"
    "(next_pid s < 3 \<longrightarrow> \<not> fin) \<and> (\<not> next_pid s < 3 \<longrightarrow> grep_ok (code s 2) (fdt s 2) fin)"
    by (simp_all split: if_splits)
qed (use assms pipe_inv_def in blast)+

text \<open>A reader exists until \<open>grep\<close> has seen the end, a writer until \<open>ps\<close> has ended.\<close>

lemma reader_open:
  assumes "pipe_inv ls sel s seen rem fin" "\<not> fin"
  shows "open_end ReadEnd s"
proof (cases "next_pid s < 3")
  case True
  then have "fdt s 0 3 = Some ReadEnd" using assms(1) by (auto simp: pipe_inv_def parent_ok_def base_fds_def)
  then show ?thesis unfolding open_end_def by blast
next
  case False
  then have "grep_ok (code s 2) (fdt s 2) fin" using pipe_invD(3) [OF assms(1)] by simp
  then have "fdt s 2 0 = Some ReadEnd \<or> fdt s 2 3 = Some ReadEnd"
    using assms(2) by (auto simp: grep_ok_def base_fds_def fds_closed_def)
  then show ?thesis unfolding open_end_def by blast
qed

lemma writer_open:
  assumes "pipe_inv ls sel s seen rem fin" "next_pid s < 2 \<or> code s 1 \<noteq> []"
  shows "open_end WriteEnd s"
proof (cases "next_pid s < 2")
  case True
  then have "fdt s 0 4 = Some WriteEnd" using assms(1) by (auto simp: pipe_inv_def parent_ok_def base_fds_def)
  then show ?thesis unfolding open_end_def by blast
next
  case False
  then have "ps_ok ls (code s 1) (fdt s 1) rem" using pipe_invD(2) [OF assms(1)] by simp
  then have "fdt s 1 1 = Some WriteEnd \<or> fdt s 1 4 = Some WriteEnd"
    using assms(2) False by (auto simp: ps_ok_def base_fds_def fds_closed_def)
  then show ?thesis unfolding open_end_def by blast
qed

lemma parent_moves: "parent_ok (x # cs) f n \<longleftrightarrow>
  (x, cs, f, n) \<in> {(Fork child_a, after_a, base_fds, 1), (Fork child_b, after_b, base_fds, 2),
    (Close 3, [Close 4, Wait, Wait, Exit], base_fds, 3), (Close 4, [Wait, Wait, Exit], base_fds(3 := None), 3),
    (Wait, [Wait, Exit], fds_closed, 3), (Wait, [Exit], fds_closed, 3), (Exit, [], fds_closed, 3)}"
  by (auto simp: parent_ok_def pipe2_main_def after_a_def after_b_def)

lemma ps_moves: "ps_ok ls (x # cs) f rem \<longleftrightarrow>
  (x, cs, f, rem) \<in> {(Dup2 4 1, [Close 3, Close 4, ExecPs] @ after_a, base_fds, ls),
    (Close 3, [Close 4, ExecPs] @ after_a, base_fds(1 \<mapsto> WriteEnd), ls),
    (Close 4, ExecPs # after_a, base_fds(1 \<mapsto> WriteEnd, 3 := None), ls),
    (ExecPs, after_a, fds_closed(1 \<mapsto> WriteEnd), ls)} \<or>
  f = fds_closed(1 \<mapsto> WriteEnd) \<and> (case rem of [] \<Rightarrow> x = Exit \<and> cs = [] | l # ls' \<Rightarrow> x = Put l \<and> cs = map Put ls' @ [Exit])"
  by (cases rem) (auto simp: ps_ok_def child_a_def)

lemma grep_moves: "grep_ok (x # cs) f fin \<longleftrightarrow>
  (x, cs, f, fin) \<in> {(Dup2 3 0, [Close 3, Close 4, ExecGrep] @ after_b, base_fds, False),
    (Close 3, [Close 4, ExecGrep] @ after_b, base_fds(0 \<mapsto> ReadEnd), False),
    (Close 4, ExecGrep # after_b, base_fds(0 \<mapsto> ReadEnd, 3 := None), False),
    (ExecGrep, after_b, fds_closed(0 \<mapsto> ReadEnd), False), (Filter, [Exit], fds_closed(0 \<mapsto> ReadEnd), False),
    (Exit, [], fds_closed(0 \<mapsto> ReadEnd), True)}"
  by (auto simp: grep_ok_def child_b_def)

lemma phase_starts:
  "parent_ok after_a base_fds 2" "parent_ok after_b base_fds 3" "parent_ok [] no_fds 3"
  "parent_ok [Close 4, Wait, Wait, Exit] (base_fds(3 := None)) 3" "parent_ok [Wait, Wait, Exit] fds_closed 3"
  "parent_ok [Wait, Exit] fds_closed 3" "parent_ok [Exit] fds_closed 3"
  "ps_ok ls child_a base_fds ls" "ps_ok ls [] no_fds []" "ps_ok ls (map Put ls' @ [Exit]) (fds_closed(1 \<mapsto> WriteEnd)) ls'"
  "grep_ok child_b base_fds False" "grep_ok [] no_fds True"
  by (simp_all add: parent_ok_def ps_ok_def grep_ok_def)

lemma phase_ends: "parent_ok [] (\<lambda>_. None) 3" "ps_ok ls [] (\<lambda>_. None) []" "grep_ok [] (\<lambda>_. None) True"
  "ps_ok ls (map Put ls' @ [Exit]) (fds_closed(Suc 0 \<mapsto> WriteEnd)) ls'"
  "grep_ok [Exit] (fds_closed(0 \<mapsto> ReadEnd)) True"
  using phase_starts(3,9,10,12) by (simp_all add: no_fds_def grep_ok_def)

text \<open>A move of one process keeps the invariant if it is a move along its own points.\<close>

lemma keep_parent:
  assumes inv: "pipe_inv ls sel s seen rem fin" and new: "parent_ok c f (next_pid s)"
    and t: "code t = (code s)(0 := c)" "fdt t = (fdt s)(0 := f)" "next_pid t = next_pid s" "pipebuf t = pipebuf s" "screen t = screen s"
  shows "pipe_inv ls sel t seen rem fin"
proof -
  note D = pipe_invD [OF inv]
  have n: "1 \<le> next_pid s" using parent_next [OF new] by simp
  show ?thesis
    unfolding pipe_inv_def t
  proof (intro conjI)
    show "\<forall>p \<ge> next_pid s. ((code s)(0 := c)) p = [] \<and> ((fdt s)(0 := f)) p = no_fds" using D(4) n by auto
    show "ls = seen @ pipebuf s @ rem" by (rule D(5))
  qed (use D(2,3,6,7) new in simp_all)
qed

lemma keep_ps:
  assumes inv: "pipe_inv ls sel s seen rem fin" and act: "2 \<le> next_pid s" "code s 1 \<noteq> []" and new: "ps_ok ls c f rem'"
    and t: "code t = (code s)(1 := c)" "fdt t = (fdt s)(1 := f)" "next_pid t = next_pid s" "screen t = screen s"
    and data: "pipebuf t @ rem' = pipebuf s @ rem"
  shows "pipe_inv ls sel t seen rem' fin"
proof -
  have fin: "\<not> fin" using pipe_invD(7) [OF inv] act(2) by blast
  note D = pipe_invD [OF inv]
  show ?thesis
    unfolding pipe_inv_def t
  proof (intro conjI)
    show "\<forall>p \<ge> next_pid s. ((code s)(1 := c)) p = [] \<and> ((fdt s)(1 := f)) p = no_fds" using D(4) act by auto
    show "ls = seen @ pipebuf t @ rem'" using D(5) data by simp
    show "fin \<longrightarrow> rem' = [] \<and> pipebuf t = [] \<and> ((code s)(1 := c)) 1 = []" using fin by simp
  qed (use D(1,3,6) new act(1) in simp_all)
qed

lemma keep_grep:
  assumes inv: "pipe_inv ls sel s seen rem fin" and act: "next_pid s = 3" and new: "grep_ok c f fin'"
    and t: "code t = (code s)(2 := c)" "fdt t = (fdt s)(2 := f)" "next_pid t = next_pid s"
    and data: "seen' @ pipebuf t = seen @ pipebuf s" "screen t = filter sel seen'"
      "fin' \<longrightarrow> rem = [] \<and> pipebuf t = [] \<and> code s 1 = []"
  shows "pipe_inv ls sel t seen' rem fin'"
proof -
  note D = pipe_invD [OF inv]
  show ?thesis
    unfolding pipe_inv_def t
  proof (intro conjI)
    show "\<forall>p \<ge> next_pid s. ((code s)(2 := c)) p = [] \<and> ((fdt s)(2 := f)) p = no_fds" using D(4) act by auto
    show "ls = seen' @ pipebuf t @ rem" using D(5) data(1) by (metis append.assoc)
  qed (use D(1,2) new act data(2,3) in simp_all)
qed

lemma acting:
  assumes "pipe_inv ls sel s seen rem fin" "code s p = x # cs"
  obtains "p = 0" "parent_ok (x # cs) (fdt s 0) (next_pid s)"
    | "p = 1" "2 \<le> next_pid s" "ps_ok ls (x # cs) (fdt s 1) rem"
    | "p = 2" "next_pid s = 3" "grep_ok (x # cs) (fdt s 2) fin"
proof -
  have n: "1 \<le> next_pid s" "next_pid s \<le> 3" using parent_next [OF pipe_invD(1) [OF assms(1)]] by auto
  have p: "p < next_pid s" "p \<in> {0, 1, 2}" using pipe_inv_pid [OF assms] by auto
  then consider "p = 0" | "p = 1" | "p = 2" by blast
  then show thesis
  proof cases
    case 1
    then show thesis using that(1) pipe_invD(1) [OF assms(1)] assms(2) by simp
  next
    case 2
    then show thesis using that(2) pipe_invD(2) [OF assms(1)] assms(2) p by simp
  next
    case 3
    then show thesis using that(3) pipe_invD(3) [OF assms(1)] assms(2) p n by simp
  qed
qed

lemma pipe_inv_step:
  assumes inv: "pipe_inv ls sel s seen rem fin" and step: "pstep ls sel cap (\<lambda>_. True) s t"
  shows "\<exists>seen rem fin. pipe_inv ls sel t seen rem fin"
  using step
proof cases
  case (fork p child cs c)
  have "p = 0 \<and> (child = child_a \<and> cs = after_a \<and> next_pid s = 1 \<and> fdt s 0 = base_fds \<or>
              child = child_b \<and> cs = after_b \<and> next_pid s = 2 \<and> fdt s 0 = base_fds)"
    by (rule acting [OF inv fork(2)]) (auto simp: parent_moves ps_moves grep_moves split: list.splits)
  then have "pipe_inv ls sel t seen rem fin"
  proof (elim conjE disjE)
    assume "p = 0" "child = child_a" "cs = after_a" "next_pid s = 1" "fdt s 0 = base_fds"
    then show ?thesis using pipe_invD(2-7) [OF inv] fork phase_starts
      unfolding pipe_inv_def by (simp add: numeral_2_eq_2 numeral_3_eq_3)
  next
    assume "p = 0" "child = child_b" "cs = after_b" "next_pid s = 2" "fdt s 0 = base_fds"
    then show ?thesis using pipe_invD(2-7) [OF inv] fork phase_starts
      unfolding pipe_inv_def by (simp add: numeral_2_eq_2 numeral_3_eq_3)
  qed
  then show ?thesis by blast
next
  case (dup2 p a b cs)
  show ?thesis
  proof (rule acting [OF inv dup2(2)])
    assume "p = 1" "2 \<le> next_pid s" "ps_ok ls (Dup2 a b # cs) (fdt s 1) rem"
    then have "pipe_inv ls sel t seen rem fin"
      using dup2 by (intro keep_ps [OF inv]) (auto simp: ps_moves base_fds_def split: list.splits)
    then show ?thesis by blast
  next
    assume "p = 2" "next_pid s = 3" "grep_ok (Dup2 a b # cs) (fdt s 2) fin"
    then have "pipe_inv ls sel t seen rem fin"
      using dup2 pipe_invD(6) [OF inv] by (intro keep_grep [OF inv]) (auto simp: grep_moves base_fds_def)
    then show ?thesis by blast
  qed (simp add: parent_moves)
next
  case (close p a cs)
  show ?thesis
  proof (rule acting [OF inv close(2)])
    assume "p = 0" "parent_ok (Close a # cs) (fdt s 0) (next_pid s)"
    then have "pipe_inv ls sel t seen rem fin"
      using close by (intro keep_parent [OF inv]) (auto simp: parent_moves phase_starts fds_closed_def)
    then show ?thesis by blast
  next
    assume "p = 1" "2 \<le> next_pid s" "ps_ok ls (Close a # cs) (fdt s 1) rem"
    then have "pipe_inv ls sel t seen rem fin"
      using close by (intro keep_ps [OF inv]) (auto simp: ps_moves fds_closed_def fun_upd_twist split: list.splits)
    then show ?thesis by blast
  next
    assume "p = 2" "next_pid s = 3" "grep_ok (Close a # cs) (fdt s 2) fin"
    then have "pipe_inv ls sel t seen rem fin"
      using close pipe_invD(6) [OF inv]
      by (intro keep_grep [OF inv]) (auto simp: grep_moves fds_closed_def fun_upd_twist)
    then show ?thesis by blast
  qed
next
  case (exec_ps p cs)
  show ?thesis
  proof (rule acting [OF inv exec_ps(2)])
    assume "p = 1" "2 \<le> next_pid s" "ps_ok ls (ExecPs # cs) (fdt s 1) rem"
    then have "pipe_inv ls sel t seen ls fin"
      using exec_ps by (intro keep_ps [OF inv, of _ "fdt s 1"]) (auto simp: ps_moves phase_starts split: list.splits)
    then show ?thesis by blast
  qed (simp_all add: parent_moves grep_moves)
next
  case (exec_grep p cs)
  show ?thesis
  proof (rule acting [OF inv exec_grep(2)])
    assume "p = 2" "next_pid s = 3" "grep_ok (ExecGrep # cs) (fdt s 2) fin"
    then have "pipe_inv ls sel t seen rem fin"
      using exec_grep pipe_invD(6) [OF inv]
      by (intro keep_grep [OF inv, of _ "fdt s 2"]) (auto simp: grep_moves grep_ok_def child_b_def)
    then show ?thesis by blast
  qed (auto simp: parent_moves ps_moves split: list.splits)
next
  case (wait_child p cs c)
  show ?thesis
  proof (rule acting [OF inv wait_child(2)])
    assume "p = 0" "parent_ok (Wait # cs) (fdt s 0) (next_pid s)"
    then have "pipe_inv ls sel t seen rem fin"
      using wait_child by (intro keep_parent [OF inv, of _ "fdt s 0"]) (auto simp: parent_moves phase_starts)
    then show ?thesis by blast
  qed (auto simp: grep_moves ps_moves split: list.splits)
next
  case (wait_none p cs)
  show ?thesis
  proof (rule acting [OF inv wait_none(2)])
    assume "p = 0" "parent_ok (Wait # cs) (fdt s 0) (next_pid s)"
    then have "pipe_inv ls sel t seen rem fin"
      using wait_none by (intro keep_parent [OF inv, of _ "fdt s 0"]) (auto simp: parent_moves phase_starts)
    then show ?thesis by blast
  qed (auto simp: grep_moves ps_moves split: list.splits)
next
  case (exit p cs)
  show ?thesis
  proof (rule acting [OF inv exit(2)])
    assume "p = 0" "parent_ok (Exit # cs) (fdt s 0) (next_pid s)"
    then have "pipe_inv ls sel t seen rem fin"
      using exit by (intro keep_parent [OF inv, of _ no_fds]) (auto simp: parent_moves phase_ends no_fds_def)
    then show ?thesis by blast
  next
    assume "p = 1" "2 \<le> next_pid s" "ps_ok ls (Exit # cs) (fdt s 1) rem"
    then have "pipe_inv ls sel t seen [] fin"
      using exit by (intro keep_ps [OF inv, of _ no_fds]) (auto simp: ps_moves phase_ends no_fds_def split: list.splits)
    then show ?thesis by blast
  next
    assume "p = 2" "next_pid s = 3" "grep_ok (Exit # cs) (fdt s 2) fin"
    then have "pipe_inv ls sel t seen rem True"
      using exit pipe_invD(6,7) [OF inv]
      by (intro keep_grep [OF inv, of _ no_fds]) (auto simp: grep_moves phase_ends no_fds_def)
    then show ?thesis by blast
  qed
next
  case (put_pipe p l cs)
  show ?thesis
  proof (rule acting [OF inv put_pipe(2)])
    assume "p = 1" "2 \<le> next_pid s" "ps_ok ls (Put l # cs) (fdt s 1) rem"
    then have "pipe_inv ls sel t seen (tl rem) fin"
      using put_pipe by (intro keep_ps [OF inv, of _ "fdt s 1"]) (auto simp: ps_moves phase_ends split: list.splits)
    then show ?thesis by blast
  qed (auto simp: grep_moves parent_moves)
next
  case (put_broken p l cs)
  show ?thesis
  proof (rule acting [OF inv put_broken(2)])
    assume "p = 1" "ps_ok ls (Put l # cs) (fdt s 1) rem"
    then have "rem \<noteq> []" by (auto simp: ps_moves split: list.splits)
    then have "\<not> fin" using pipe_invD(7) [OF inv] by blast
    then show ?thesis using reader_open [OF inv] put_broken by blast
  qed (auto simp: grep_moves parent_moves)
next
  case (put_tty p l cs)
  show ?thesis
    by (rule acting [OF inv put_tty(2)])
      (use put_tty in \<open>auto simp: grep_moves parent_moves ps_moves fds_closed_def base_fds_def split: list.splits\<close>)
next
  case (filter_line p cs l rest)
  show ?thesis
  proof (rule acting [OF inv filter_line(2)])
    assume "p = 2" "next_pid s = 3" "grep_ok (Filter # cs) (fdt s 2) fin"
    then have "pipe_inv ls sel t (seen @ [l]) rem fin"
      using filter_line pipe_invD(6,7) [OF inv]
      by (intro keep_grep [OF inv, of "code s 2" "fdt s 2"]) auto
    then show ?thesis by blast
  qed (auto simp: parent_moves ps_moves split: list.splits)
next
  case (filter_eof p cs)
  show ?thesis
  proof (rule acting [OF inv filter_eof(2)])
    assume p: "p = 2" "next_pid s = 3" "grep_ok (Filter # cs) (fdt s 2) fin"
    have c1: "code s 1 = []" using writer_open [OF inv] filter_eof p(2) by auto
    then have "rem = []" using pipe_invD(2) [OF inv] p(2) by (auto simp: ps_ok_def phase_defs)
    then have "pipe_inv ls sel t seen rem True"
      using filter_eof p pipe_invD(6) [OF inv] c1
      by (intro keep_grep [OF inv, of _ "fdt s 2"]) (auto simp: grep_moves phase_ends)
    then show ?thesis by blast
  qed (auto simp: parent_moves ps_moves split: list.splits)
qed

section \<open>No process is stuck\<close>

definition stuck :: "string list \<Rightarrow> (string \<Rightarrow> bool) \<Rightarrow> nat \<Rightarrow> psys \<Rightarrow> bool" where
  "stuck ls sel cap s \<longleftrightarrow> (\<forall>t. \<not> pstep ls sel cap (\<lambda>_. True) s t)"

lemma stuck_parent:
  assumes inv: "pipe_inv ls sel s seen rem fin" and st: "stuck ls sel cap s"
  shows "next_pid s = 3 \<and> (code s 0 = [] \<and> fdt s 0 = no_fds \<or> hd (code s 0) = Wait \<and> code s 0 \<noteq> [] \<and> fdt s 0 = fds_closed)"
proof (cases "code s 0")
  case Nil
  then show ?thesis using pipe_invD(1) [OF inv] by (auto simp: parent_ok_def phase_defs)
next
  case (Cons x cs)
  have no: "x \<noteq> Fork c" "x \<noteq> Close a" "x \<noteq> Exit" for c a
    using st Cons unfolding stuck_def by (metis pstep.fork, metis pstep.close, metis pstep.exit)
  show ?thesis using pipe_invD(1) [OF inv] no Cons by (auto simp: parent_moves)
qed

lemma stuck_ps:
  assumes inv: "pipe_inv ls sel s seen rem fin" and st: "stuck ls sel cap s" and "next_pid s = 3"
  shows "code s 1 = [] \<or> cap \<le> length (pipebuf s)"
proof (cases "code s 1")
  case (Cons x cs)
  have no: "x \<noteq> Dup2 a b" "x \<noteq> Close a" "x \<noteq> Exit" "x \<noteq> ExecPs" for a b
    using st Cons unfolding stuck_def by (metis pstep.dup2, metis pstep.close, metis pstep.exit, metis pstep.exec_ps)
  have m: "ps_ok ls (x # cs) (fdt s 1) rem" using pipe_invD(2) [OF inv] assms(3) Cons by simp
  have "\<exists>l. x = Put l \<and> fdt s 1 1 = Some WriteEnd"
    using m no by (auto simp: ps_moves split: list.splits)
  moreover have "open_end ReadEnd s" using reader_open [OF inv] pipe_invD(7) [OF inv] Cons by auto
  ultimately show ?thesis using st Cons unfolding stuck_def by (metis not_le pstep.put_pipe)
qed simp

lemma stuck_grep:
  assumes inv: "pipe_inv ls sel s seen rem fin" and st: "stuck ls sel cap s" and "next_pid s = 3"
  shows "code s 2 = [] \<or> pipebuf s = [] \<and> open_end WriteEnd s \<and> fdt s 2 = fds_closed(0 \<mapsto> ReadEnd)"
proof (cases "code s 2")
  case (Cons x cs)
  have no: "x \<noteq> Dup2 a b" "x \<noteq> Close a" "x \<noteq> Exit" "x \<noteq> ExecGrep" for a b
    using st Cons unfolding stuck_def by (metis pstep.dup2, metis pstep.close, metis pstep.exit, metis pstep.exec_grep)
  have m: "grep_ok (x # cs) (fdt s 2) fin" using pipe_invD(3) [OF inv] assms(3) Cons by simp
  then have f: "x = Filter" "fdt s 2 = fds_closed(0 \<mapsto> ReadEnd)" using no by (auto simp: grep_moves)
  then have "fdt s 2 0 = Some ReadEnd" by simp
  then have "pipebuf s = [] \<and> open_end WriteEnd s"
    using st Cons f(1) unfolding stuck_def by (metis list.exhaust pstep.filter_line pstep.filter_eof)
  then show ?thesis using f by blast
qed simp

lemma stuck_children:
  assumes inv: "pipe_inv ls sel s seen rem fin" and st: "stuck ls sel cap s" and cap: "0 < cap"
  shows "code s 1 = [] \<and> code s 2 = [] \<and> screen s = filter sel ls"
proof -
  note P = stuck_parent [OF inv st]
  then have n: "next_pid s = 3" by blast
  note D = pipe_invD [OF inv]
  have two: "code s 2 = []"
  proof (rule ccontr)
    assume "code s 2 \<noteq> []"
    then have g: "pipebuf s = []" "open_end WriteEnd s" "fdt s 2 = fds_closed(0 \<mapsto> ReadEnd)"
      using stuck_grep [OF inv st n] by auto
    then have "code s 1 = []" using stuck_ps [OF inv st n] cap by auto
    then have "fdt s 1 = no_fds" using D(2) n by (auto simp: ps_ok_def phase_defs)
    moreover obtain p k where pk: "fdt s p k = Some WriteEnd" using g(2) unfolding open_end_def by blast
    moreover have "p = 0 \<or> p = 1 \<or> p = 2 \<or> fdt s p = no_fds" using D(4) n
      by (metis One_nat_def Suc_1 less_2_cases less_Suc_eq not_le numeral_3_eq_3)
    ultimately show False using P g(3) by (auto simp: no_fds_def fds_closed_def base_fds_def split: if_splits)
  qed
  then have fin: fin using D(3) n by (auto simp: grep_ok_def phase_defs)
  then show ?thesis using D(5,6,7) two by auto
qed

section \<open>The parent outlives its children\<close>

definition wait_inv :: "psys \<Rightarrow> bool" where
  "wait_inv s \<longleftrightarrow> (\<forall>c. parent_of s c = Some 0 \<longleftrightarrow> 1 \<le> c \<and> c < next_pid s) \<and>
     (\<forall>c \<in> waited s. 1 \<le> c \<and> c < next_pid s \<and> code s c = []) \<and>
     card (waited s) + count_list (code s 0) Wait = 2"

lemma wait_inv_start: "wait_inv pipe2_start"
  by (simp add: wait_inv_def pipe2_start_def phase_defs)

lemma wait_inv_move:
  assumes "wait_inv s" "code s p \<noteq> []" "code t = (code s)(p := cs)" "p = 0 \<longrightarrow> count_list cs Wait = count_list (code s 0) Wait"
    "parent_of t = parent_of s" "next_pid t = next_pid s" "waited t = waited s"
  shows "wait_inv t"
  using assms unfolding wait_inv_def by auto

lemma finite_waited: "wait_inv s \<Longrightarrow> finite (waited s)"
  unfolding wait_inv_def by (rule finite_subset [of _ "{..<next_pid s}"]) auto

lemma wait_inv_step:
  assumes inv: "pipe_inv ls sel s seen rem fin" and w: "wait_inv s" and step: "pstep ls sel cap (\<lambda>_. True) s t"
  shows "wait_inv t"
  using step
proof cases
  case (fork p child cs c)
  have p: "p = 0" by (rule acting [OF inv fork(2)]) (auto simp: ps_moves grep_moves split: list.splits)
  then have "1 \<le> next_pid s" using parent_next [OF pipe_invD(1) [OF inv]] by simp
  then show ?thesis using w fork p unfolding wait_inv_def by (auto simp: less_Suc_eq)
next
  case (wait_child p cs c)
  have p: "p = 0" by (rule acting [OF inv wait_child(2)]) (auto simp: ps_moves grep_moves split: list.splits)
  moreover have "c \<noteq> 0" "c < next_pid s" "c \<notin> waited s" using w wait_child(3) p by (auto simp: wait_inv_def unwaited_def)
  ultimately show ?thesis using w wait_child finite_waited [OF w] unfolding wait_inv_def by auto
next
  case (wait_none p cs)
  have p: "p = 0 \<and> next_pid s = 3"
    by (rule acting [OF inv wait_none(2)]) (auto simp: parent_moves ps_moves grep_moves split: list.splits)
  then have "{1, 2} \<subseteq> waited s" using w wait_none(3) by (auto simp: wait_inv_def unwaited_def)
  then have "card {1, 2 :: nat} \<le> card (waited s)" using finite_waited [OF w] by (intro card_mono)
  then show ?thesis using w wait_none p unfolding wait_inv_def by simp
next
  case (exit p cs)
  have "p = 0 \<longrightarrow> cs = []"
    by (rule acting [OF inv exit(2)]) (auto simp: parent_moves)
  then show ?thesis using exit by (intro wait_inv_move [OF w, of p t "[]"]) auto
next
  case (put_broken p l cs)
  have "p \<noteq> 0" by (rule acting [OF inv put_broken(2)]) (auto simp: parent_moves)
  then show ?thesis using put_broken by (intro wait_inv_move [OF w, of p t "[]"]) auto
next
  case (exec_ps p cs)
  have "p \<noteq> 0" by (rule acting [OF inv exec_ps(2)]) (auto simp: parent_moves)
  then show ?thesis using exec_ps by (intro wait_inv_move [OF w, of p t]) auto
next
  case (exec_grep p cs)
  have "p \<noteq> 0" by (rule acting [OF inv exec_grep(2)]) (auto simp: parent_moves)
  then show ?thesis using exec_grep by (intro wait_inv_move [OF w, of p t]) auto
next
  case (dup2 p a b cs)
  then show ?thesis by (intro wait_inv_move [OF w, of p t cs]) auto
next
  case (close p a cs)
  then show ?thesis by (intro wait_inv_move [OF w, of p t cs]) auto
next
  case (put_pipe p l cs)
  then show ?thesis by (intro wait_inv_move [OF w, of p t cs]) auto
next
  case (put_tty p l cs)
  then show ?thesis by (intro wait_inv_move [OF w, of p t cs]) auto
next
  case (filter_eof p cs)
  then show ?thesis by (intro wait_inv_move [OF w, of p t cs]) auto
next
  case (filter_line p cs l rest)
  then show ?thesis by (intro wait_inv_move [OF w, of p t "code s p"]) auto
qed

lemma pipe2_reach_inv:
  assumes "pipe2_reach ls sel cap (\<lambda>_. True) s"
  shows "wait_inv s \<and> pids_ok s \<and> (\<exists>seen rem fin. pipe_inv ls sel s seen rem fin)"
  using assms
proof induction
  case base
  have "pids_ok pipe2_start" by (simp add: pids_ok_def pipe2_start_def)
  then show ?case using wait_inv_start pipe_inv_start by blast
next
  case (step s t)
  then show ?case using wait_inv_step pipe_inv_step pstep_effort(2) by metis
qed

lemma stuck_ended:
  assumes inv: "pipe_inv ls sel s seen rem fin" and w: "wait_inv s" and st: "stuck ls sel cap s" and cap: "0 < cap"
  shows "code s p = [] \<and> screen s = filter sel ls"
proof -
  note C = stuck_children [OF inv st cap]
  have n: "next_pid s = 3" using stuck_parent [OF inv st] by blast
  have zero: "code s 0 = []"
  proof (rule ccontr)
    assume "code s 0 \<noteq> []"
    then obtain cs where cs: "code s 0 = Wait # cs" using stuck_parent [OF inv st] by (cases "code s 0") auto
    then obtain c where c: "c \<in> unwaited 0 s" using st unfolding stuck_def by (metis pstep.wait_none ex_in_conv)
    then have "1 \<le> c \<and> c < 3" using w n by (auto simp: wait_inv_def unwaited_def)
    then have "c = 1 \<or> c = 2" by linarith
    then have "code s c = []" using C by blast
    then show False using st cs c unfolding stuck_def by (metis pstep.wait_child)
  qed
  have "p = 0 \<or> p = 1 \<or> p = 2 \<or> 3 \<le> p" by linarith
  then have "code s p = []" using zero C pipe_invD(4) [OF inv] n by auto
  then show ?thesis using C by blast
qed

lemma parent_last:
  assumes inv: "pipe_inv ls sel s seen rem fin" and w: "wait_inv s" and "code s 0 = []"
  shows "code s p = []"
proof -
  have n: "next_pid s = 3" using pipe_invD(1) [OF inv] assms(3) by (auto simp: parent_ok_def phase_defs)
  have "card (waited s) = 2" "waited s \<subseteq> {1, 2}" using w assms(3) n by (auto simp: wait_inv_def)
  then have "waited s = {1, 2}" by (intro card_subset_eq) auto
  then have "code s 1 = []" "code s 2 = []" using w by (auto simp: wait_inv_def)
  moreover have "p = 0 \<or> p = 1 \<or> p = 2 \<or> 3 \<le> p" by linarith
  ultimately show ?thesis using assms(3) pipe_invD(4) [OF inv] n by auto
qed

lemma pipe2_runs_out:
  assumes "pipe2_reach ls sel cap (\<lambda>_. True) s" "0 < cap"
  shows "\<exists>t. (pstep ls sel cap (\<lambda>_. True))\<^sup>*\<^sup>* s t \<and> (\<forall>p. code t p = []) \<and> screen t = filter sel ls"
proof -
  have "pids_ok s" using pipe2_reach_inv [OF assms(1)] by blast
  then obtain t where t: "(pstep ls sel cap (\<lambda>_. True))\<^sup>*\<^sup>* s t" "stuck ls sel cap t"
    using pstep_stops unfolding stuck_def by blast
  then have "pipe2_reach ls sel cap (\<lambda>_. True) t" using assms(1) by (meson rtranclp_trans)
  then show ?thesis using t pipe2_reach_inv stuck_ended [OF _ _ t(2) assms(2)] by blast
qed

text \<open>
  C10: the pipeline cannot hang. When both \<open>execl\<close> succeed and the pipe holds at least one
  line, every step of every schedule brings the end nearer, so no schedule runs for ever; a
  state in which nobody can move is one in which all processes have ended and the terminal
  shows exactly the lines of \<open>ps\<close> that \<open>grep\<close> selects, in their order; such a state is
  reached from every reachable one; and the parent ends last, with the output complete.
\<close>

theorem pipe2_completes:
  assumes "pipe2_reach ls sel cap (\<lambda>_. True) s" and "0 < cap"
  shows "(\<forall>t. pstep ls sel cap (\<lambda>_. True) s t \<longrightarrow> total_effort (length ls) t < total_effort (length ls) s) \<and>
    ((\<forall>t. \<not> pstep ls sel cap (\<lambda>_. True) s t) \<longrightarrow> (\<forall>p. code s p = []) \<and> screen s = filter sel ls) \<and>
    (\<exists>t. (pstep ls sel cap (\<lambda>_. True))\<^sup>*\<^sup>* s t \<and> (\<forall>p. code t p = []) \<and> screen t = filter sel ls) \<and>
    (code s 0 = [] \<longrightarrow> (\<forall>p. code s p = []) \<and> screen s = filter sel ls)"
proof -
  obtain seen rem fin where inv: "wait_inv s" "pids_ok s" "pipe_inv ls sel s seen rem fin"
    using pipe2_reach_inv [OF assms(1)] by blast
  have ended: "stuck ls sel cap s" if "\<forall>p. code s p = []"
    using that unfolding stuck_def by (auto elim!: pstepE)
  show ?thesis
    using pstep_effort(1) [OF _ inv(2)] stuck_ended [OF inv(3,1) _ assms(2)] pipe2_runs_out [OF assms]
      parent_last [OF inv(3,1)] ended unfolding stuck_def by blast
qed

lemma pipe2_completes_witness:
  "\<exists>t. pipe2_reach [''ps'', ''bash''] (\<lambda>l. l = ''bash'') 1 (\<lambda>_. True) t \<and> (\<forall>p. code t p = []) \<and> screen t = [''bash'']"
  using pipe2_completes [of "[''ps'', ''bash'']" "\<lambda>l. l = ''bash''" 1 pipe2_start] by simp

end
