(* ===== verification/PipelineHang.thy ===== *)
theory PipelineHang
  imports Pipeline
begin

text \<open>
  \<open>C/pipe2.c\<close> when \<open>/bin/ps\<close> cannot be executed and \<open>/bin/grep\<close> can. The source has no \<open>exit\<close>
  behind \<open>execl\<close>, so the first child goes on as a second parent: it forks a \<open>grep\<close> of its own,
  whose input is the terminal because the pipe is closed there, and waits for it. The terminal
  is one at which nobody types, and a \<open>Filter\<close> on it waits.
\<close>

section \<open>Where the processes are\<close>

abbreviation "no_ps \<equiv> (\<lambda>c. c \<noteq> ExecPs)"

text \<open>
  The second \<open>grep\<close>, the first child before and after its fork, and the parent, by the code
  they still have to run, their descriptors, their children and the children waited for.
\<close>

definition kid_at :: "pcall list \<Rightarrow> (nat \<Rightarrow> fdobj option) \<Rightarrow> bool" where
  "kid_at c f \<longleftrightarrow> f 0 = Some Tty \<and>
     (c \<in> {child_b, drop 1 child_b, drop 2 child_b, drop 3 child_b} \<and> f 3 = None \<or> c = [Filter, Exit])"

definition stray_at :: "pcall list \<Rightarrow> (nat \<Rightarrow> fdobj option) \<Rightarrow> nat set \<Rightarrow> bool" where
  "stray_at c f kids \<longleftrightarrow>
     kids = {} \<and> f 0 = Some Tty \<and> (c \<in> {child_a, drop 1 child_a} \<or> c \<in> {drop 2 child_a, drop 3 child_a, after_a} \<and> f 3 = None) \<or>
     (\<exists>k. kids = {k}) \<and> c \<in> {after_b, drop 1 after_b, drop 2 after_b}"

definition main_at :: "pcall list \<Rightarrow> nat \<Rightarrow> nat set \<Rightarrow> nat set \<Rightarrow> bool" where
  "main_at c n kids gone \<longleftrightarrow>
     (c, n, kids) = (pipe2_main, 1, {}) \<or> c = after_a \<and> kids = {1} \<or>
     (\<exists>b. kids = {1, b} \<and> (c \<in> {after_b, drop 1 after_b, drop 2 after_b} \<or> c = drop 3 after_b \<and> b \<in> gone))"

definition children :: "nat \<Rightarrow> psys \<Rightarrow> nat set" where
  "children p s = {c. parent_of s c = Some p}"

definition hang_inv :: "psys \<Rightarrow> bool" where
  "hang_inv s \<longleftrightarrow> (\<forall>c. next_pid s \<le> c \<longrightarrow> code s c = [] \<and> c \<notin> waited s \<and> parent_of s c = None) \<and>
     main_at (code s 0) (next_pid s) (children 0 s) (waited s) \<and>
     (if next_pid s = 1 then fdt s 0 0 = Some Tty \<and> children 1 s = {}
      else 1 \<in> children 0 s \<and> 1 \<notin> waited s \<and> stray_at (code s 1) (fdt s 1) (children 1 s)) \<and>
     (\<forall>k \<in> children 1 s. k \<notin> waited s \<and> kid_at (code s k) (fdt s k))"

section \<open>The invariant is kept\<close>

lemma kid_moves: "kid_at (x # cs) f \<longleftrightarrow> f 0 = Some Tty \<and>
    ((x, cs) \<in> {(Dup2 3 0, drop 1 child_b), (Close 3, drop 2 child_b), (Close 4, drop 3 child_b), (ExecGrep, after_b)} \<and> f 3 = None \<or>
     (x, cs) = (Filter, [Exit]))"
  by (auto simp: kid_at_def child_b_def)

lemma stray_moves: "stray_at (x # cs) f kids \<longleftrightarrow>
    kids = {} \<and> f 0 = Some Tty \<and>
      ((x, cs) \<in> {(Dup2 4 1, drop 1 child_a), (Close 3, drop 2 child_a)} \<or>
       (x, cs) \<in> {(Close 4, drop 3 child_a), (ExecPs, after_a), (Fork child_b, after_b)} \<and> f 3 = None) \<or>
    (\<exists>k. kids = {k}) \<and> (x, cs) \<in> {(Close 3, drop 1 after_b), (Close 4, drop 2 after_b), (Wait, drop 3 after_b)}"
  by (auto simp: stray_at_def child_a_def after_a_def after_b_def)

lemma main_moves: "main_at (x # cs) n kids gone \<longleftrightarrow>
    (x, cs, n, kids) = (Fork child_a, after_a, 1, {}) \<or> (x, cs, kids) = (Fork child_b, after_b, {1}) \<or>
    (\<exists>b. kids = {1, b} \<and> ((x, cs) \<in> {(Close 3, drop 1 after_b), (Close 4, drop 2 after_b), (Wait, drop 3 after_b)} \<or>
      (x, cs) = (Wait, [Exit]) \<and> b \<in> gone))"
  by (auto simp: main_at_def pipe2_main_def after_a_def after_b_def)

lemma not_ended: "\<not> kid_at [] f" "\<not> stray_at [] f kids" "\<not> main_at [] n kids gone"
  by (simp_all add: kid_at_def stray_at_def main_at_def phase_defs)

lemma at_starts:
  "f 0 = Some Tty \<Longrightarrow> f 3 = None \<Longrightarrow> kid_at child_b f \<and> kid_at (drop (Suc 0) child_b) f \<and> kid_at (drop 2 child_b) f \<and> kid_at (drop 3 child_b) f"
  "f 0 = Some Tty \<Longrightarrow> kid_at [Filter, Exit] f"
  "f 0 = Some Tty \<Longrightarrow> stray_at child_a f {} \<and> stray_at (drop (Suc 0) child_a) f {}"
  "f 0 = Some Tty \<Longrightarrow> f 3 = None \<Longrightarrow> stray_at (drop 2 child_a) f {} \<and> stray_at (drop 3 child_a) f {} \<and> stray_at after_a f {}"
  "stray_at after_b f {k} \<and> stray_at (drop (Suc 0) after_b) f {k} \<and> stray_at (drop 2 after_b) f {k}"
  "main_at after_a n {Suc 0} gone" "main_at after_b n {b, Suc 0} gone"
  "main_at (drop (Suc 0) after_b) n {Suc 0, b} gone" "main_at (drop 2 after_b) n {Suc 0, b} gone"
  "b \<in> gone \<Longrightarrow> main_at (drop 3 after_b) n {Suc 0, b} gone"
  by (auto simp: kid_at_def stray_at_def main_at_def)

lemma main_at_mono: "main_at c n kids gone \<Longrightarrow> n \<noteq> 1 \<or> m = n \<Longrightarrow> gone \<subseteq> gone' \<Longrightarrow> main_at c m kids gone'"
  unfolding main_at_def by blast

lemma hang_invD:
  assumes "hang_inv s"
  shows "\<forall>c. next_pid s \<le> c \<longrightarrow> code s c = [] \<and> c \<notin> waited s \<and> parent_of s c = None"
    "main_at (code s 0) (next_pid s) (children 0 s) (waited s)"
    "next_pid s = 1 \<longrightarrow> fdt s 0 0 = Some Tty \<and> children 1 s = {}"
    "next_pid s \<noteq> 1 \<longrightarrow> 1 \<in> children 0 s \<and> 1 \<notin> waited s \<and> stray_at (code s 1) (fdt s 1) (children 1 s)"
    "\<forall>k \<in> children 1 s. k \<notin> waited s \<and> kid_at (code s k) (fdt s k)"
  using assms unfolding hang_inv_def by (simp_all split: if_splits)

lemma kid_step:
  assumes inv: "hang_inv s" and k: "k \<in> children 1 s" and step: "pstep ls sel cap no_ps s t"
  shows "k \<notin> waited t \<and> kid_at (code t k) (fdt t k)"
proof -
  have kid: "k \<notin> waited s" "kid_at (code s k) (fdt s k)" using hang_invD(5) [OF inv] k by auto
  have old: "k \<noteq> next_pid s" using hang_invD(1) [OF inv] k by (auto simp: children_def)
  show ?thesis
    using step
  proof cases
    case (wait_child p cs d)
    have "d \<noteq> k" using wait_child(4) kid(2) not_ended by auto
    then show ?thesis using wait_child kid by (auto simp: kid_moves)
  qed (use kid old in \<open>auto simp: kid_moves at_starts\<close>)
qed

lemma children_simps [simp]:
  "children q (run_on p cs s) = children q s" "children q (set_fd p n e s) = children q s" "children q (die p s) = children q s"
  "children q (s\<lparr>waited := w\<rparr>) = children q s" "children q (s\<lparr>pipebuf := b\<rparr>) = children q s"
  "children q (s\<lparr>screen := l\<rparr>) = children q s" "children q (s\<lparr>pipebuf := b, screen := l\<rparr>) = children q s"
  by (simp_all add: children_def)

lemma children_fork:
  assumes "hang_inv s" "c = next_pid s"
  shows "children q (s\<lparr>code := cd, fdt := f, parent_of := (parent_of s)(c \<mapsto> p), next_pid := n\<rparr>) =
    (if q = p then insert c (children q s) else children q s)"
  using hang_invD(1) [OF assms(1)] assms(2) by (auto simp: children_def)

lemma unwaited_children: "unwaited p s = children p s - waited s"
  by (auto simp: unwaited_def children_def)

lemma stray_step:
  assumes inv: "hang_inv s" and n: "next_pid s \<noteq> 1" and step: "pstep ls sel cap no_ps s t"
  shows "1 \<notin> waited t \<and> stray_at (code t 1) (fdt t 1) (children 1 t)"
proof -
  have st: "1 \<notin> waited s" "stray_at (code s 1) (fdt s 1) (children 1 s)"
    using hang_invD(4) [OF inv] n by auto
  note kid = hang_invD(5) [OF inv] 
  show ?thesis
    using step
  proof cases
    case (fork p child cs c)
    then show ?thesis using st n by (auto simp: children_fork [OF inv] stray_moves at_starts)
  next
    case (wait_child p cs d)
    have "d \<noteq> 1" "p \<noteq> 1" using wait_child(3,4) st(2) kid not_ended by (auto simp: unwaited_children)
    then show ?thesis using wait_child st by simp
  next
    case (wait_none p cs)
    have "p \<noteq> 1" using wait_none st kid by (auto simp: unwaited_children stray_moves)
    then show ?thesis using wait_none st by simp
  qed (use st in \<open>auto simp: stray_moves at_starts\<close>)
qed

lemma main_step:
  assumes inv: "hang_inv s" and step: "pstep ls sel cap no_ps s t"
  shows "main_at (code t 0) (next_pid t) (children 0 t) (waited t)"
proof -
  have m: "main_at (code s 0) (next_pid s) (children 0 s) (waited s)" using hang_invD(2) [OF inv] .
  show ?thesis
    using step
  proof cases
    case (fork p child cs c)
    show ?thesis
    proof (cases "p = 0")
      case True
      have "cs = after_a \<and> insert c (children 0 s) = {1} \<or> cs = after_b \<and> insert c (children 0 s) = {1, c}"
        using m True fork(2,3) by (auto simp: main_moves)
      then have "main_at cs k (insert c (children 0 s)) gone" for k gone by (auto simp: main_at_def)
      then show ?thesis using fork True by (simp add: children_fork [OF inv])
    next
      case False
      then have "next_pid s \<noteq> 1"
        using fork(2) hang_invD(1) [OF inv] by (metis One_nat_def Suc_leI list.distinct(1) neq0_conv)
      then show ?thesis using False fork main_at_mono [OF m] hang_invD(1) [OF inv] by (auto simp: children_fork [OF inv])
    qed
  next
    case (wait_child p cs d)
    show ?thesis
    proof (cases "p = 0")
      case True
      have "1 \<in> children 0 s" using m True wait_child(2) by (auto simp: main_moves)
      then have "next_pid s \<noteq> 1" using hang_invD(1) [OF inv] by (auto simp: children_def)
      then have "d \<noteq> 1" using wait_child(4) hang_invD(4) [OF inv] not_ended by auto
      then show ?thesis using True wait_child m by (auto simp: main_moves at_starts unwaited_children)
    next
      case False
      then show ?thesis using wait_child main_at_mono [OF m, of "next_pid s" "insert d (waited s)"] by auto
    qed
  next
    case (wait_none p cs)
    have "p \<noteq> 0"
    proof
      assume "p = 0"
      then have "1 \<in> children 0 s" "1 \<in> waited s" using m wait_none(2,3) by (auto simp: main_moves unwaited_children)
      moreover from this have "next_pid s \<noteq> 1" using hang_invD(1) [OF inv] by auto
      ultimately show False using hang_invD(4) [OF inv] by blast
    qed
    then show ?thesis using wait_none m by simp
  next
    case (exec_grep p cs)
    have "p \<noteq> 0" using exec_grep(2) m by (cases "p = 0") (auto simp: main_moves)
    then show ?thesis using exec_grep m by simp
  qed (use m in \<open>auto simp: main_moves at_starts\<close>)
qed

lemma kids_step:
  assumes inv: "hang_inv s" and step: "pstep ls sel cap no_ps s t"
  shows "\<forall>k \<in> children 1 t. k \<notin> waited t \<and> kid_at (code t k) (fdt t k)"
proof (cases "children 1 t = children 1 s")
  case False
  with step show ?thesis
  proof cases
    case (fork p child cs c)
    then have p: "p = 1" using False by (auto simp: children_fork [OF inv] split: if_splits)
    then have st: "stray_at (Fork child # cs) (fdt s 1) (children 1 s)" "c \<notin> waited s" "c \<noteq> 1"
      using fork hang_invD(1,4) [OF inv] by force+
    then show ?thesis using fork p by (auto simp: children_fork [OF inv] stray_moves at_starts)
  qed (auto split: if_splits)
qed (use kid_step [OF inv _ step] in simp)

lemma hang_step:
  assumes inv: "hang_inv s" and step: "pstep ls sel cap no_ps s t"
  shows "hang_inv t"
proof -
  have "\<forall>c. next_pid t \<le> c \<longrightarrow> code t c = [] \<and> c \<notin> waited t \<and> parent_of t c = None"
    using step
  proof cases
    case (wait_child p cs d)
    then have "d < next_pid s" "p < next_pid s" using hang_invD(1) [OF inv] by (force simp: unwaited_def not_le [symmetric])+
    then show ?thesis using wait_child hang_invD(1) [OF inv] by auto
  qed (use hang_invD(1) [OF inv] in \<open>force+\<close>)
  moreover have "if next_pid t = 1 then fdt t 0 0 = Some Tty \<and> children 1 t = {}
    else 1 \<in> children 0 t \<and> 1 \<notin> waited t \<and> stray_at (code t 1) (fdt t 1) (children 1 t)"
  proof (cases "next_pid s = 1")
    case True
    then have p: "p = 0" if "code s p = c # cs" for p c cs
      using that hang_invD(1) [OF inv] by (metis One_nat_def Suc_leI list.distinct(1) neq0_conv)
    have "main_at (code s 0) 1 (children 0 s) (waited s)" "1 \<notin> children 0 s"
      using hang_invD(1,2) [OF inv] True by (simp_all add: children_def)
    then have "code s 0 = [Fork child_a] @ after_a" by (auto simp: main_at_def pipe2_main_def)
    with step p show ?thesis
      using hang_invD(1,3) [OF inv] True
      by cases (force simp: children_fork [OF inv] at_starts)+
  next
    case False
    have one: "1 \<in> children 0 s" using hang_invD(4) [OF inv] False by blast
    have "1 < next_pid s" using one hang_invD(1) [OF inv] by (force simp: children_def not_le [symmetric])
    with step have "next_pid t \<noteq> 1 \<and> 1 \<in> children 0 t"
      by cases (use one in \<open>auto simp: children_fork [OF inv]\<close>)
    then show ?thesis using stray_step [OF inv False step] by simp
  qed
  ultimately show ?thesis
    unfolding hang_inv_def using main_step [OF inv step] kids_step [OF inv step] by blast
qed

lemma hang_start: "hang_inv pipe2_start"
  by (simp add: hang_inv_def pipe2_start_def main_at_def children_def base_fds_def)

lemma hang_reach: "pipe2_reach ls sel cap no_ps s \<Longrightarrow> hang_inv s \<and> pids_ok s"
proof (induction rule: rtranclp_induct)
  case base
  then show ?case using hang_start by (simp add: pids_ok_def pipe2_start_def)
next
  case (step s t)
  then show ?case using hang_step pstep_effort(2) by blast
qed

section \<open>The end of every run\<close>

lemma pstep_moves:
  "code s p = x # cs \<Longrightarrow> x \<in> {Fork c, Dup2 a b, Close a, ExecPs, ExecGrep, Exit} \<Longrightarrow> \<exists>t. pstep ls sel cap ok s t"
  by (auto intro: pstep.intros)

lemma hang_stuck:
  assumes inv: "hang_inv s" and st: "\<forall>t. \<not> pstep ls sel cap no_ps s t"
  shows "hd (code s 0) = Wait \<and> hd (code s 1) = Wait \<and> (\<exists>k. parent_of s k = Some 1 \<and> hd (code s k) = Filter \<and> fdt s k 0 = Some Tty)"
proof -
  have no: "x \<noteq> Fork c" "x \<noteq> Dup2 a b" "x \<noteq> Close a" "x \<noteq> ExecPs" "x \<noteq> ExecGrep" if "code s p = x # cs" for p x cs c a b
    using st pstep_moves [OF that] by blast+
  obtain x cs where m: "code s 0 = x # cs" using hang_invD(2) [OF inv] not_ended by (cases "code s 0") auto
  then have zero: "x = Wait" "1 \<in> children 0 s"
    using hang_invD(2) [OF inv] no [OF m] by (auto simp: main_moves)
  then have "next_pid s \<noteq> 1" using hang_invD(1) [OF inv] by (auto simp: children_def)
  then have one: "stray_at (code s 1) (fdt s 1) (children 1 s)" using hang_invD(4) [OF inv] by blast
  then obtain y ds where y: "code s 1 = y # ds" using not_ended by (cases "code s 1") auto
  then have "y = Wait" "\<exists>k. k \<in> children 1 s" using one no [OF y] by (auto simp: stray_moves)
  then obtain k where k: "k \<in> children 1 s" by blast
  then have kid: "kid_at (code s k) (fdt s k)" using hang_invD(5) [OF inv] by blast
  then obtain z es where z: "code s k = z # es" using not_ended by (cases "code s k") auto
  then have "z = Filter" "fdt s k 0 = Some Tty" using kid no [OF z] by (auto simp: kid_moves)
  then show ?thesis using m zero y \<open>y = Wait\<close> k z by (auto simp: children_def)
qed

text \<open>
  When \<open>ps\<close> cannot be executed the pipeline hangs under every schedule. The program never
  ends; no schedule runs for ever, so every one comes to a state in which nobody can move, and
  there the parent waits for the first child, the first child for the \<open>grep\<close> it forked in the
  parent's place, and that one for the terminal.
\<close>

lemma pipe2_hangs:
  assumes "pipe2_reach ls sel cap (\<lambda>c. c \<noteq> ExecPs) s"
  shows "code s 0 \<noteq> [] \<and>
    (\<forall>t. pstep ls sel cap (\<lambda>c. c \<noteq> ExecPs) s t \<longrightarrow> total_effort (length ls) t < total_effort (length ls) s) \<and>
    (\<exists>t. (pstep ls sel cap (\<lambda>c. c \<noteq> ExecPs))\<^sup>*\<^sup>* s t \<and> (\<forall>u. \<not> pstep ls sel cap (\<lambda>c. c \<noteq> ExecPs) t u)) \<and>
    ((\<forall>t. \<not> pstep ls sel cap (\<lambda>c. c \<noteq> ExecPs) s t) \<longrightarrow> hd (code s 0) = Wait \<and> hd (code s 1) = Wait \<and>
      (\<exists>k. parent_of s k = Some 1 \<and> hd (code s k) = Filter \<and> fdt s k 0 = Some Tty))"
proof -
  have inv: "hang_inv s" "pids_ok s" using hang_reach [OF assms] by auto
  have "code s 0 \<noteq> []" using hang_invD(2) [OF inv(1)] not_ended(3) by metis
  then show ?thesis using pstep_effort(1) [OF _ inv(2)] pstep_stops [OF inv(2)] hang_stuck [OF inv(1)] by blast
qed

lemma pipe2_hangs_example:
  "\<exists>t. pipe2_reach [''ps'', ''bash''] (\<lambda>l. l = ''bash'') 1 (\<lambda>c. c \<noteq> ExecPs) t \<and>
     (\<forall>u. \<not> pstep [''ps'', ''bash''] (\<lambda>l. l = ''bash'') 1 (\<lambda>c. c \<noteq> ExecPs) t u) \<and> code t 0 \<noteq> []"
  using pipe2_hangs [of "[''ps'', ''bash'']" "\<lambda>l. l = ''bash''" 1]
  by (metis (no_types, lifting) rtranclp.rtrancl_refl)

end
