(* ===== verification/PipelineBroken.thy ===== *)
theory PipelineBroken
  imports PipelineHang
begin

text \<open>
  \<open>C/pipe2.c\<close> when \<open>/bin/grep\<close> cannot be executed and \<open>/bin/ps\<close> can. The second child then goes on
  behind its \<open>if\<close>: it closes the pipe, waits for children it does not have, and ends; \<open>ps\<close> is left
  without a reader. With \<open>PipelineHang\<close> this completes the error cases of the program.
\<close>

section \<open>Where the processes are\<close>

definition mute_at :: "pcall list \<Rightarrow> (nat \<Rightarrow> fdobj option) \<Rightarrow> bool" where
  "mute_at c f \<longleftrightarrow>
     (c, f) \<in> {(child_b, base_fds), ([Close 3, Close 4, ExecGrep] @ after_b, base_fds(0 \<mapsto> ReadEnd)),
       ([Close 4, ExecGrep] @ after_b, base_fds(0 \<mapsto> ReadEnd, 3 := None)), ([], no_fds)} \<or>
     f = fds_closed(0 \<mapsto> ReadEnd) \<and> c \<in> {ExecGrep # after_b, after_b, [Close 4, Wait, Wait, Exit], [Wait, Wait, Exit], [Wait, Exit], [Exit]}"

definition broken_at :: "string list \<Rightarrow> nat \<Rightarrow> pcall list \<Rightarrow> (nat \<Rightarrow> fdobj option) \<Rightarrow> nat \<Rightarrow> bool" where
  "broken_at ls p c f n \<longleftrightarrow>
     (if p = 0 then parent_ok c f n else if p = 1 then \<exists>rem. ps_ok ls c f rem else p = 2 \<and> mute_at c f)"

definition broken_inv :: "string list \<Rightarrow> psys \<Rightarrow> bool" where
  "broken_inv ls s \<longleftrightarrow> 1 \<le> next_pid s \<and> next_pid s \<le> 3 \<and> screen s = [] \<and>
     (\<forall>p < next_pid s. broken_at ls p (code s p) (fdt s p) (next_pid s)) \<and>
     (\<forall>p \<ge> next_pid s. code s p = [] \<and> fdt s p = no_fds) \<and>
     (\<forall>c q. parent_of s c = Some q \<longleftrightarrow> q = 0 \<and> 1 \<le> c \<and> c < next_pid s)"

lemma mute_moves: "mute_at (x # cs) f \<longleftrightarrow>
  (x, cs, f) \<in> {(Dup2 3 0, [Close 3, Close 4, ExecGrep] @ after_b, base_fds),
    (Close 3, [Close 4, ExecGrep] @ after_b, base_fds(0 \<mapsto> ReadEnd)), (Close 4, ExecGrep # after_b, base_fds(0 \<mapsto> ReadEnd, 3 := None))} \<or>
  f = fds_closed(0 \<mapsto> ReadEnd) \<and> (x, cs) \<in> {(ExecGrep, after_b), (Close 3, [Close 4, Wait, Wait, Exit]), (Close 4, [Wait, Wait, Exit]),
    (Wait, [Wait, Exit]), (Wait, [Exit]), (Exit, [])}"
  by (auto simp: mute_at_def child_b_def after_b_def)

lemma mute_points:
  "mute_at child_b base_fds" "mute_at [] no_fds" "mute_at ([Close 3, Close 4, ExecGrep] @ after_b) (base_fds(0 \<mapsto> ReadEnd))"
  "mute_at ([Close 4, ExecGrep] @ after_b) (base_fds(0 \<mapsto> ReadEnd, 3 := None))"
  "c \<in> {ExecGrep # after_b, after_b, [Close 4, Wait, Wait, Exit], [Wait, Wait, Exit], [Wait, Exit], [Exit]} \<Longrightarrow> mute_at c (fds_closed(0 \<mapsto> ReadEnd))"
  by (simp_all add: mute_at_def)

lemma ps_points:
  "\<exists>rem. ps_ok ls child_a base_fds rem" "\<exists>rem. ps_ok ls [] no_fds rem"
  "\<exists>rem. ps_ok ls ([Close 3, Close 4, ExecPs] @ after_a) (base_fds(1 \<mapsto> WriteEnd)) rem"
  "\<exists>rem. ps_ok ls ([Close 4, ExecPs] @ after_a) (base_fds(1 \<mapsto> WriteEnd, 3 := None)) rem"
  "\<exists>rem. ps_ok ls (ExecPs # after_a) (fds_closed(1 \<mapsto> WriteEnd)) rem"
  "\<exists>rem. ps_ok ls (map Put ls' @ [Exit]) (fds_closed(1 \<mapsto> WriteEnd)) rem"
proof -
  have "ps_ok ls ([Close 3, Close 4, ExecPs] @ after_a) (base_fds(1 \<mapsto> WriteEnd)) ls"
    "ps_ok ls ([Close 4, ExecPs] @ after_a) (base_fds(1 \<mapsto> WriteEnd, 3 := None)) ls"
    "ps_ok ls (ExecPs # after_a) (fds_closed(1 \<mapsto> WriteEnd)) ls" by (simp_all add: ps_ok_def)
  then show "\<exists>rem. ps_ok ls child_a base_fds rem" "\<exists>rem. ps_ok ls [] no_fds rem"
    "\<exists>rem. ps_ok ls ([Close 3, Close 4, ExecPs] @ after_a) (base_fds(1 \<mapsto> WriteEnd)) rem"
    "\<exists>rem. ps_ok ls ([Close 4, ExecPs] @ after_a) (base_fds(1 \<mapsto> WriteEnd, 3 := None)) rem"
    "\<exists>rem. ps_ok ls (ExecPs # after_a) (fds_closed(1 \<mapsto> WriteEnd)) rem"
    "\<exists>rem. ps_ok ls (map Put ls' @ [Exit]) (fds_closed(1 \<mapsto> WriteEnd)) rem"
    using phase_starts(8,9,10) by blast+
qed

lemma ps_any_moves: "(\<exists>rem. ps_ok ls (x # cs) f rem) \<longleftrightarrow>
  (x, cs, f) \<in> {(Dup2 4 1, [Close 3, Close 4, ExecPs] @ after_a, base_fds),
    (Close 3, [Close 4, ExecPs] @ after_a, base_fds(1 \<mapsto> WriteEnd)),
    (Close 4, ExecPs # after_a, base_fds(1 \<mapsto> WriteEnd, 3 := None)), (ExecPs, after_a, fds_closed(1 \<mapsto> WriteEnd))} \<or>
  f = fds_closed(1 \<mapsto> WriteEnd) \<and> (x = Exit \<and> cs = [] \<or> (\<exists>l ls'. x = Put l \<and> cs = map Put ls' @ [Exit]))"
  (is "_ \<longleftrightarrow> ?R")
proof
  assume "\<exists>rem. ps_ok ls (x # cs) f rem"
  then obtain rem where "ps_ok ls (x # cs) f rem" by blast
  then show ?R by (cases rem) (auto simp: ps_moves)
next
  assume ?R
  moreover have "\<exists>rem. ps_ok ls (Put l # map Put ls' @ [Exit]) (fds_closed(1 \<mapsto> WriteEnd)) rem" for l ls'
    using ps_points(6) [of ls "l # ls'"] by simp
  ultimately show "\<exists>rem. ps_ok ls (x # cs) f rem"
    using ps_points(1,3,4,5) [of ls] ps_points(6) [of ls "[]"] by (auto simp: child_a_def)
qed

lemmas moves = parent_moves ps_any_moves mute_moves

section \<open>One move of one process\<close>

lemma fds_twist:
  "fds_closed(x \<mapsto> e, 3 := None) = (if x = 3 then fds_closed else fds_closed(x \<mapsto> e))"
  "fds_closed(x \<mapsto> e, 4 := None) = (if x = 4 then fds_closed else fds_closed(x \<mapsto> e))"
  "base_fds(3 := None, 4 := None) = fds_closed"
  "base_fds(x \<mapsto> e, 3 := None, 4 := None) = (if x = 3 \<or> x = 4 then fds_closed else fds_closed(x \<mapsto> e))"
  by (auto simp: fds_closed_def fun_eq_iff)

lemma broken_dup2: "broken_at ls p (Dup2 a b # cs) f n \<Longrightarrow> f a \<noteq> None \<and> broken_at ls p cs (f(b := f a)) n"
  using ps_points mute_points by (auto simp: broken_at_def moves base_fds_def split: if_splits)

lemma broken_close: "broken_at ls p (Close a # cs) f n \<Longrightarrow> broken_at ls p cs (f(a := None)) n"
  using ps_points [of ls] mute_points by (auto simp: broken_at_def moves fds_twist phase_starts split: if_splits)

lemma broken_exec_ps: "broken_at ls p (ExecPs # cs) f n \<Longrightarrow> broken_at ls p (map Put ls @ [Exit]) f n"
  using ps_points(6) [of ls ls] by (auto simp: broken_at_def moves split: if_splits)

lemma broken_exec_grep: "broken_at ls p (ExecGrep # cs) f n \<Longrightarrow> broken_at ls p cs f n"
  using mute_points(5) by (auto simp: broken_at_def moves split: if_splits)

lemma broken_wait: "broken_at ls p (Wait # cs) f n \<Longrightarrow> broken_at ls p cs f n"
  using mute_points(5) [of "[Wait, Exit]"] mute_points(5) [of "[Exit]"]
  by (auto simp: broken_at_def moves phase_starts split: if_splits)

lemma broken_ended: "broken_at ls p [] f n \<Longrightarrow> f = no_fds"
proof -
  have "ps_ok ls [] f rem \<Longrightarrow> f = no_fds" "parent_ok [] f n \<Longrightarrow> f = no_fds" "mute_at [] f \<Longrightarrow> f = no_fds" for rem
    by (auto simp: ps_ok_def parent_ok_def mute_at_def phase_defs)
  then show "broken_at ls p [] f n \<Longrightarrow> f = no_fds" unfolding broken_at_def by metis
qed

lemma broken_exit: "broken_at ls p (Exit # cs) f n \<Longrightarrow> broken_at ls p [] no_fds n"
  using ps_points(2) [of ls] mute_points(2) by (auto simp: broken_at_def moves phase_starts split: if_splits)

lemma broken_put:
  "broken_at ls p (Put l # cs) f n \<Longrightarrow> p = 1 \<and> f = fds_closed(1 \<mapsto> WriteEnd) \<and> broken_at ls p cs f n \<and> broken_at ls p [] no_fds n"
  using ps_points(2,6) [of ls] by (auto simp: broken_at_def moves split: if_splits)

lemma broken_filter: "\<not> broken_at ls p (Filter # cs) f n"
  by (auto simp: broken_at_def moves split: if_splits)

lemma broken_fork:
  "broken_at ls p (Fork child # cs) f n \<Longrightarrow> p = 0 \<and> f = base_fds \<and> n \<in> {1, 2} \<and> broken_at ls 0 cs f (Suc n) \<and> broken_at ls n child base_fds (Suc n)"
  using ps_points(1) [of ls] mute_points(1) phase_starts(1,2)
  by (auto simp: broken_at_def moves numeral_2_eq_2 numeral_3_eq_3 split: if_splits)

lemma broken_acting: "broken_inv ls s \<Longrightarrow> code s p = x # cs \<Longrightarrow> p < next_pid s \<and> broken_at ls p (x # cs) (fdt s p) (next_pid s)"
  unfolding broken_inv_def by (metis list.distinct(1) not_le)

lemma broken_keep:
  assumes "broken_inv ls s" "p < next_pid s" "broken_at ls p c f (next_pid s)" "code t = (code s)(p := c)" "fdt t = (fdt s)(p := f)"
    "next_pid t = next_pid s" "screen t = screen s" "parent_of t = parent_of s"
  shows "broken_inv ls t"
  using assms by (auto simp: broken_inv_def)

lemma broken_step:
  assumes inv: "broken_inv ls s" and step: "pstep ls sel cap (\<lambda>c. c \<noteq> ExecGrep) s t"
  shows "broken_inv ls t"
  using step
proof cases
  case (fork p child cs c)
  have b: "p = 0" "fdt s 0 = base_fds" "next_pid s \<in> {1, 2}" "broken_at ls 0 cs (fdt s 0) (Suc (next_pid s))"
    "broken_at ls (next_pid s) child base_fds (Suc (next_pid s))"
    using broken_fork broken_acting [OF inv fork(2)] by blast+
  have other: "broken_at ls q (code s q) (fdt s q) (Suc (next_pid s))" if "q < next_pid s" "q \<noteq> 0" for q
    using inv that by (auto simp: broken_inv_def broken_at_def)
  show ?thesis
    using inv fork b other unfolding broken_inv_def by (auto simp: less_Suc_eq)
next
  case (dup2 p a b cs)
  then have "fdt s p a \<noteq> None" "broken_at ls p cs ((fdt s p)(b := fdt s p a)) (next_pid s)" "p < next_pid s"
    using broken_acting [OF inv dup2(2)] broken_dup2 by blast+
  then show ?thesis using dup2
    by (intro broken_keep [OF inv, of p cs "(fdt s p)(b := fdt s p a)"]) auto
next
  case (close p a cs)
  then show ?thesis using broken_acting [OF inv close(2)] broken_close
    by (intro broken_keep [OF inv, of p cs "(fdt s p)(a := None)"]) auto
next
  case (exec_ps p cs)
  then show ?thesis using broken_acting [OF inv exec_ps(2)] broken_exec_ps
    by (intro broken_keep [OF inv, of p "map Put ls @ [Exit]" "fdt s p"]) auto
next
  case (exec_grep p cs)
  then show ?thesis using broken_acting [OF inv exec_grep(2)] broken_exec_grep
    by (intro broken_keep [OF inv, of p cs "fdt s p"]) auto
next
  case (wait_child p cs c)
  then show ?thesis using broken_acting [OF inv wait_child(2)] broken_wait
    by (intro broken_keep [OF inv, of p cs "fdt s p"]) auto
next
  case (wait_none p cs)
  then show ?thesis using broken_acting [OF inv wait_none(2)] broken_wait
    by (intro broken_keep [OF inv, of p cs "fdt s p"]) auto
next
  case (exit p cs)
  then show ?thesis using broken_acting [OF inv exit(2)] broken_exit
    by (intro broken_keep [OF inv, of p "[]" no_fds]) (auto simp: no_fds_def)
next
  case (put_pipe p l cs)
  then show ?thesis using broken_acting [OF inv put_pipe(2)] broken_put
    by (intro broken_keep [OF inv, of p cs "fdt s p"]) auto
next
  case (put_broken p l cs)
  then show ?thesis using broken_acting [OF inv put_broken(2)] broken_put
    by (intro broken_keep [OF inv, of p "[]" no_fds]) (auto simp: no_fds_def)
next
  case (put_tty p l cs)
  then show ?thesis using broken_acting [OF inv put_tty(2)] broken_put by fastforce
qed (use broken_acting [OF inv] broken_filter in blast)+

section \<open>The end of every run\<close>

lemma broken_stuck:
  assumes inv: "broken_inv ls s" and st: "\<forall>t. \<not> pstep ls sel cap (\<lambda>c. c \<noteq> ExecGrep) s t"
  shows "code s p = []"
proof -
  have no: "x \<noteq> Fork c" "x \<noteq> Dup2 a b" "x \<noteq> Close a" "x \<noteq> ExecPs" "x \<noteq> ExecGrep" "x \<noteq> Exit" if "code s p = x # cs" for p x cs c a b
    using st pstep_moves [OF that] by blast+
  have kids: "unwaited q s \<noteq> {} \<and> (\<forall>c \<in> unwaited q s. code s c \<noteq> [])" if "code s q = Wait # cs" for q cs
    using st that pstep.wait_child pstep.wait_none by metis
  have end_fds: "fdt s q = no_fds" if "code s q = []" for q
    using inv that broken_ended unfolding broken_inv_def by (metis not_le)
  have two: "code s q = []" if q: "2 \<le> q" for q
  proof (cases "code s q")
    case (Cons x cs)
    then have "mute_at (x # cs) (fdt s q)" using broken_acting [OF inv Cons] q by (auto simp: broken_at_def)
    then have "x = Wait" using no [OF Cons] by (auto simp: mute_moves)
    moreover have "unwaited q s = {}" using inv q by (auto simp: broken_inv_def unwaited_def)
    ultimately show ?thesis using kids Cons by blast
  qed simp
  have waiting: "fdt s 0 = fds_closed \<or> fdt s 0 = no_fds"
  proof (cases "code s 0")
    case (Cons x cs)
    then show ?thesis using broken_acting [OF inv Cons] no [OF Cons] by (auto simp: broken_at_def parent_moves)
  qed (use end_fds in blast)
  have one: "code s 1 = []"
  proof (cases "code s 1")
    case (Cons x cs)
    have b: "broken_at ls 1 (x # cs) (fdt s 1) (next_pid s)" using broken_acting [OF inv Cons] by blast
    then obtain l where l: "x = Put l" using no [OF Cons] by (auto simp: broken_at_def ps_any_moves)
    then have f: "fdt s 1 = fds_closed(1 \<mapsto> WriteEnd)" using broken_put b by blast
    have "\<not> open_end ReadEnd s"
    proof
      assume "open_end ReadEnd s"
      then obtain q k where qk: "fdt s q k = Some ReadEnd" unfolding open_end_def by blast
      consider "q = 0" | "q = 1" | "2 \<le> q" by linarith
      then show False
        using qk waiting f end_fds [OF two, of q] by cases (auto simp: fds_closed_def base_fds_def no_fds_def split: if_splits)
    qed
    then have "pstep ls sel cap (\<lambda>c. c \<noteq> ExecGrep) s (die 1 s)" using pstep.put_broken Cons l f by force
    then show ?thesis using st by blast
  qed simp
  have "code s 0 = []"
  proof (cases "code s 0")
    case (Cons x cs)
    then have "x = Wait" using broken_acting [OF inv Cons] no [OF Cons] by (auto simp: broken_at_def parent_moves)
    then obtain c where c: "c \<in> unwaited 0 s" "code s c \<noteq> []" using kids Cons by blast
    then have "1 \<le> c" using inv by (auto simp: broken_inv_def unwaited_def)
    then show ?thesis using c one two by (metis One_nat_def Suc_1 le_neq_implies_less less_eq_Suc_le)
  qed simp
  then show ?thesis using one two by (metis One_nat_def less_2_cases not_le)
qed

lemma broken_reach: "pipe2_reach ls sel cap (\<lambda>c. c \<noteq> ExecGrep) s \<Longrightarrow> broken_inv ls s \<and> pids_ok s"
proof (induction rule: rtranclp_induct)
  case base
  then show ?case by (simp add: broken_inv_def broken_at_def pids_ok_def pipe2_start_def parent_ok_def no_fds_def)
next
  case (step s t)
  then show ?case using broken_step pstep_effort(2) by blast
qed

lemma pipe2_without_grep:
  assumes "pipe2_reach ls sel cap (\<lambda>c. c \<noteq> ExecGrep) s"
  shows "screen s = [] \<and>
    (\<forall>t. pstep ls sel cap (\<lambda>c. c \<noteq> ExecGrep) s t \<longrightarrow> total_effort (length ls) t < total_effort (length ls) s) \<and>
    (\<exists>t. (pstep ls sel cap (\<lambda>c. c \<noteq> ExecGrep))\<^sup>*\<^sup>* s t \<and> (\<forall>p. code t p = [])) \<and>
    ((\<forall>t. \<not> pstep ls sel cap (\<lambda>c. c \<noteq> ExecGrep) s t) \<longrightarrow> (\<forall>p. code s p = []))"
proof -
  have inv: "broken_inv ls s" "pids_ok s" using broken_reach [OF assms] by auto
  obtain t where t: "(pstep ls sel cap (\<lambda>c. c \<noteq> ExecGrep))\<^sup>*\<^sup>* s t" "\<forall>u. \<not> pstep ls sel cap (\<lambda>c. c \<noteq> ExecGrep) t u"
    using pstep_stops [OF inv(2)] by blast
  then have "broken_inv ls t" using broken_reach assms by (meson rtranclp_trans)
  then have "\<forall>p. code t p = []" using broken_stuck t(2) by blast
  moreover have "screen s = []" using inv(1) by (simp add: broken_inv_def)
  ultimately show ?thesis
    using t(1) pstep_effort(1) [OF _ inv(2)] broken_stuck [OF inv(1)] by blast
qed

text \<open>
  C13: a program that cannot be executed. The source has no \<open>exit\<close> behind \<open>execl\<close>. Without \<open>ps\<close> the
  pipeline hangs under every schedule: no schedule runs for ever, so every one comes to a state in
  which nobody can move, and there the parent waits for the first child, the first child for the
  \<open>grep\<close> it forked in the parent's place, and that one for the terminal. Without \<open>grep\<close> it ends
  under every schedule, and the terminal has stayed empty, without a word of the failure.
\<close>

theorem pipe2_exec_fails:
  "(pipe2_reach ls sel cap (\<lambda>c. c \<noteq> ExecPs) s \<longrightarrow> code s 0 \<noteq> [] \<and>
     (\<exists>t. (pstep ls sel cap (\<lambda>c. c \<noteq> ExecPs))\<^sup>*\<^sup>* s t \<and> (\<forall>u. \<not> pstep ls sel cap (\<lambda>c. c \<noteq> ExecPs) t u)) \<and>
     (\<forall>t. pstep ls sel cap (\<lambda>c. c \<noteq> ExecPs) s t \<longrightarrow> total_effort (length ls) t < total_effort (length ls) s) \<and>
     ((\<forall>t. \<not> pstep ls sel cap (\<lambda>c. c \<noteq> ExecPs) s t) \<longrightarrow> hd (code s 0) = Wait \<and> hd (code s 1) = Wait \<and>
       (\<exists>k. parent_of s k = Some 1 \<and> hd (code s k) = Filter \<and> fdt s k 0 = Some Tty))) \<and>
   (pipe2_reach ls sel cap (\<lambda>c. c \<noteq> ExecGrep) s \<longrightarrow> screen s = [] \<and>
     (\<forall>t. pstep ls sel cap (\<lambda>c. c \<noteq> ExecGrep) s t \<longrightarrow> total_effort (length ls) t < total_effort (length ls) s) \<and>
     ((\<forall>t. \<not> pstep ls sel cap (\<lambda>c. c \<noteq> ExecGrep) s t) \<longrightarrow> (\<forall>p. code s p = [])) \<and>
     (\<exists>t. (pstep ls sel cap (\<lambda>c. c \<noteq> ExecGrep))\<^sup>*\<^sup>* s t \<and> (\<forall>p. code t p = [])))"
  using pipe2_hangs [of ls sel cap s] pipe2_without_grep [of ls sel cap s] by blast

theorem pipe2_exec_fails_witness:
  "(\<exists>t. pipe2_reach [''ps'', ''bash''] (\<lambda>l. l = ''bash'') 1 (\<lambda>c. c \<noteq> ExecPs) t \<and>
     (\<forall>u. \<not> pstep [''ps'', ''bash''] (\<lambda>l. l = ''bash'') 1 (\<lambda>c. c \<noteq> ExecPs) t u) \<and> code t 0 \<noteq> []) \<and>
   (\<exists>t. pipe2_reach [''ps'', ''bash''] (\<lambda>l. l = ''bash'') 1 (\<lambda>c. c \<noteq> ExecGrep) t \<and> (\<forall>p. code t p = []) \<and> screen t = [])"
proof
  note P = pipe2_exec_fails [of "[''ps'', ''bash'']" "\<lambda>l. l = ''bash''" 1]
  show "\<exists>t. pipe2_reach [''ps'', ''bash''] (\<lambda>l. l = ''bash'') 1 (\<lambda>c. c \<noteq> ExecPs) t \<and>
     (\<forall>u. \<not> pstep [''ps'', ''bash''] (\<lambda>l. l = ''bash'') 1 (\<lambda>c. c \<noteq> ExecPs) t u) \<and> code t 0 \<noteq> []"
    using P by (meson rtranclp.rtrancl_refl)
  show "\<exists>t. pipe2_reach [''ps'', ''bash''] (\<lambda>l. l = ''bash'') 1 (\<lambda>c. c \<noteq> ExecGrep) t \<and> (\<forall>p. code t p = []) \<and> screen t = []"
    using P by (meson rtranclp.rtrancl_refl)
qed

end
