(* ===== verification/Inversion.thy ===== *)
theory Inversion
  imports PaymentDemo
begin

text \<open>
  What the payment demonstration demonstrates. \<open>C/run_poll_fifo.sh\<close> starts the logger without
  real-time priority, the payment process at 50 and the health checker at 90, all on one
  processor. While the logger holds the lock and the health checker waits for it, payment's
  work decides how long: with the semaphore all of it comes first (priority inversion), with
  the priority-inheriting mutex of \<open>C/pi_sem.h\<close> none of it does.
\<close>

section \<open>Scheduling by priority\<close>

text \<open>The priorities of the script: process 0 is the logger, 1 the health checker, 2 payment.\<close>

definition fifo_prio :: "nat \<Rightarrow> nat" where
  "fifo_prio p = (if p = 1 then 90 else if p = 2 then 50 else 0)"

text \<open>Which process a lock boosts: a semaphore has no owner, a mutex has, under its protocol.\<close>

definition sem_boosts :: "nat \<Rightarrow> nat option" where
  "sem_boosts v = None"

definition mutex_boosts :: "pi_sem_t \<Rightarrow> nat option" where
  "mutex_boosts m = (if proto m = PRIO_INHERIT then owner m else None)"

definition blocked :: "(nat \<Rightarrow> 'l \<Rightarrow> 'l option) \<Rightarrow> 'l sys \<Rightarrow> nat \<Rightarrow> bool" where
  "blocked acq s p \<longleftrightarrow> (case todo s p of SemWait # as \<Rightarrow> acq p (lock_of s) = None | _ \<Rightarrow> False)"

definition runnable :: "(nat \<Rightarrow> 'l \<Rightarrow> 'l option) \<Rightarrow> 'l sys \<Rightarrow> nat \<Rightarrow> bool" where
  "runnable acq s p \<longleftrightarrow> todo s p \<noteq> [] \<and> \<not> blocked acq s p"

text \<open>The boosted process runs at the highest priority among itself and the waiting ones.\<close>

definition eff_prio :: "(nat \<Rightarrow> 'l \<Rightarrow> 'l option) \<Rightarrow> ('l \<Rightarrow> nat option) \<Rightarrow> 'l sys \<Rightarrow> nat \<Rightarrow> nat" where
  "eff_prio acq boosts s p =
     (if boosts (lock_of s) = Some p
      then foldr max (map fifo_prio (filter (blocked acq s) [0, 1, 2])) (fifo_prio p)
      else fifo_prio p)"

text \<open>
  A step of the system under the scheduler's documented rule: the process that moves is a
  runnable one of the highest effective priority.
\<close>

inductive prio_step :: "(nat \<Rightarrow> 'l \<Rightarrow> 'l option) \<Rightarrow> (nat \<Rightarrow> 'l \<Rightarrow> 'l option) \<Rightarrow> ('l \<Rightarrow> nat option) \<Rightarrow> 'l sys \<Rightarrow> 'l sys \<Rightarrow> bool"
  for acq rel boosts where
  run: "sys_step acq rel s t \<Longrightarrow> todo t p \<noteq> todo s p \<Longrightarrow>
    (\<forall>q. runnable acq s q \<longrightarrow> eff_prio acq boosts s q \<le> eff_prio acq boosts s p) \<Longrightarrow> prio_step acq rel boosts s t"

abbreviation prio_reach where "prio_reach acq rel boosts \<equiv> (prio_step acq rel boosts)\<^sup>*\<^sup>*"

lemma sys_step_moves:
  assumes "sys_step acq rel s t" "todo t p \<noteq> todo s p"
  shows "\<exists>a as. todo s p = a # as \<and> todo t = (todo s)(p := as) \<and> runnable acq s p \<and>
    (a = SemWait \<longrightarrow> acq p (lock_of s) = Some (lock_of t)) \<and> (a = SemPost \<longrightarrow> rel p (lock_of s) = Some (lock_of t)) \<and>
    (a \<noteq> SemWait \<and> a \<noteq> SemPost \<longrightarrow> lock_of t = lock_of s)"
  using assms by cases (auto simp: runnable_def blocked_def split: if_splits)

lemma sys_step_runnable:
  assumes "sys_step acq rel s t"
  shows "\<exists>p. runnable acq s p"
proof -
  obtain p where "todo t p \<noteq> todo s p"
    using assms by (elim sys_stepE) (metis fun_upd_same not_Cons_self2 todo_advance(1) select_convs(3))+
  then show ?thesis using sys_step_moves [OF assms] by blast
qed

lemma prio_step_moves:
  assumes "prio_step acq rel boosts s t"
  shows "\<exists>p a as. todo s p = a # as \<and> todo t = (todo s)(p := as) \<and> runnable acq s p \<and>
    (a = SemWait \<longrightarrow> acq p (lock_of s) = Some (lock_of t)) \<and> (a = SemPost \<longrightarrow> rel p (lock_of s) = Some (lock_of t)) \<and>
    (a \<noteq> SemWait \<and> a \<noteq> SemPost \<longrightarrow> lock_of t = lock_of s) \<and>
    (\<forall>q. runnable acq s q \<longrightarrow> eff_prio acq boosts s q \<le> eff_prio acq boosts s p)"
  using assms
proof cases
  case (run p)
  then show ?thesis using sys_step_moves [OF run(1,2)] by blast
qed

section \<open>Nobody is stuck under it\<close>

lemma highest_runnable:
  assumes "runnable acq s q" "\<forall>p \<ge> n. todo s p = []"
  obtains p where "runnable acq s p" "\<forall>q. runnable acq s q \<longrightarrow> eff_prio acq boosts s q \<le> eff_prio acq boosts s p"
proof -
  let ?R = "{p. runnable acq s p}"
  have "?R \<subseteq> {..<n}" using assms(2) by (auto simp: runnable_def not_le [symmetric])
  then have fin: "finite ?R" by (rule finite_subset) simp
  then have "Max (eff_prio acq boosts s ` ?R) \<in> eff_prio acq boosts s ` ?R" using assms(1) by (intro Max_in) auto
  then obtain p where p: "runnable acq s p" "eff_prio acq boosts s p = Max (eff_prio acq boosts s ` ?R)" by auto
  show thesis using fin by (intro that [OF p(1)]) (simp add: p(2))
qed

context lock
begin

lemma runnable_steps:
  assumes inv: "run_inv s0 s h bs es" and q: "runnable acq s q"
  shows "\<exists>t. sys_step acq rel s t \<and> todo t q \<noteq> todo s q"
proof -
  obtain a as where t: "todo s q = a # as" using q by (cases "todo s q") (auto simp: runnable_def)
  show ?thesis
  proof (cases a)
    case SemWait
    then obtain l where "acq q (lock_of s) = Some l" using q t by (auto simp: runnable_def blocked_def)
    from sys_step.wait [of s q as acq l rel] this show ?thesis using t SemWait by force
  next
    case SemPost
    then have "h = Some q" using run_inv_inside [OF inv, of q] t by simp
    then obtain l where "rel q (lock_of s) = Some l" using inv rel_held [of "lock_of s" q] by (auto simp: run_inv_def)
    from sys_step.post [of s q as rel l acq] this show ?thesis using t SemPost by force
  next
    case (Append e)
    from sys_step.append [of s q e as acq rel] show ?thesis using t Append by force
  next
    case (Print e)
    from sys_step.print [of s q e as acq rel] show ?thesis using t Print by force
  qed
qed

lemma prio_progress:
  assumes inv: "run_inv s0 s h bs es" and p: "todo s p \<noteq> []" and n: "\<forall>p \<ge> n. todo s p = []"
  shows "\<exists>t. prio_step acq rel boosts s t"
proof -
  obtain t where "sys_step acq rel s t" using progress [OF inv p] by blast
  then obtain q where "runnable acq s q" using sys_step_runnable by blast
  then obtain q where q: "runnable acq s q" "\<forall>r. runnable acq s r \<longrightarrow> eff_prio acq boosts s r \<le> eff_prio acq boosts s q"
    using highest_runnable [OF _ n] by metis
  from runnable_steps [OF inv q(1)] q(2) show ?thesis by (blast intro: prio_step.run)
qed

lemma prio_step_inv:
  assumes "prio_step acq rel boosts s t" "run_inv s0 s h bs es" "\<forall>p \<ge> n. todo s p = []"
  shows "(\<exists>h bs es. run_inv s0 t h bs es) \<and> (\<forall>p \<ge> n. todo t p = []) \<and> (\<Sum>p<n. length (todo t p)) < (\<Sum>p<n. length (todo s p))"
proof -
  have "sys_step acq rel s t" using assms(1) by cases
  then show ?thesis using run_inv_step [OF assms(2)] step_consumes [OF _ assms(3)] by blast
qed

lemma prio_completes:
  assumes "prio_reach acq rel boosts s1 s" "run_inv s0 s1 h bs es" "\<forall>p \<ge> n. todo s1 p = []"
  shows "\<exists>t. prio_reach acq rel boosts s t \<and> (\<forall>p. todo t p = [])"
proof -
  have "(\<exists>h bs es. run_inv s0 s h bs es) \<and> (\<forall>p \<ge> n. todo s p = [])"
    using assms(1)
  proof induction
    case base
    show ?case using assms(2,3) by blast
  next
    case (step s t)
    then show ?case using prio_step_inv by blast
  qed
  then show ?thesis
  proof (induction "\<Sum>p<n. length (todo s p)" arbitrary: s rule: less_induct)
    case less
    then obtain h bs es where inv: "run_inv s0 s h bs es" and n: "\<forall>p \<ge> n. todo s p = []" by blast
    show ?case
    proof (cases "\<forall>p. todo s p = []")
      case False
      then obtain t where st: "prio_step acq rel boosts s t" using prio_progress [OF inv _ n] by blast
      from less.hyps [of t] prio_step_inv [OF st inv n]
      show ?thesis using st by (meson converse_rtranclp_into_rtranclp)
    qed auto
  qed
qed

end

section \<open>The three processes\<close>

text \<open>What \<open>payment.c\<close> prints, as actions; each \<open>Tick\<close> is followed by 100 ms of work.\<close>

fun pay_text :: "pay_line \<Rightarrow> string" where
  "pay_text (Processing msg) = ''[PAYMENT] Processing: '' @ msg @ [NL]"
| "pay_text (Tick i t) = ''[Payment '' @ dec_nat i @ ''] time '' @ clock_text t @ ''s'' @ [NL]"
| "pay_text Done = ''[PAYMENT] '' @ map char_of [0xE5 :: nat, 0x87, 0xA6, 0xE7, 0x90, 0x86, 0xE5, 0xAE, 0x8C, 0xE4, 0xBA, 0x86] @ [NL]"

definition pay_acts :: "pay_line list \<Rightarrow> act list" where
  "pay_acts os = map (\<lambda>l. Print (pay_text l)) os"

definition trio :: "'l \<Rightarrow> act list \<Rightarrow> act list \<Rightarrow> act list \<Rightarrow> 'l sys" where
  "trio l as0 as1 as2 = \<lparr>lock_of = l, shared_log = [],
     todo = (\<lambda>p. if p = 0 then as0 else if p = 1 then as1 else if p = 2 then as2 else [])\<rparr>"

lemma trio_simps [simp]: "lock_of (trio l as0 as1 as2) = l" "shared_log (trio l as0 as1 as2) = []"
    "todo (trio l as0 as1 as2) p = (if p = 0 then as0 else if p = 1 then as1 else if p = 2 then as2 else [])"
  by (simp_all add: trio_def)

lemma pay_acts_prints: "as2 = drop k (pay_acts os) \<Longrightarrow> as2 \<noteq> [] \<Longrightarrow> \<exists>e. as2 = Print e # drop (Suc k) (pay_acts os)"
  by (cases "k < length os") (auto simp: pay_acts_def Cons_nth_drop_Suc [symmetric])

text \<open>With the semaphore: until payment has finished, neither of the others moves.\<close>

lemma semaphore_inverts:
  assumes "prio_reach pi_sem_wait pi_sem_post sem_boosts (trio 0 as0 (SemWait # as1) (pay_acts os)) s"
  shows "todo s 2 = [] \<or> lock_of s = 0 \<and> todo s 0 = as0 \<and> todo s 1 = SemWait # as1 \<and>
    (\<exists>k. todo s 2 = drop k (pay_acts os)) \<and> (\<forall>p \<ge> 3. todo s p = [])"
  using assms
proof induction
  case base
  show ?case by (auto intro: exI [of _ 0])
next
  case (step s t)
  obtain p a as where p: "todo s p = a # as" "todo t = (todo s)(p := as)" "runnable pi_sem_wait s p"
    "a = SemWait \<longrightarrow> pi_sem_wait p (lock_of s) = Some (lock_of t)"
    "a = SemPost \<longrightarrow> pi_sem_post p (lock_of s) = Some (lock_of t)"
    "a \<noteq> SemWait \<and> a \<noteq> SemPost \<longrightarrow> lock_of t = lock_of s"
    "\<forall>q. runnable pi_sem_wait s q \<longrightarrow> eff_prio pi_sem_wait sem_boosts s q \<le> eff_prio pi_sem_wait sem_boosts s p"
    using prio_step_moves [OF step.hyps(2)] by blast
  show ?case
  proof (cases "todo s 2 = []")
    case True
    then show ?thesis using p(1,2) by auto
  next
    case False
    then obtain k where k: "todo s 2 = drop k (pay_acts os)" and s: "lock_of s = 0" "todo s 0 = as0"
      "todo s 1 = SemWait # as1" "\<forall>p \<ge> 3. todo s p = []" using step.IH by blast
    obtain e where e: "todo s 2 = Print e # drop (Suc k) (pay_acts os)" using pay_acts_prints [OF k False] by blast
    then have "runnable pi_sem_wait s 2" by (simp add: runnable_def blocked_def)
    then have "50 \<le> fifo_prio p" using p(7) [rule_format, of 2] by (simp add: eff_prio_def sem_boosts_def fifo_prio_def)
    moreover have "p \<noteq> 1" using p(3) s by (auto simp: runnable_def blocked_def pi_sem_wait_def)
    ultimately have "p = 2" by (simp add: fifo_prio_def split: if_splits)
    then show ?thesis using p(1,2,6) s e by auto
  qed
qed

text \<open>With the mutex: until the health checker has finished, payment does not move.\<close>

definition no_inversion :: "act list \<Rightarrow> act list \<Rightarrow> pi_sem_t sys \<Rightarrow> bool" where
  "no_inversion as1 as2 s \<longleftrightarrow> todo s 2 = as2 \<and> (\<forall>p \<ge> 3. todo s p = []) \<and> proto (lock_of s) = PRIO_INHERIT \<and>
     (owner (lock_of s) = Some 0 \<and> bracketed True (todo s 0) \<and> todo s 1 = SemWait # as1 \<and> bracketed True as1 \<or>
      owner (lock_of s) \<in> {None, Some 1} \<and> bracketed (owner (lock_of s) = Some 1) (todo s 1))"

lemma mutex_mover:
  assumes inv: "no_inversion as1 as2 s" and busy: "todo s 1 \<noteq> []" and p: "runnable pi_mutex_wait s p"
    "\<forall>q. runnable pi_mutex_wait s q \<longrightarrow> eff_prio pi_mutex_wait mutex_boosts s q \<le> eff_prio pi_mutex_wait mutex_boosts s p"
  shows "p = (if owner (lock_of s) = Some 0 then 0 else 1)"
proof (cases "owner (lock_of s) = Some 0")
  case True
  then have s: "bracketed True (todo s 0)" "todo s 1 = SemWait # as1" using inv by (auto simp: no_inversion_def)
  have r0: "runnable pi_mutex_wait s 0" using s(1) by (cases "todo s 0" rule: list.exhaust; cases "hd (todo s 0)")
      (auto simp: runnable_def blocked_def split: list.splits act.splits)
  have b1: "blocked pi_mutex_wait s 1" using s True by (simp add: blocked_def pi_mutex_wait_def)
  then have "90 \<le> eff_prio pi_mutex_wait mutex_boosts s 0" using inv True
    by (simp add: eff_prio_def mutex_boosts_def no_inversion_def fifo_prio_def)
  then have "90 \<le> eff_prio pi_mutex_wait mutex_boosts s p" using p(2) [rule_format, OF r0] by simp
  moreover have "p \<noteq> 1" using p(1) b1 by (auto simp: runnable_def)
  ultimately show ?thesis using True by (simp add: eff_prio_def fifo_prio_def mutex_boosts_def split: if_splits)
next
  case False
  then have s: "owner (lock_of s) \<in> {None, Some 1}" "bracketed (owner (lock_of s) = Some 1) (todo s 1)"
    using inv by (auto simp: no_inversion_def)
  obtain a as where t: "todo s 1 = a # as" using busy by (cases "todo s 1") auto
  then have r1: "runnable pi_mutex_wait s 1" using s
    by (cases a) (auto simp: runnable_def blocked_def pi_mutex_wait_def)
  have up: "fifo_prio 1 \<le> eff_prio pi_mutex_wait mutex_boosts s 1"
    by (auto simp: eff_prio_def le_max_iff_disj)
  then have "90 \<le> eff_prio pi_mutex_wait mutex_boosts s p" using p(2) [rule_format, OF r1] by (simp add: fifo_prio_def)
  moreover have "eff_prio pi_mutex_wait mutex_boosts s p = fifo_prio p" if "p \<noteq> 1"
    using that s(1) by (auto simp: eff_prio_def mutex_boosts_def)
  ultimately have "p = 1" by (cases "p = 1") (simp_all add: fifo_prio_def split: if_splits)
  then show ?thesis using False by simp
qed

lemma mutex_prevents:
  assumes "prio_reach pi_mutex_wait pi_mutex_post mutex_boosts
      (trio \<lparr>owner = Some 0, proto = PRIO_INHERIT, pshared = sh\<rparr> as0 (SemWait # as1) as2) s"
    and "bracketed True as0" "bracketed True as1"
  shows "todo s 1 = [] \<or> no_inversion as1 as2 s"
  using assms(1)
proof induction
  case base
  show ?case using assms(2,3) by (simp add: no_inversion_def)
next
  case (step s t)
  obtain p a as where p: "todo s p = a # as" "todo t = (todo s)(p := as)" "runnable pi_mutex_wait s p"
    "a = SemWait \<longrightarrow> pi_mutex_wait p (lock_of s) = Some (lock_of t)"
    "a = SemPost \<longrightarrow> pi_mutex_post p (lock_of s) = Some (lock_of t)"
    "a \<noteq> SemWait \<and> a \<noteq> SemPost \<longrightarrow> lock_of t = lock_of s"
    "\<forall>q. runnable pi_mutex_wait s q \<longrightarrow> eff_prio pi_mutex_wait mutex_boosts s q \<le> eff_prio pi_mutex_wait mutex_boosts s p"
    using prio_step_moves [OF step.hyps(2)] by blast
  show ?case
  proof (cases "todo s 1 = []")
    case True
    then show ?thesis using p(1,2) by auto
  next
    case False
    then have inv: "no_inversion as1 as2 s" using step.IH by blast
    have who: "p = (if owner (lock_of s) = Some 0 then 0 else 1)" using mutex_mover [OF inv False p(3,7)] .
    have lock: "lock_of t = (case a of SemWait \<Rightarrow> (lock_of s)\<lparr>owner := Some p\<rparr>
        | SemPost \<Rightarrow> if owner (lock_of s) = Some p then (lock_of s)\<lparr>owner := None\<rparr> else lock_of s
        | _ \<Rightarrow> lock_of s)" "a = SemWait \<longrightarrow> owner (lock_of s) = None"
      using p(4-6) by (cases a; simp add: pi_mutex_wait_def pi_mutex_post_def split: if_splits)+
    have "no_inversion as1 as2 t"
      using inv p(1) who lock(2) unfolding no_inversion_def p(2) lock(1)
      by (cases a) (auto split: if_splits)
    then show ?thesis by blast
  qed
qed

context lock
begin

text \<open>The state the three start from satisfies the invariant of \<open>LockSystem\<close>.\<close>

lemma trio_completes:
  assumes "repr l (Some 0)" "bracketed True as0" "bracketed False as1"
    and "prio_reach acq rel boosts (trio l as0 as1 (pay_acts os)) s"
  shows "\<exists>t. prio_reach acq rel boosts s t \<and> (\<forall>p. todo t p = [])"
proof (rule prio_completes [OF assms(4)])
  have "bracketed False (pay_acts os)" "sections None (pay_acts os) = []"
    by (induction os) (simp_all add: pay_acts_def)
  with assms show "run_inv (trio l (SemWait # as0) as1 (pay_acts os)) (trio l as0 as1 (pay_acts os)) (Some 0) [] []"
    by (auto simp: run_inv_def)
  show "\<forall>p \<ge> 3. todo (trio l as0 as1 (pay_acts os)) p = []" by simp
qed

end



end
