(* ===== verification/Timers.thy ===== *)
theory Timers
  imports Clock
begin

text \<open>
  The programs that wait for a timer or a signal: the periodic timers of
  \<open>C/posix_timer.c\<close>, \<open>posix_timer2.c\<close>, \<open>timer_thread.c\<close>, \<open>itimer.c\<close> and \<open>itimer_signal.c\<close>; two
  threads that sleep until an absolute time (\<open>C/timer_test.c\<close>) while \<open>C/set_time.c\<close> sets the
  clock back; a signal a process sends to itself (\<open>C/signal.c\<close>); and the years since the epoch
  (\<open>C/sysfs.c\<close>). Instants are nanoseconds of the monotonic clock.
\<close>

section \<open>Periodic timers\<close>

datatype tclock = REALTIME | MONOTONIC
datatype tnotify = Signal int | Thread

text \<open>Seconds with nanoseconds for \<open>timer_settime\<close>, with microseconds for \<open>setitimer\<close>; first the
  value, then the interval.\<close>

datatype tcall =
    Sigaction int | Timer_create tclock tnotify
  | Timer_settime int int int int | Setitimer int int int int

definition SIGALRM :: int where "SIGALRM = 14"
definition SIGRTMIN :: int where "SIGRTMIN = 34"

definition posix_timer_main :: "tcall list" where
  "posix_timer_main = [Sigaction SIGRTMIN, Timer_create MONOTONIC (Signal SIGRTMIN), Timer_settime 1 0 0 500000000]"

definition posix_timer2_main :: "tcall list" where
  "posix_timer2_main = [Sigaction SIGRTMIN, Timer_create REALTIME (Signal SIGRTMIN), Timer_settime 1 0 0 500000000]"

definition timer_thread_main :: "tcall list" where
  "timer_thread_main = [Timer_create MONOTONIC Thread, Timer_settime 1 0 0 500000000]"

definition itimer_main :: "tcall list" where
  "itimer_main = [Sigaction SIGALRM, Setitimer 1 0 0 500000]"

definition itimer_signal_main :: "tcall list" where
  "itimer_signal_main = [Sigaction SIGALRM, Setitimer 1 0 1 0]"

text \<open>
  The process as its calls leave it: the signals with a handler, how the created timer
  notifies, and the armed timer with its value and interval in nanoseconds.
\<close>

record tproc =
  handlers :: "int set"
  created :: "tnotify option"
  armed :: "(tnotify \<times> int \<times> int) option"

fun tcall_step :: "tcall \<Rightarrow> tproc \<Rightarrow> tproc" where
  "tcall_step (Sigaction sig) p = p\<lparr>handlers := insert sig (handlers p)\<rparr>"
| "tcall_step (Timer_create clk n) p = p\<lparr>created := Some n\<rparr>"
| "tcall_step (Timer_settime vs vn is inn) p =
     (case created p of None \<Rightarrow> p
      | Some n \<Rightarrow> p\<lparr>armed := Some (n, ns_of \<lparr>tv_sec = vs, tv_nsec = vn\<rparr>, ns_of \<lparr>tv_sec = is, tv_nsec = inn\<rparr>)\<rparr>)"
| "tcall_step (Setitimer vs vu is iu) p =
     p\<lparr>armed := Some (Signal SIGALRM, ns_of \<lparr>tv_sec = vs, tv_nsec = 1000 * vu\<rparr>, ns_of \<lparr>tv_sec = is, tv_nsec = 1000 * iu\<rparr>)\<rparr>"

definition after_calls :: "tcall list \<Rightarrow> tproc" where
  "after_calls cs = fold tcall_step cs \<lparr>handlers = {}, created = None, armed = None\<rparr>"

text \<open>
  The number of expiries up to an instant, and the instants at which the handler runs when
  the process gets the processor at the instants \<open>ss\<close>: however many expiries have passed
  since, there is one notification pending at most. A signal without a handler ends the
  process instead.
\<close>

definition expired :: "int \<Rightarrow> int \<Rightarrow> int \<Rightarrow> nat" where
  "expired v i s = (if s < v then 0 else Suc (nat ((s - v) div i)))"

fun deliveries :: "int \<Rightarrow> int \<Rightarrow> nat \<Rightarrow> int list \<Rightarrow> int list" where
  "deliveries v i n [] = []"
| "deliveries v i n (s # ss) =
     (if n < expired v i s then s # deliveries v i (expired v i s) ss else deliveries v i n ss)"

definition timer_run :: "tcall list \<Rightarrow> int list \<Rightarrow> int list option" where
  "timer_run cs ss =
     (case armed (after_calls cs) of
        None \<Rightarrow> Some []
      | Some (n, v, i) \<Rightarrow>
          if (case n of Signal sig \<Rightarrow> sig \<in> handlers (after_calls cs) | Thread \<Rightarrow> True)
          then Some (deliveries v i 0 ss) else None)"

text \<open>The handler of \<open>itimer_signal.c\<close> counts in a static \<open>int\<close>.\<close>

fun expired_lines :: "int \<Rightarrow> int list \<Rightarrow> string list" where
  "expired_lines count [] = []"
| "expired_lines count (s # ss) =
     (let count = s32 (count + 1) in (''Timer expired: '' @ dec_int count @ [NL]) # expired_lines count ss)"

lemma expired_mono: "0 < i \<Longrightarrow> s \<le> t \<Longrightarrow> expired v i s \<le> expired v i t"
  by (auto simp: expired_def intro!: nat_mono zdiv_mono1)

lemma expired_iff:
  assumes "0 < i"
  shows "k < expired v i s \<longleftrightarrow> v + int k * i \<le> s"
proof (cases "s < v")
  case True
  have "0 \<le> int k * i" using assms by simp
  then show ?thesis using True by (simp add: expired_def)
next
  case False
  have "k < Suc (nat ((s - v) div i)) \<longleftrightarrow> int k \<le> (s - v) div i"
    using False assms by (simp add: less_Suc_eq_le nat_le_iff le_nat_iff pos_imp_zdiv_nonneg_iff)
  also have "\<dots> \<longleftrightarrow> int k * i \<le> s - v"
  proof
    assume "int k \<le> (s - v) div i"
    then have "int k * i \<le> (s - v) div i * i" using assms by (intro mult_right_mono) simp_all
    also have "\<dots> \<le> s - v"
    proof -
      have "(s - v) div i * i + (s - v) mod i = s - v" "0 \<le> (s - v) mod i" using assms by simp_all
      then show ?thesis by linarith
    qed
    finally show "int k * i \<le> s - v" .
  next
    assume "int k * i \<le> s - v"
    then have "int k * i div i \<le> (s - v) div i" using assms by (intro zdiv_mono1)
    then show "int k \<le> (s - v) div i" using assms by simp
  qed
  finally show ?thesis using False by (auto simp: expired_def)
qed

lemma deliveries_at:
  assumes "0 < i" "k < length (deliveries v i n ss)"
  shows "v + int (n + k) * i \<le> deliveries v i n ss ! k"
  using assms(2)
proof (induction ss arbitrary: n k)
  case (Cons s ss)
  show ?case
  proof (cases "n < expired v i s")
    case True
    show ?thesis
    proof (cases k)
      case 0
      then show ?thesis using True expired_iff [OF assms(1), of n v s] by simp
    next
      case (Suc l)
      then have "v + int (expired v i s + l) * i \<le> deliveries v i (expired v i s) ss ! l"
        using Cons True by simp
      moreover have "int (n + k) * i \<le> int (expired v i s + l) * i"
        using True Suc assms(1) by (intro mult_right_mono) auto
      ultimately show ?thesis using True Suc by simp
    qed
  next
    case False
    then show ?thesis using Cons by simp
  qed
qed simp

lemma deliveries_bound:
  "\<forall>s \<in> set ss. expired v i s \<le> m \<Longrightarrow> n \<le> m \<Longrightarrow> n + length (deliveries v i n ss) \<le> m"
proof (induction ss arbitrary: n)
  case (Cons s ss)
  show ?case
  proof (cases "n < expired v i s")
    case True
    then show ?thesis using Cons.IH [of "expired v i s"] Cons.prems by simp
  next
    case False
    then show ?thesis using Cons by simp
  qed
qed simp

text \<open>A process that gets the processor in every period loses no expiry.\<close>

lemma deliveries_prompt:
  assumes "0 < i" "sorted ss" "\<forall>s \<in> set ss. expired v i s \<le> m" "n \<le> m"
    "\<forall>k \<in> {n..<m}. \<exists>s \<in> set ss. expired v i s = Suc k"
  shows "n + length (deliveries v i n ss) = m"
  using assms(2-)
proof (induction ss arbitrary: n)
  case Nil
  then have "\<not> n < m" by auto
  then show ?case using Nil by simp
next
  case (Cons s ss)
  show ?case
  proof (cases "n < expired v i s")
    case True
    then have "n < m" using Cons.prems(2) by auto
    then obtain s' where s': "s' \<in> set (s # ss)" "expired v i s' = Suc n" using Cons.prems(4) by fastforce
    then have "s \<le> s'" using Cons.prems(1) by auto
    then have e: "expired v i s = Suc n" using expired_mono [OF assms(1), of s s' v] s'(2) True by simp
    have "Suc n + length (deliveries v i (Suc n) ss) = m"
    proof (rule Cons.IH)
      show "\<forall>k \<in> {Suc n..<m}. \<exists>s \<in> set ss. expired v i s = Suc k" using Cons.prems(4) e by fastforce
    qed (use Cons.prems \<open>n < m\<close> in auto)
    then show ?thesis using e by simp
  next
    case False
    have "n + length (deliveries v i n ss) = m"
    proof (rule Cons.IH)
      show "\<forall>k \<in> {n..<m}. \<exists>s \<in> set ss. expired v i s = Suc k" using Cons.prems(4) False by fastforce
    qed (use Cons.prems in auto)
    then show ?thesis using False by simp
  qed
qed

lemma expired_lines_nth:
  "k < length ts \<Longrightarrow> expired_lines c ts ! k = ''Timer expired: '' @ dec_int (s32 (c + 1 + int k)) @ [NL]"
proof (induction ts arbitrary: c k)
  case (Cons t ts)
  have "s32 (s32 (c + 1) + (1 + int l)) = s32 (c + 2 + int l)" for l
    unfolding s32_add_left by (simp add: algebra_simps)
  then show ?case using Cons by (cases k) (simp_all add: Let_def algebra_simps)
qed simp

lemma timer_runs:
  "p \<in> {posix_timer_main, posix_timer2_main, timer_thread_main, itimer_main} \<Longrightarrow>
     timer_run p ss = Some (deliveries 1000000000 500000000 0 ss)"
  "timer_run itimer_signal_main ss = Some (deliveries 1000000000 1000000000 0 ss)"
  by (auto simp: timer_run_def after_calls_def posix_timer_main_def posix_timer2_main_def timer_thread_main_def
      itimer_main_def itimer_signal_main_def ns_of_def)

text \<open>
  C36: the periodic timers. The programs on \<open>timer_settime\<close> (with a signal on either clock, or a
  thread) and on \<open>setitimer\<close> with microseconds are the same timer: one second, then every
  half second; \<open>itimer_signal\<close> fires every second and numbers its lines from 1. Whenever the
  process gets the processor, the \<open>k\<close>-th call of the handler is not before the \<open>k\<close>-th expiry
  and there are never more calls than expiries; none is lost if it gets the processor at
  least once in every period.
\<close>

theorem timers_fire:
  assumes "sorted ss" "\<forall>s \<in> set ss. s \<le> now"
  shows "(\<forall>p \<in> {posix_timer_main, posix_timer2_main, timer_thread_main, itimer_main}.
      timer_run p ss = Some (deliveries 1000000000 500000000 0 ss)) \<and>
    timer_run itimer_signal_main ss = Some (deliveries 1000000000 1000000000 0 ss) \<and>
    (\<forall>i \<in> {500000000, 1000000000}. let fired = deliveries 1000000000 i 0 ss; due = expired 1000000000 i now in
      (\<forall>k < length fired. 1000000000 + int k * i \<le> fired ! k) \<and> length fired \<le> due \<and>
      ((\<forall>k < due. \<exists>s \<in> set ss. expired 1000000000 i s = Suc k) \<longrightarrow> length fired = due)) \<and>
    (\<forall>k < length ss. expired_lines 0 ss ! k = ''Timer expired: '' @ dec_int (s32 (int k + 1)) @ [NL])"
proof (intro conjI ballI allI impI)
  fix i :: int
  assume i: "i \<in> {500000000, 1000000000}"
  then have pos: "0 < i" by auto
  define m where "m = expired 1000000000 i now"
  have m: "\<forall>s \<in> set ss. expired 1000000000 i s \<le> m" using assms(2) expired_mono [OF pos] by (simp add: m_def)
  show "let fired = deliveries 1000000000 i 0 ss; due = expired 1000000000 i now in
      (\<forall>k < length fired. 1000000000 + int k * i \<le> fired ! k) \<and> length fired \<le> due \<and>
      ((\<forall>k < due. \<exists>s \<in> set ss. expired 1000000000 i s = Suc k) \<longrightarrow> length fired = due)"
    using deliveries_at [OF pos, of _ 1000000000 0 ss] deliveries_bound [OF m, of 0]
      deliveries_prompt [OF pos assms(1) m, of 0]
    by (simp add: Let_def flip: m_def)
qed (use timer_runs expired_lines_nth [of _ ss 0] in \<open>simp_all add: add.commute\<close>)

theorem timers_fire_witness:
  "timer_run itimer_main [400000000, 1000000007, 1600000000, 2700000000] = Some [1000000007, 1600000000, 2700000000] \<and>
   length (deliveries 1000000000 500000000 0 [400000000, 1000000007, 1600000000, 2700000000]) \<le> 4"
proof -
  let ?ss = "[400000000, 1000000007, 1600000000, 2700000000] :: int list"
  have "sorted ?ss" "\<forall>s \<in> set ?ss. s \<le> 2700000000" by simp_all
  from timers_fire [OF this] have "timer_run itimer_main ?ss = Some (deliveries 1000000000 500000000 0 ?ss)"
    "length (deliveries 1000000000 500000000 0 ?ss) \<le> expired 1000000000 500000000 2700000000" by (auto simp: Let_def)
  then show ?thesis by (simp add: expired_def)
qed

section \<open>signal.c\<close>

datatype scall = Install int | Sigqueue int int | Pause

definition signal_main :: "scall list" where
  "signal_main = [Install SIGRTMIN, Sigqueue SIGRTMIN 123, Pause]"

definition signal_line :: "int \<Rightarrow> int \<Rightarrow> int \<Rightarrow> string" where
  "signal_line sig pid val = ''Received signal '' @ dec_int sig @ '' from PID '' @ dec_int pid @ '' with value '' @ dec_int val @ [NL]"

text \<open>
  The calls of the process \<open>pid\<close>, and the signals \<open>(sender, value)\<close> that others send it while it
  pauses. A signal it queues to itself is delivered before \<open>sigqueue\<close> returns. The result: what
  the handler printed, and whether \<open>main\<close> returned.
\<close>

fun signal_run :: "int \<Rightarrow> bool \<Rightarrow> (int \<times> int) list \<Rightarrow> scall list \<Rightarrow> string list \<times> bool" where
  "signal_run pid h out [] = ([], True)"
| "signal_run pid h out (Install sig # cs) = signal_run pid True out cs"
| "signal_run pid h out (Sigqueue sig val # cs) =
     (if h then (case signal_run pid h out cs of (os, r) \<Rightarrow> (signal_line sig pid val # os, r)) else ([], False))"
| "signal_run pid h out (Pause # cs) =
     (case out of
        [] \<Rightarrow> ([], False)
      | (sender, val) # out \<Rightarrow>
          (case signal_run pid h out cs of (os, r) \<Rightarrow> (signal_line SIGRTMIN sender val # os, r)))"

lemma signal_main_waits_for_another:
  "signal_run pid False out signal_main =
     (case out of [] \<Rightarrow> ([signal_line SIGRTMIN pid 123], False)
      | (sender, val) # _ \<Rightarrow> ([signal_line SIGRTMIN pid 123, signal_line SIGRTMIN sender val], True))"
  by (simp add: signal_main_def split: list.splits)

section \<open>A clock set back\<close>

text \<open>
  \<open>set_time.c\<close> reads the clock (to the microsecond) at \<open>s\<close> and sets it, five seconds less, at
  \<open>e\<close>; the flags are the success of its two calls. The result is the exit status and the
  clock as everybody reads it from then on.
\<close>

definition set_time_main :: "bool \<Rightarrow> bool \<Rightarrow> nat \<Rightarrow> nat \<Rightarrow> (nat \<Rightarrow> int) \<Rightarrow> int \<times> (nat \<Rightarrow> int)" where
  "set_time_main got done_ok s e clk =
     (if \<not> got then (1, clk)
      else let tv = clk s div 1000 - 5 * 1000000 in
        if \<not> done_ok then (1, clk) else (0, \<lambda>t. if t < e then clk t else tv * 1000 + (clk t - clk e)))"

text \<open>
  A thread of \<open>timer_test.c\<close> started at \<open>t0\<close>: ten seconds more than the clock shows, then an
  absolute sleep, which ends when the clock, as it then runs, has reached that time. The two
  threads sleep on different clocks.
\<close>

definition test_timer :: "(nat \<Rightarrow> int) \<Rightarrow> nat \<Rightarrow> nat option" where
  "test_timer clk t0 = (let target = clk t0 + 10 * 1000000000 in poll_until (\<lambda>t. target \<le> clk t) t0)"

definition timer_test_main :: "(nat \<Rightarrow> int) \<Rightarrow> (nat \<Rightarrow> int) \<Rightarrow> nat \<Rightarrow> nat option \<times> nat option" where
  "timer_test_main realtime monotonic t0 = (test_timer realtime t0, test_timer monotonic t0)"

lemma test_timer_steady:
  assumes "\<And>t. t0 \<le> t \<Longrightarrow> t \<le> t0 + 10000000000 \<Longrightarrow> clk t = base + int t"
  shows "test_timer clk t0 = Some (t0 + 10000000000)"
proof -
  have "clk t0 = base + int t0" "clk (t0 + 10000000000) = base + int t0 + 10000000000" using assms by simp_all
  then show ?thesis using assms unfolding test_timer_def Let_def by (intro poll_until_first) simp_all
qed

text \<open>
  Setting the clock back by five seconds lengthens an absolute sleep on \<open>CLOCK_REALTIME\<close>
  and not one on \<open>CLOCK_MONOTONIC\<close>. If \<open>set_time\<close> succeeds while the two threads sleep, the first
  wakes after 15 seconds plus the time between its two calls plus the fraction of a
  microsecond it cut off, the second after 10 seconds; if it fails, or is late, both wake
  after 10 seconds.
\<close>

lemma clock_step:
  assumes steady: "\<forall>t. clk t = base + int t" and s: "t0 \<le> s" "s < e"
  shows "set_time_main True True s e clk = (0, snd (set_time_main True True s e clk)) \<and>
    (e \<le> t0 + 9999999999 \<longrightarrow>
      timer_test_main (snd (set_time_main True True s e clk)) int t0 =
        (Some (t0 + 15000000000 + (e - s) + nat (clk s mod 1000)), Some (t0 + 10000000000))) \<and>
    (t0 + 10000000000 < e \<longrightarrow>
      timer_test_main (snd (set_time_main True True s e clk)) int t0 = (Some (t0 + 10000000000), Some (t0 + 10000000000))) \<and>
    (\<not> (got \<and> done_ok) \<longrightarrow> fst (set_time_main got done_ok s e clk) = 1 \<and>
      timer_test_main (snd (set_time_main got done_ok s e clk)) int t0 = (Some (t0 + 10000000000), Some (t0 + 10000000000)))"
proof (intro conjI impI)
  define m where "m = nat (clk s mod 1000)"
  have m: "int m = clk s mod 1000" by (simp add: m_def)
  define new where "new = snd (set_time_main True True s e clk)"
  have new: "new t = (if t < e then base + int t else base + int s - int m - 5000000000 + (int t - int e))" for t
  proof -
    have "clk s div 1000 * 1000 = clk s - int m" unfolding m by (simp add: minus_mod_eq_div_mult [symmetric])
    then show ?thesis using steady by (simp add: new_def set_time_main_def Let_def algebra_simps)
  qed
  have mono: "test_timer int t0 = Some (t0 + 10000000000)" by (rule test_timer_steady [of _ _ 0]) simp
  show "timer_test_main (snd (set_time_main True True s e clk)) int t0 =
      (Some (t0 + 15000000000 + (e - s) + nat (clk s mod 1000)), Some (t0 + 10000000000))" if e: "e \<le> t0 + 9999999999"
  proof -
    define w where "w = t0 + 15000000000 + (e - s) + m"
    have "new t0 = base + int t0" using s by (simp add: new)
    then have "test_timer new t0 = Some w" unfolding test_timer_def Let_def
      using s e by (intro poll_until_first) (auto simp: new w_def of_nat_diff)
    then show ?thesis using mono by (simp add: timer_test_main_def new_def w_def m_def)
  qed
  show "timer_test_main (snd (set_time_main True True s e clk)) int t0 = (Some (t0 + 10000000000), Some (t0 + 10000000000))"
    if e: "t0 + 10000000000 < e"
    using test_timer_steady [of t0 new base] new e mono by (simp add: timer_test_main_def flip: new_def)
  assume "\<not> (got \<and> done_ok)"
  then have no: "set_time_main got done_ok s e clk = (1, clk)" by (auto simp: set_time_main_def Let_def)
  then show "fst (set_time_main got done_ok s e clk) = 1" by simp
  show "timer_test_main (snd (set_time_main got done_ok s e clk)) int t0 = (Some (t0 + 10000000000), Some (t0 + 10000000000))"
    using test_timer_steady [of t0 clk base] steady mono no by (simp add: timer_test_main_def)
qed (simp add: set_time_main_def Let_def)

lemma clock_step_example:
  "timer_test_main (snd (set_time_main True True 2000000123 2000004000 (\<lambda>t. 1700000000000000000 + int t))) int 0 =
     (Some 15000004000, Some 10000000000)"
proof -
  have "\<forall>t. (\<lambda>t. 1700000000000000000 + int t) t = 1700000000000000000 + int t" by simp
  from clock_step [OF this, of 0 2000000123 2000004000] show ?thesis by simp
qed

section \<open>Years since the epoch\<close>

text \<open>\<open>sysfs.c\<close>: the seconds \<open>fscanf\<close> read, if it read a number, and the years printed.\<close>

datatype rtc_out = OpenFailed | ReadFailed | Passed int int

definition rtc_main :: "bool \<Rightarrow> int option \<Rightarrow> rtc_out \<times> int" where
  "rtc_main opened got =
     (if \<not> opened then (OpenFailed, 1)
      else case got of
          Some value \<Rightarrow> (Passed value (value sdiv ((60 * 60 sdiv 100) * 24 * 36525)), 0)
        | None \<Rightarrow> (ReadFailed, 0))"

lemma rtc_years:
  assumes "0 \<le> value" "value < 2147483648"
  shows "rtc_main True (Some value) = (Passed value (value div 31557600), 0) \<and> value div 31557600 \<le> 68"
proof -
  have "value sdiv 31557600 = value div 31557600"
    using assms(1) by (simp add: signed_divide_int_def sgn_if)
  moreover have "(60 * 60 :: int) sdiv 100 = 36" by (simp add: signed_divide_int_def)
  moreover have "value div 31557600 \<le> 2147483647 div 31557600" using assms(2) by (intro zdiv_mono1) simp_all
  ultimately show ?thesis by (simp add: rtc_main_def)
qed

end
