(* ===== verification/TimedAccess.thy ===== *)
theory TimedAccess
  imports Counter MapPrograms "HOL-Library.Multiset"
begin

text \<open>
  Programs that time single accesses: \<open>C/perf_mmap.c\<close> with the page of a performance event,
  \<open>C/test_mmap.c\<close> with the time register around a first and a second store, and \<open>C/main_rc.c\<close>, which
  times itself.
\<close>

section \<open>perf_mmap.c\<close>

datatype perf_res = PerfFd | PmuPage | FaultPage | NofaultPage
datatype perf_call = Take perf_res | Give perf_res
datatype perf_out = OpenError | MmapError | NoFaultCycles "64 word" | FaultCycles "64 word" | CyclesMore "64 word" | TooSmall

text \<open>
  \<open>main\<close> on the success of its four acquisitions and the four values read from the page. A
  page that could not be mapped is accessed all the same.
\<close>

definition perf_mmap_main :: "bool \<Rightarrow> bool \<Rightarrow> bool \<Rightarrow> bool \<Rightarrow> (nat \<Rightarrow> 64 word) \<Rightarrow> (int \<times> perf_out list \<times> perf_call list) res" where
  "perf_mmap_main opened pmu_ok fault_ok nofault_ok cycles =
     (if \<not> opened then Inr (1, [OpenError], [])
      else if \<not> pmu_ok then Inr (1, [MmapError], [Take PerfFd, Give PerfFd])
      else if \<not> nofault_ok \<or> \<not> fault_ok then Inl OutOfBounds
      else let duration_nofault = cycles 1 - cycles 0; duration_fault = cycles 3 - cycles 2 in
        Inr (0, [NoFaultCycles duration_nofault, FaultCycles duration_fault,
               if duration_nofault < duration_fault then CyclesMore (duration_fault - duration_nofault) else TooSmall],
             [Take PerfFd, Take PmuPage, Take FaultPage, Take NofaultPage,
              Give PmuPage, Give PerfFd, Give FaultPage, Give NofaultPage]))"

definition taken :: "perf_call list \<Rightarrow> perf_res multiset" where
  "taken cs = mset (concat (map (\<lambda>c. case c of Take r \<Rightarrow> [r] | Give _ \<Rightarrow> []) cs))"

definition given :: "perf_call list \<Rightarrow> perf_res multiset" where
  "given cs = mset (concat (map (\<lambda>c. case c of Give r \<Rightarrow> [r] | Take _ \<Rightarrow> []) cs))"

text \<open>Whatever fails, a run that ends gives back what it took; and the printed difference is exact.\<close>

lemma perf_mmap_balanced:
  assumes "perf_mmap_main opened pmu_ok fault_ok nofault_ok cycles = Inr (status, out, cs)"
  shows "taken cs = given cs" "status = (if opened \<and> pmu_ok then 0 else 1)"
    "CyclesMore d \<in> set out \<Longrightarrow> unat d = unat (cycles 3 - cycles 2) - unat (cycles 1 - cycles 0) \<and> 0 < unat d"
proof -
  show "taken cs = given cs" "status = (if opened \<and> pmu_ok then 0 else 1)"
    using assms by (auto simp: perf_mmap_main_def taken_def given_def Let_def split: if_splits)
  assume "CyclesMore d \<in> set out"
  then have d: "cycles 1 - cycles 0 < cycles 3 - cycles 2" "d = (cycles 3 - cycles 2) - (cycles 1 - cycles 0)"
    using assms by (auto simp: perf_mmap_main_def Let_def split: if_splits)
  have "unat d = unat (cycles 3 - cycles 2) - unat (cycles 1 - cycles 0)"
    unfolding d(2) using d(1) by (intro unat_sub) simp
  moreover have "unat (cycles 1 - cycles 0) < unat (cycles 3 - cycles 2)" using d(1) by (simp add: word_less_nat_alt)
  ultimately show "unat d = unat (cycles 3 - cycles 2) - unat (cycles 1 - cycles 0) \<and> 0 < unat d" by simp
qed

section \<open>test_mmap.c\<close>

text \<open>A store between two readings of the time register: the printed ticks, the memory, the next reading.\<close>

definition timed_store :: "(nat \<Rightarrow> 64 word) \<Rightarrow> nat \<Rightarrow> vm \<Rightarrow> int \<Rightarrow> int \<Rightarrow> (trap + int \<times> vm \<times> nat) option" where
  "timed_store tm i v p x =
     (case read_time_rv32 tm i of None \<Rightarrow> None
      | Some (start_time, i) \<Rightarrow>
        (case store_int v p x of Inl t \<Rightarrow> Some (Inl t)
         | Inr v \<Rightarrow>
           (case read_time_rv32 tm i of None \<Rightarrow> None
            | Some (end_time, i) \<Rightarrow> Some (Inr (sint (end_time - start_time), v, i)))))"

definition test_mmap :: "mmap_call \<Rightarrow> (nat \<Rightarrow> 64 word) \<Rightarrow> vm \<Rightarrow> (trap + int list) option" where
  "test_mmap K tm v =
     (let p = 268435456; v = snd (K v (anon p 4096 PROT_RW)) in
      case timed_store tm 0 v p 10 of None \<Rightarrow> None
      | Some (Inl t) \<Rightarrow> Some (Inl t)
      | Some (Inr (first, v, i)) \<Rightarrow>
         (case timed_store tm i v p 20 of None \<Rightarrow> None
          | Some (Inl t) \<Rightarrow> Some (Inl t)
          | Some (Inr (second, v, i)) \<Rightarrow> Some (Inr [first, second])))"

lemma store_int_eq:
  "store_int v p x = (if allowed can_write v p 4 then Inr (poke v p (int_bytes x)) else Inl (Segv p))"
  by (simp add: store_int_def store_def)

lemma timed_store_total:
  assumes "counter_mono tm" "\<forall>i. unat (tm (i + 5)) - unat (tm i) < 4294967296"
  shows "\<exists>a b j. i \<le> a \<and> a < b \<and> b < j \<and> timed_store tm i v p x =
    Some (if allowed can_write v p 4 then Inr (sint (tm b - tm a), poke v p (int_bytes x), j) else Inl (Segv p))"
proof -
  note tot = read_time_rv32_returns [OF assms(1) assms(2) [rule_format]]
  obtain k where k: "read_time_rv32 tm i = Some (tm (k - 2), k)" "k = i + 3 \<or> k = i + 6" using tot [of i] by blast
  obtain j where j: "read_time_rv32 tm k = Some (tm (j - 2), j)" "j = k + 3 \<or> j = k + 6" using tot [of k] by blast
  show ?thesis using k j
    by (intro exI [of _ "k - 2"] exI [of _ "j - 2"] exI [of _ j]) (auto simp: timed_store_def store_int_eq)
qed

text \<open>Two times are printed if the kernel followed the suggestion, and the first store dies otherwise.\<close>

lemma test_mmap_outcome:
  assumes K: "mmap_doc K" and free: "page_prot v 65536 = None"
    and tm: "counter_mono tm" "\<forall>i. unat (tm (i + 5)) - unat (tm i) < 4294967296"
  shows "\<exists>a b c d. a < b \<and> b < c \<and> c < d \<and> test_mmap K tm v =
    Some (if fst (K v (anon 268435456 4096 PROT_RW)) = 268435456
      then Inr [sint (tm b - tm a), sint (tm d - tm c)] else Inl (Segv 268435456))"
proof -
  obtain mm v1 where m: "K v (anon 268435456 4096 PROT_RW) = (mm, v1)" by fastforce
  have w: "allowed can_write v1 268435456 4 \<longleftrightarrow> mm = 268435456"
  proof
    assume "mm = 268435456"
    then have "mapped v (anon 268435456 4096 PROT_RW) 268435456 v1" using mmap_docD(1) [OF K m] by (simp add: MAP_FAILED_def)
    then show "allowed can_write v1 268435456 4" by (rule mapped_anon(2) [where p = PROT_RW]) simp_all
  qed (use hint_refused [OF K free m] in blast)
  obtain a b j where 1: "a < b" "b < j" "timed_store tm 0 v1 268435456 10 =
      Some (if allowed can_write v1 268435456 4 then Inr (sint (tm b - tm a), poke v1 268435456 (int_bytes 10), j) else Inl (Segv 268435456))"
    using timed_store_total [OF tm, of 0] by blast
  obtain c d k where 2: "j \<le> c" "c < d" "timed_store tm j (poke v1 268435456 (int_bytes 10)) 268435456 20 =
      Some (if allowed can_write v1 268435456 4 then Inr (sint (tm d - tm c), poke (poke v1 268435456 (int_bytes 10)) 268435456 (int_bytes 20), k)
        else Inl (Segv 268435456))"
    using timed_store_total [OF tm, of j "poke v1 268435456 (int_bytes 10)" 268435456 20] by auto
  show ?thesis using 1 2
    by (intro exI [of _ a] exI [of _ b] exI [of _ c] exI [of _ d]) (simp add: test_mmap_def Let_def w m)
qed

section \<open>main_rc.c\<close>

text \<open>The ticks printed: the difference of two readings of the free-running counter.\<close>

definition main_rc :: "(nat \<Rightarrow> 64 word) \<Rightarrow> int option" where
  "main_rc tm =
     (case read_freerun_counter tm 0 of None \<Rightarrow> None
      | Some (st, i) \<Rightarrow> (case read_freerun_counter tm i of None \<Rightarrow> None | Some (et, i) \<Rightarrow> Some (sint (et - st))))"

end
