(* ===== verification/Threads.thy ===== *)
theory Threads
  imports Prelude
begin

text \<open>
  The programs with scheduling classes: two printing threads (\<open>C/sched_fifo.c\<close>, \<open>C/sched_rr.c\<close> and
  \<open>C/rtsample.c\<close>, which is the same program), a deadline thread (\<open>C/sched_dl.c\<close>), and a busy
  process (\<open>C/sched_rr_busy.c\<close>). Each thread is the list of the lines it prints; what a program
  prints is some interleaving of its threads' lists, whatever the scheduler does.
\<close>

section \<open>Two printing threads\<close>

text \<open>A thread whose \<open>sched_setscheduler\<close> fails (\<open>-1\<close>) returns at once.\<close>

definition realtime_task :: "int \<Rightarrow> string list" where
  "realtime_task setsched =
     (if setsched = - 1 then [] else map (\<lambda>i. ''[RT] iteration '' @ dec_nat i @ [NL]) [0..<5])"

definition normal_task :: "string list" where
  "normal_task = map (\<lambda>i. ''[NORM] iteration '' @ dec_nat i @ [NL]) [0..<5]"

definition rr_task :: "int \<Rightarrow> int \<Rightarrow> string list" where
  "rr_task setsched tid =
     (if setsched = - 1 then [] else map (\<lambda>i. ''[RR '' @ dec_int tid @ ''] running'' @ [NL]) [0..<10::nat])"

text \<open>\<open>main\<close> creates both, joins both and returns; these are the outputs it may have.\<close>

definition sched_fifo_main :: "int \<Rightarrow> string list \<Rightarrow> bool" where
  "sched_fifo_main setsched out \<longleftrightarrow> out \<in> shuffles (realtime_task setsched) normal_task"

definition sched_rr_main :: "int \<Rightarrow> int \<Rightarrow> string list \<Rightarrow> bool" where
  "sched_rr_main setsched1 setsched2 out \<longleftrightarrow> out \<in> shuffles (rr_task setsched1 1) (rr_task setsched2 2)"

definition rtsample_main :: "int \<Rightarrow> int \<Rightarrow> string list \<Rightarrow> bool" where
  "rtsample_main = sched_rr_main"

lemma filter_shuffle:
  "out \<in> shuffles xs ys \<Longrightarrow> \<forall>x \<in> set xs. P x \<Longrightarrow> \<forall>y \<in> set ys. \<not> P y \<Longrightarrow> filter P out = xs \<and> filter (\<lambda>x. \<not> P x) out = ys"
proof (induction xs ys arbitrary: out rule: shuffles.induct)
  case (3 x xs y ys)
  then obtain out' where "out = x # out' \<and> out' \<in> shuffles xs (y # ys) \<or> out = y # out' \<and> out' \<in> shuffles (x # xs) ys"
    by auto
  then show ?case using 3 by fastforce
qed (auto simp: filter_id_conv filter_empty_conv)

text \<open>Whatever the order, each thread's lines appear once and in its own order, and the normal
  thread is complete even if the other was refused its class.\<close>

lemma sched_fifo_output:
  assumes "sched_fifo_main setsched out"
  shows "filter (\<lambda>l. take 4 l = ''[RT]'') out = realtime_task setsched"
    "filter (\<lambda>l. take 4 l \<noteq> ''[RT]'') out = normal_task" "length out = (if setsched = - 1 then 5 else 10)"
proof -
  have m: "out \<in> shuffles (realtime_task setsched) normal_task" using assms by (simp add: sched_fifo_main_def)
  have "\<forall>l \<in> set (realtime_task setsched). take 4 l = ''[RT]''" by (auto simp: realtime_task_def)
  moreover have "\<forall>l \<in> set normal_task. \<not> take 4 l = ''[RT]''" by (auto simp: normal_task_def)
  ultimately show "filter (\<lambda>l. take 4 l = ''[RT]'') out = realtime_task setsched"
    "filter (\<lambda>l. take 4 l \<noteq> ''[RT]'') out = normal_task"
    using filter_shuffle [OF m] by auto
  show "length out = (if setsched = - 1 then 5 else 10)"
    using length_shuffles [OF m] by (simp add: realtime_task_def normal_task_def)
qed

lemma sched_rr_output:
  assumes "sched_rr_main s1 s2 out"
  shows "length out = (if s1 = - 1 then 0 else 10) + (if s2 = - 1 then 0 else 10)"
  using length_shuffles [of out "rr_task s1 1" "rr_task s2 2"] assms by (simp add: sched_rr_main_def rr_task_def)

section \<open>sched_dl.c\<close>

text \<open>The attributes of the thread in nanoseconds, and the kernel's admission test for one processor.\<close>

record sched_attr =
  sched_runtime :: int
  sched_deadline :: int
  sched_period :: int

definition run_deadline_attr :: sched_attr where
  "run_deadline_attr = \<lparr>sched_runtime = 10 * 1000 * 1000, sched_deadline = 30 * 1000 * 1000, sched_period = 30 * 1000 * 1000\<rparr>"

definition dl_valid :: "sched_attr \<Rightarrow> bool" where
  "dl_valid a \<longleftrightarrow> 1024 \<le> sched_runtime a \<and> sched_runtime a \<le> sched_deadline a \<and> sched_deadline a \<le> sched_period a"

text \<open>
  The thread never blocks, so it uses up its runtime in every period until \<open>main\<close> cancels it:
  the processor time it may get in \<open>t\<close> nanoseconds, counting a period begun as a whole one.
\<close>

definition dl_supply :: "sched_attr \<Rightarrow> int \<Rightarrow> int" where
  "dl_supply a t = sched_runtime a * (t div sched_period a + 1)"

lemma sched_dl_leaves_time: "dl_valid run_deadline_attr \<and> dl_supply run_deadline_attr (3 * 1000000000) \<le> 1010000000"
  by (simp add: dl_valid_def run_deadline_attr_def dl_supply_def)

text \<open>
  The thread and \<open>main\<close> side by side. Cancellation is deferred: a cancelled thread ends at its next
  cancellation point, which are its output and \<open>pthread_testcancel\<close>.
\<close>

datatype dl_thread = DlSetattr | DlAnnounce | DlLoop | DlGone
datatype dl_main = MCreate | MSleep | MJoin | MDone

record sched_dl =
  dl_at :: "dl_thread option"
  main_at :: dl_main
  cancelled :: bool
  dl_out :: "string list"

definition dl_line :: "int \<Rightarrow> string" where
  "dl_line tid = ''deadline thread started ['' @ dec_int tid @ '']'' @ [NL]"

definition sched_dl_start :: sched_dl where
  "sched_dl_start = \<lparr>dl_at = None, main_at = MCreate, cancelled = False, dl_out = []\<rparr>"

inductive dl_step :: "int \<Rightarrow> int \<Rightarrow> sched_dl \<Rightarrow> sched_dl \<Rightarrow> bool" for setattr tid where
  create: "main_at s = MCreate \<Longrightarrow> dl_step setattr tid s (s\<lparr>dl_at := Some DlSetattr, main_at := MSleep\<rparr>)"
| cancel: "main_at s = MSleep \<Longrightarrow> dl_step setattr tid s (s\<lparr>cancelled := True, main_at := MJoin\<rparr>)"
| join: "main_at s = MJoin \<Longrightarrow> dl_at s = Some DlGone \<Longrightarrow> dl_step setattr tid s (s\<lparr>main_at := MDone\<rparr>)"
| refused: "dl_at s = Some DlSetattr \<Longrightarrow> setattr < 0 \<Longrightarrow> dl_step setattr tid s (s\<lparr>dl_at := Some DlGone\<rparr>)"
| granted: "dl_at s = Some DlSetattr \<Longrightarrow> \<not> setattr < 0 \<Longrightarrow> dl_step setattr tid s (s\<lparr>dl_at := Some DlAnnounce\<rparr>)"
| announce: "dl_at s = Some DlAnnounce \<Longrightarrow> dl_step setattr tid s (s\<lparr>dl_at := Some DlLoop, dl_out := dl_out s @ [dl_line tid]\<rparr>)"
| round: "dl_at s = Some DlLoop \<Longrightarrow> \<not> cancelled s \<Longrightarrow> dl_step setattr tid s s"
| cancel_point: "dl_at s = Some d \<Longrightarrow> d = DlAnnounce \<or> d = DlLoop \<Longrightarrow> cancelled s \<Longrightarrow>
    dl_step setattr tid s (s\<lparr>dl_at := Some DlGone\<rparr>)"

definition dl_inv :: "int \<Rightarrow> int \<Rightarrow> sched_dl \<Rightarrow> bool" where
  "dl_inv setattr tid s \<longleftrightarrow> (dl_at s = None \<longleftrightarrow> main_at s = MCreate) \<and> (cancelled s \<longleftrightarrow> main_at s \<in> {MJoin, MDone}) \<and>
     (main_at s = MDone \<longrightarrow> dl_at s = Some DlGone) \<and>
     (if setattr < 0 then dl_out s = [] \<and> dl_at s \<notin> {Some DlAnnounce, Some DlLoop}
      else dl_out s = [] \<and> dl_at s \<noteq> Some DlLoop \<or>
        dl_out s = [dl_line tid] \<and> dl_at s \<in> {Some DlLoop, Some DlGone}) \<and>
     (dl_at s = Some DlGone \<and> \<not> setattr < 0 \<longrightarrow> cancelled s)"

lemma dl_inv_step: "dl_step setattr tid s t \<Longrightarrow> dl_inv setattr tid s \<Longrightarrow> dl_inv setattr tid t"
  by (cases rule: dl_step.cases, assumption) (auto simp: dl_inv_def split: if_splits)

text \<open>The steps still to be made, rounds of the loop apart.\<close>

definition dl_left :: "sched_dl \<Rightarrow> nat" where
  "dl_left s = (case main_at s of MCreate \<Rightarrow> 6 | MSleep \<Rightarrow> 2 | MJoin \<Rightarrow> 1 | MDone \<Rightarrow> 0) +
     (case dl_at s of None \<Rightarrow> 0 | Some DlSetattr \<Rightarrow> 3 | Some DlAnnounce \<Rightarrow> 2 | Some DlLoop \<Rightarrow> 1 | Some DlGone \<Rightarrow> 0)"

lemma dl_left_step:
  "dl_step setattr tid s t \<Longrightarrow> dl_inv setattr tid s \<Longrightarrow> dl_left t < dl_left s \<or> t = s \<and> \<not> cancelled s"
  by (cases rule: dl_step.cases, assumption) (auto simp: dl_left_def dl_inv_def split: option.splits dl_thread.splits)

lemma dl_progress:
  assumes "dl_inv setattr tid s" "main_at s \<noteq> MDone"
  shows "\<exists>t. dl_step setattr tid s t \<and> t \<noteq> s"
proof (cases "main_at s")
  case MCreate
  from dl_step.create [OF this] MCreate show ?thesis by (metis dl_main.distinct(1) sched_dl.select_convs(2) sched_dl.surjective sched_dl.update_convs(1,2))
next
  case MSleep
  from dl_step.cancel [OF this] MSleep show ?thesis by (metis dl_main.distinct(7) sched_dl.select_convs(2) sched_dl.surjective sched_dl.update_convs(2,3))
next
  case MJoin
  then obtain d where d: "dl_at s = Some d" "cancelled s" using assms(1) by (auto simp: dl_inv_def)
  have moved: "s\<lparr>dl_at := Some e\<rparr> \<noteq> s" if "e \<noteq> d" for e using d(1) that by (metis option.inject sched_dl.select_convs(1) sched_dl.surjective sched_dl.update_convs(1))
  show ?thesis
  proof (cases d)
    case DlSetattr
    then show ?thesis using dl_step.refused [of s setattr tid] dl_step.granted [of s setattr tid] d moved by (cases "setattr < 0") auto
  next
    case DlGone
    have "s\<lparr>main_at := MDone\<rparr> \<noteq> s" using MJoin by (metis dl_main.distinct(11) sched_dl.select_convs(2) sched_dl.surjective sched_dl.update_convs(2))
    then show ?thesis using dl_step.join [of s setattr tid] MJoin d(1) DlGone by auto
  qed (use dl_step.cancel_point [of s _ setattr tid] d moved in \<open>auto\<close>)
qed (use assms in simp)

text \<open>
  Wherever the program is, it can end, after at most six steps that are not rounds of the loop, and
  from the cancellation on it must: no rounds are left. At its end the thread is over, and its
  line has been printed at most once, and never if the class was refused.
\<close>

lemma sched_dl_ends:
  assumes "(dl_step setattr tid)\<^sup>*\<^sup>* sched_dl_start s"
  shows "dl_left s \<le> 6" "\<exists>t. (dl_step setattr tid)\<^sup>*\<^sup>* s t \<and> main_at t = MDone"
    and "cancelled s \<Longrightarrow> dl_step setattr tid s t \<Longrightarrow> dl_left t < dl_left s"
    and "main_at s = MDone \<Longrightarrow> dl_at s = Some DlGone \<and> (dl_out s = [] \<or> dl_out s = [dl_line tid] \<and> \<not> setattr < 0)"
proof -
  have inv: "dl_inv setattr tid s \<and> dl_left s \<le> 6" using assms
  proof (induction rule: rtranclp_induct)
    case base
    then show ?case by (simp add: dl_inv_def sched_dl_start_def dl_left_def)
  next
    case (step s t)
    then show ?case using dl_inv_step dl_left_step by fastforce
  qed
  then show "dl_left s \<le> 6" by blast
  show "cancelled s \<Longrightarrow> dl_step setattr tid s t \<Longrightarrow> dl_left t < dl_left s" using inv dl_left_step by blast
  show "main_at s = MDone \<Longrightarrow> dl_at s = Some DlGone \<and> (dl_out s = [] \<or> dl_out s = [dl_line tid] \<and> \<not> setattr < 0)"
    using inv by (auto simp: dl_inv_def split: if_splits)
  show "\<exists>t. (dl_step setattr tid)\<^sup>*\<^sup>* s t \<and> main_at t = MDone"
    using inv
  proof (induction "dl_left s" arbitrary: s rule: less_induct)
    case less
    show ?case
    proof (cases "main_at s = MDone")
      case False
      then obtain t where t: "dl_step setattr tid s t" "t \<noteq> s" using dl_progress less.prems by blast
      then have "dl_left t < dl_left s" "dl_inv setattr tid t" using dl_left_step dl_inv_step less.prems by blast+
      then obtain u where "(dl_step setattr tid)\<^sup>*\<^sup>* t u" "main_at u = MDone" using less by (meson less_imp_le order.trans)
      then show ?thesis using t(1) by (meson converse_rtranclp_into_rtranclp)
    qed blast
  qed
qed

section \<open>sched_rr_busy.c\<close>

text \<open>The lines printed in \<open>n\<close> rounds from a value of the 32-bit \<open>unsigned long counter\<close> on, and that value.\<close>

fun rr_busy :: "int \<Rightarrow> int \<Rightarrow> nat \<Rightarrow> string list \<times> int" where
  "rr_busy pid counter 0 = ([], counter)"
| "rr_busy pid counter (Suc n) =
     (let counter = u32 (counter + 1); out = (if counter mod 100000000 = 0 then [''PID '' @ dec_int pid @ '' running'' @ [NL]] else []) in
      case rr_busy pid counter n of (os, c) \<Rightarrow> (out @ os, c))"

lemma u32_add_left: "u32 (u32 a + b) = u32 (a + b)"
  by (simp add: u32_mod mod_add_left_eq)

lemma rr_busy_counter: "snd (rr_busy pid counter (Suc n)) = u32 (counter + int (Suc n))"
proof (induction n arbitrary: counter)
  case (Suc n)
  have "u32 (u32 (counter + 1) + int (Suc n)) = u32 (counter + int (Suc (Suc n)))"
    unfolding u32_add_left by (simp add: algebra_simps)
  then show ?case using Suc.IH [of "u32 (counter + 1)"] by (simp only: rr_busy.simps(2) [of _ _ "Suc n"] Let_def case_prod_unfold snd_conv)
qed (simp add: Let_def)

text \<open>The rounds that print: those after which the counter, with its wrap-around, is a multiple of 10 to the 8.\<close>

lemma rr_busy_lines:
  "length (fst (rr_busy pid counter n)) = card {k. 1 \<le> k \<and> k \<le> n \<and> u32 (counter + int k) mod 100000000 = 0}"
proof (induction n arbitrary: counter)
  case (Suc n)
  let ?S = "\<lambda>c n. {k. 1 \<le> k \<and> k \<le> n \<and> u32 (c + int k) mod 100000000 = 0}"
  have eq: "u32 (u32 (counter + 1) + int k) = u32 (counter + int (Suc k))" for k
    unfolding u32_add_left by (simp add: algebra_simps)
  have S: "?S counter (Suc n) = (if u32 (counter + 1) mod 100000000 = 0 then {1} else {}) \<union> Suc ` ?S (u32 (counter + 1)) n"
  proof (rule set_eqI)
    fix k
    show "k \<in> ?S counter (Suc n) \<longleftrightarrow>
      k \<in> (if u32 (counter + 1) mod 100000000 = 0 then {1} else {}) \<union> Suc ` ?S (u32 (counter + 1)) n"
    proof (cases k)
      case (Suc j)
      have "k \<in> Suc ` ?S (u32 (counter + 1)) n \<longleftrightarrow> 1 \<le> j \<and> j \<le> n \<and> u32 (counter + int k) mod 100000000 = 0"
        unfolding Suc by (simp only: inj_image_mem_iff [OF inj_Suc] mem_Collect_eq eq)
      then show ?thesis using Suc by (cases j) auto
    qed auto
  qed
  have fin: "finite (?S c n)" for c n by (rule finite_subset [of _ "{..n}"]) auto
  have "card (?S counter (Suc n)) = (if u32 (counter + 1) mod 100000000 = 0 then 1 else 0) + card (?S (u32 (counter + 1)) n)"
    unfolding S using fin
    by (subst card_Un_disjoint) (auto simp: card_image)
  then show ?case using Suc.IH [of "u32 (counter + 1)"] by (simp add: Let_def case_prod_unfold)
qed simp

end
