(* ===== verification/ByteStream.thy ===== *)
theory ByteStream
  imports Prelude
begin

text \<open>
  The byte stream between two processes: a stream socket, a pipe or a named pipe. What is
  written is read later, in order, but the borders between writes are lost. The locale is
  the interface the programs rely on; its instance is a bounded queue.
\<close>

section \<open>Conservation\<close>

text \<open>
  \<open>ws\<close> are the writes made so far, \<open>cs\<close> the results of the reads, \<open>rest\<close> the bytes in flight; a
  read asks for \<open>n\<close> bytes. The bytes in flight are pieces of at most \<open>n\<close> bytes, which bounds
  the number of reads.
\<close>

definition fifo_inv :: "nat \<Rightarrow> char list list \<Rightarrow> char list list \<Rightarrow> char list \<Rightarrow> bool" where
  "fifo_inv n ws cs rest \<longleftrightarrow> concat ws = concat cs @ rest \<and> (\<forall>c \<in> set cs. c \<noteq> [] \<and> length c \<le> n) \<and>
     (\<exists>ps. rest = concat ps \<and> (\<forall>p \<in> set ps. p \<noteq> [] \<and> length p \<le> n) \<and>
       length cs + length ps \<le> length (filter (\<lambda>w. w \<noteq> []) ws))"

lemma fifo_inv_start: "fifo_inv n [] [] []"
  unfolding fifo_inv_def by (auto intro!: exI [of _ "[]"])

lemma fifo_inv_write:
  assumes "fifo_inv n ws cs rest" "length w \<le> n"
  shows "fifo_inv n (ws @ [w]) cs (rest @ w)"
proof -
  obtain ps where ps: "rest = concat ps" "\<forall>p \<in> set ps. p \<noteq> [] \<and> length p \<le> n"
    "length cs + length ps \<le> length (filter (\<lambda>w. w \<noteq> []) ws)" using assms(1) unfolding fifo_inv_def by blast
  have "rest @ w = concat (ps @ (if w = [] then [] else [w]))" using ps(1) by simp
  with ps assms show ?thesis
    unfolding fifo_inv_def by (intro conjI exI [of _ "ps @ (if w = [] then [] else [w])"]) auto
qed

lemma drop_pieces:
  "\<forall>p \<in> set ps. p \<noteq> [] \<and> length p \<le> n \<Longrightarrow>
   \<exists>qs. drop k (concat ps) = concat qs \<and> (\<forall>q \<in> set qs. q \<noteq> [] \<and> length q \<le> n) \<and> length qs \<le> length ps"
proof (induction ps arbitrary: k)
  case (Cons p ps)
  show ?case
  proof (cases "k < length p")
    case True
    then have "drop k (concat (p # ps)) = concat (drop k p # ps)" by simp
    moreover have "drop k p \<noteq> [] \<and> length (drop k p) \<le> n" using Cons.prems True by auto
    ultimately show ?thesis using Cons.prems by (intro exI [of _ "drop k p # ps"]) auto
  next
    case False
    then have "drop k (concat (p # ps)) = drop (k - length p) (concat ps)" by simp
    with Cons.IH [of "k - length p"] Cons.prems show ?thesis by (metis le_SucI length_Cons list.set_intros(2))
  qed
qed auto

lemma fifo_inv_read:
  assumes inv: "fifo_inv n ws cs rest" and "0 < n" "rest \<noteq> []"
  shows "fifo_inv n ws (cs @ [take n rest]) (drop n rest)"
proof -
  obtain ps where ps: "rest = concat ps" "\<forall>p \<in> set ps. p \<noteq> [] \<and> length p \<le> n"
    "length cs + length ps \<le> length (filter (\<lambda>w. w \<noteq> []) ws)" using inv unfolding fifo_inv_def by blast
  obtain p qs where q: "ps = p # qs" using ps(1) assms(3) by (cases ps) auto
  have "drop n rest = drop (n - length p) (concat qs)" using ps(1,2) by (simp add: q)
  then obtain rs where rs: "drop n rest = concat rs" "\<forall>r \<in> set rs. r \<noteq> [] \<and> length r \<le> n" "length rs \<le> length qs"
    using drop_pieces [of qs n "n - length p"] ps(2) by (auto simp: q)
  have "concat ws = concat (cs @ [take n rest]) @ drop n rest" using inv by (simp add: fifo_inv_def)
  moreover have "\<forall>c \<in> set (cs @ [take n rest]). c \<noteq> [] \<and> length c \<le> n"
    using inv assms(2,3) by (auto simp: fifo_inv_def)
  moreover have "length (cs @ [take n rest]) + length rs \<le> length (filter (\<lambda>w. w \<noteq> []) ws)"
    using ps(3) rs(3) by (simp add: q)
  ultimately show ?thesis unfolding fifo_inv_def using rs(1,2) by blast
qed

section \<open>The interface\<close>

text \<open>
  \<open>put\<close> and \<open>get\<close> are \<open>None\<close> when the call blocks. A read returns what there is, up to the
  number of bytes asked for.
\<close>

locale byte_stream =
  fixes content :: "'s \<Rightarrow> char list"
    and put :: "char list \<Rightarrow> 's \<Rightarrow> 's option"
    and get :: "nat \<Rightarrow> 's \<Rightarrow> (char list \<times> 's) option"
  assumes put_content: "put bs s = Some s' \<Longrightarrow> content s' = content s @ bs"
    and get_content: "get n s = Some (bs, s') \<Longrightarrow> 0 < n \<Longrightarrow> content s \<noteq> [] \<and> bs = take n (content s) \<and> content s' = drop n (content s)"
    and get_ready: "content s \<noteq> [] \<Longrightarrow> get n s \<noteq> None"
begin

lemma put_keeps: "put w s = Some s' \<Longrightarrow> length w \<le> n \<Longrightarrow> fifo_inv n ws cs (content s) \<Longrightarrow> fifo_inv n (ws @ [w]) cs (content s')"
  by (simp add: put_content fifo_inv_write)

lemma get_keeps: "get n s = Some (bs, s') \<Longrightarrow> 0 < n \<Longrightarrow> fifo_inv n ws cs (content s) \<Longrightarrow> fifo_inv n ws (cs @ [bs]) (content s')"
  using get_content fifo_inv_read by metis

lemma get_shorter: "get n s = Some (bs, s') \<Longrightarrow> 0 < n \<Longrightarrow> length (content s') < length (content s)"
  using get_content by (metis diff_less length_drop length_greater_0_conv)

lemma get_stuck: "get n s = None \<Longrightarrow> content s = []"
  using get_ready by blast

end

section \<open>A bounded queue of bytes\<close>

record chan =
  inflight :: "char list"
  room :: nat

definition chan_put :: "char list \<Rightarrow> chan \<Rightarrow> chan option" where
  "chan_put bs c = (if length (inflight c) + length bs \<le> room c then Some (c\<lparr>inflight := inflight c @ bs\<rparr>) else None)"

definition chan_get :: "nat \<Rightarrow> chan \<Rightarrow> (char list \<times> chan) option" where
  "chan_get n c = (if inflight c = [] then None else Some (take n (inflight c), c\<lparr>inflight := drop n (inflight c)\<rparr>))"

interpretation chan: byte_stream inflight chan_put chan_get
  by unfold_locales (auto simp: chan_put_def chan_get_def split: if_splits)

lemma chan_room: "chan_put bs c = Some c' \<Longrightarrow> room c' = room c" "chan_get n c = Some (bs, c') \<Longrightarrow> room c' = room c"
  by (auto simp: chan_put_def chan_get_def split: if_splits)

lemma chan_full: "chan_put bs c = None \<Longrightarrow> length bs \<le> room c \<Longrightarrow> inflight c \<noteq> []"
  by (auto simp: chan_put_def split: if_splits)

end
