(* ===== verification/PaymentFlow.thy ===== *)
theory PaymentFlow
  imports PaymentDemo EpollServer ByteStream
begin

text \<open>
  The front end and the payment process together: \<open>C/epoll_server.c\<close> writes the payload of every
  P request to the stream socket \<open>payment_fd\<close>, and \<open>C/payment.c\<close> reads up to 1023 bytes of it at a
  time. A step is one event of the front end, if what it sends fits into the socket, or one
  \<open>read\<close> of the payment process, which then serves what it got.
\<close>

section \<open>The system\<close>

record flow =
  front :: server
  coming :: "server_event list"
  handled :: "server_event list"
  calls :: "sys_call list"
  pay_sock :: chan
  chunks :: "char list list"

definition flow_start :: "int \<Rightarrow> int \<Rightarrow> nat \<Rightarrow> server_event list \<Rightarrow> flow" where
  "flow_start pfd lfd n evs = \<lparr>front = \<lparr>listenfd = lfd, payment_fd = pfd, watched = [lfd]\<rparr>, coming = evs, handled = [],
     calls = [], pay_sock = \<lparr>inflight = [], room = n\<rparr>, chunks = []\<rparr>"

definition to_payment :: "flow \<Rightarrow> sys_call list \<Rightarrow> char list" where
  "to_payment s cs = concat (sent_to (payment_fd (front s)) cs)"

inductive flow_step :: "flow \<Rightarrow> flow \<Rightarrow> bool" where
  front_end: "coming s = ev # evs \<Longrightarrow> handle_event (front s) ev = Inr (cs, sv) \<Longrightarrow>
    chan_put (to_payment s cs) (pay_sock s) = Some c \<Longrightarrow>
    flow_step s (s\<lparr>front := sv, coming := evs, handled := handled s @ [ev], calls := calls s @ cs, pay_sock := c\<rparr>)"
| payment: "chan_get 1023 (pay_sock s) = Some (bs, c) \<Longrightarrow> flow_step s (s\<lparr>pay_sock := c, chunks := chunks s @ [bs]\<rparr>)"

inductive_cases flow_stepE: "flow_step s t"

text \<open>The events still to come, and the bytes they bring or have left in the socket.\<close>

definition flow_left :: "flow \<Rightarrow> nat" where
  "flow_left s = length (coming s) + length (concat (payments (coming s))) + length (inflight (pay_sock s))"

section \<open>What one step keeps\<close>

text \<open>What is true of every reachable state; \<open>s0\<close> is the start.\<close>

definition flow_inv :: "server \<Rightarrow> server_event list \<Rightarrow> nat \<Rightarrow> flow \<Rightarrow> bool" where
  "flow_inv sv0 evs n s \<longleftrightarrow> evs = handled s @ coming s \<and> room (pay_sock s) = n \<and>
     server_inv (front s) \<and> events_ok (front s) (coming s) \<and> step_ok sv0 (handled s) (calls s) (front s) \<and>
     fifo_inv 1023 (payments (handled s)) (chunks s) (inflight (pay_sock s))"

lemma payments_append: "payments (xs @ ys) = payments xs @ payments ys" "requests fd (xs @ ys) = requests fd xs @ requests fd ys"
  by (simp_all add: payments_def requests_def)

lemma payments_one: "event_ok sv ev \<Longrightarrow> payments [ev] = [] \<or> (\<exists>w. payments [ev] = [w] \<and> length w \<le> 1023)"
  by (cases ev) (auto simp: payments_def split: option.splits)

lemma step_ok_append:
  assumes "step_ok sv0 xs cs sv1" "step_ok sv1 ys ds sv2"
  shows "step_ok sv0 (xs @ ys) (cs @ ds) sv2"
proof -
  have "own_fds sv1 = own_fds sv0" using assms(1) by (simp add: step_ok_def own_fds_def)
  then show ?thesis using assms by (simp add: step_ok_def fd_replay_append sent_to_append payments_append)
qed

lemma front_step:
  assumes inv: "flow_inv sv0 evs n s" and c: "coming s = ev # rest"
  obtains cs sv where "handle_event (front s) ev = Inr (cs, sv)" "step_ok (front s) [ev] cs sv" "events_ok sv rest"
    "to_payment s cs = concat (payments [ev])"
proof -
  have ok: "server_inv (front s)" "event_ok (front s) ev" using inv c by (simp_all add: flow_inv_def)
  obtain cs sv where h: "handle_event (front s) ev = Inr (cs, sv)" "step_ok (front s) [ev] cs sv"
    using handle_event_ok [OF ok] by blast
  have "events_ok sv rest" using inv c h(1) by (simp add: flow_inv_def)
  moreover have "to_payment s cs = concat (payments [ev])" using h(2) by (simp add: to_payment_def step_ok_def)
  ultimately show thesis using that h by blast
qed

lemma flow_inv_step:
  assumes inv: "flow_inv sv0 evs n s" and step: "flow_step s t"
  shows "flow_inv sv0 evs n t \<and> flow_left t < flow_left s"
  using step
proof cases
  case (front_end ev rest cs sv c)
  have h: "step_ok (front s) [ev] cs sv" "events_ok sv rest" "to_payment s cs = concat (payments [ev])"
    using front_step [OF inv front_end(2)] front_end(3) by auto
  have fifo: "fifo_inv 1023 (payments (handled s)) (chunks s) (inflight (pay_sock s))" using inv by (simp add: flow_inv_def)
  have "event_ok (front s) ev" using inv front_end(2) by (simp add: flow_inv_def)
  then have "fifo_inv 1023 (payments (handled s @ [ev])) (chunks s) (inflight c)"
    using payments_one [of "front s" ev] fifo front_end(4) chan.put_keeps [OF front_end(4) _ fifo] chan.put_content [OF front_end(4)]
    by (auto simp: h(3) payments_append)
  moreover have "step_ok sv0 (handled s @ [ev]) (calls s @ cs) sv"
    using inv h(1) by (intro step_ok_append [of _ _ _ "front s"]) (simp_all add: flow_inv_def)
  ultimately have "flow_inv sv0 evs n t"
    using inv front_end h chan_room(1) [OF front_end(4)] by (simp add: flow_inv_def step_ok_def)
  moreover have "flow_left t < flow_left s"
    using front_end chan.put_content [OF front_end(4)] h(3) by (simp add: flow_left_def requests_Cons(2) [of ev rest])
  ultimately show ?thesis ..
next
  case (payment bs c)
  have fifo: "fifo_inv 1023 (payments (handled s)) (chunks s) (inflight (pay_sock s))" using inv by (simp add: flow_inv_def)
  show ?thesis
    using chan.get_keeps [OF payment(2) _ fifo] chan.get_shorter [OF payment(2)] chan_room(2) [OF payment(2)] inv payment(1)
    by (simp add: flow_inv_def flow_left_def)
qed

lemma flow_stuck:
  assumes inv: "flow_inv sv0 evs n s" and "1023 \<le> n" and stuck: "\<forall>t. \<not> flow_step s t"
  shows "coming s = [] \<and> inflight (pay_sock s) = []"
proof
  have "chan_get 1023 (pay_sock s) = None" using stuck by (metis flow_step.payment not_Some_eq surj_pair)
  then show empty: "inflight (pay_sock s) = []" by (rule chan.get_stuck)
  show "coming s = []"
  proof (rule ccontr)
    assume "coming s \<noteq> []"
    then obtain ev rest where c: "coming s = ev # rest" by (cases "coming s") auto
    then obtain cs sv where h: "handle_event (front s) ev = Inr (cs, sv)" "to_payment s cs = concat (payments [ev])"
      using front_step [OF inv] by metis
    have "event_ok (front s) ev" using inv c by (simp add: flow_inv_def)
    then have "length (to_payment s cs) \<le> room (pay_sock s)"
      using payments_one [of "front s" ev] assms(2) inv by (auto simp: h(2) flow_inv_def)
    then have "chan_put (to_payment s cs) (pay_sock s) \<noteq> None" using chan_full empty by blast
    then show False using stuck flow_step.front_end [OF c h(1)] by blast
  qed
qed

lemma flow_reach_inv:
  assumes "flow_step\<^sup>*\<^sup>* (flow_start pfd lfd n evs) s" "2 < pfd" "2 < lfd" "pfd \<noteq> lfd"
    "events_ok \<lparr>listenfd = lfd, payment_fd = pfd, watched = [lfd]\<rparr> evs"
  shows "flow_inv \<lparr>listenfd = lfd, payment_fd = pfd, watched = [lfd]\<rparr> evs n s"
  using assms(1)
proof induction
  case base
  have p: "payments [] = []" by (simp add: payments_def)
  show ?case using assms fifo_inv_start
    by (simp add: flow_inv_def flow_start_def server_inv_def step_ok_def sent_to_def requests_def p)
next
  case (step s t)
  then show ?case using flow_inv_step by blast
qed

section \<open>End to end\<close>

text \<open>
  C6: from the clients to the work of the payment process. In every interleaving of the
  front end and the payment process, the bytes the payment process has read, followed by
  those still in the socket, are the payloads of the P requests handled so far, in their
  order; every client has its replies, whether or not its payment has been worked on; the
  payment process works at most as many rounds as there were requests with a payload, and
  serves what it reads completely, in at least 1.98 seconds a round. No interleaving runs for
  ever, and when nobody can move everything has been handled, read and served. (Requests that
  wait in the socket together are read as one: the witness shows two merged into one round.)
\<close>

theorem payment_flow:
  assumes "2 < pfd" "2 < lfd" "pfd \<noteq> lfd" "events_ok \<lparr>listenfd = lfd, payment_fd = pfd, watched = [lfd]\<rparr> evs"
    and "1023 \<le> n" "flow_step\<^sup>*\<^sup>* (flow_start pfd lfd n evs) s"
    and "clock_moves clk" "length buf = 1024"
  shows "concat (payments (handled s)) = concat (chunks s) @ inflight (pay_sock s) \<and>
    (\<forall>fd. 2 < fd \<and> fd \<noteq> pfd \<longrightarrow> sent_to fd (calls s) = map reply_to (requests fd (handled s))) \<and>
    length (chunks s) \<le> length (filter (\<lambda>p. p \<noteq> []) (payments (handled s))) \<and>
    (\<exists>tss k. payment_loop clk buf 0 (map Some (chunks s) @ [None]) =
        Some (Inr (concat (map (\<lambda>(m, ts). service m ts) (zip (chunks s) tss)), Some 0, k)) \<and>
      length tss = length (chunks s) \<and> int (length (chunks s)) * 1980000000 \<le> ns_of (clk k) - ns_of (clk 0)) \<and>
    (\<forall>t. flow_step s t \<longrightarrow> flow_left t < flow_left s) \<and>
    ((\<forall>t. \<not> flow_step s t) \<longrightarrow> handled s = evs \<and> inflight (pay_sock s) = [])"
proof -
  define sv0 where "sv0 = \<lparr>listenfd = lfd, payment_fd = pfd, watched = [lfd]\<rparr>"
  have inv: "flow_inv sv0 evs n s" unfolding sv0_def using assms(6,1-4) by (rule flow_reach_inv)
  then have fifo: "fifo_inv 1023 (payments (handled s)) (chunks s) (inflight (pay_sock s))"
    and ok: "step_ok sv0 (handled s) (calls s) (front s)" "evs = handled s @ coming s" by (simp_all add: flow_inv_def)
  have cs: "\<forall>m \<in> set (chunks s). m \<noteq> [] \<and> length m \<le> 1023" using fifo by (simp add: fifo_inv_def)
  have "concat (payments (handled s)) = concat (chunks s) @ inflight (pay_sock s)" using fifo by (simp add: fifo_inv_def)
  moreover have "\<forall>fd. 2 < fd \<and> fd \<noteq> pfd \<longrightarrow> sent_to fd (calls s) = map reply_to (requests fd (handled s))"
    using ok(1) by (simp add: step_ok_def sv0_def)
  moreover have "length (chunks s) \<le> length (filter (\<lambda>p. p \<noteq> []) (payments (handled s)))"
    using fifo unfolding fifo_inv_def by (auto simp del: length_filter_le)
  moreover note payment_loop_serves [OF assms(7,8) cs, of None 0]
  moreover have "(\<forall>t. \<not> flow_step s t) \<longrightarrow> handled s = evs \<and> inflight (pay_sock s) = []"
    using flow_stuck [OF inv assms(5)] ok(2) by simp
  ultimately show ?thesis using flow_inv_step [OF inv] by blast
qed

text \<open>A schedule says who moves next: the front end (\<open>True\<close>) or the payment process.\<close>

fun flow_run :: "bool list \<Rightarrow> flow \<Rightarrow> flow option" where
  "flow_run [] s = Some s"
| "flow_run (True # ws) s = (case coming s of [] \<Rightarrow> None | ev # evs \<Rightarrow>
     (case handle_event (front s) ev of Inl _ \<Rightarrow> None | Inr (cs, sv) \<Rightarrow>
       (case chan_put (to_payment s cs) (pay_sock s) of None \<Rightarrow> None | Some c \<Rightarrow>
         flow_run ws (s\<lparr>front := sv, coming := evs, handled := handled s @ [ev], calls := calls s @ cs, pay_sock := c\<rparr>))))"
| "flow_run (False # ws) s = (case chan_get 1023 (pay_sock s) of None \<Rightarrow> None
     | Some (bs, c) \<Rightarrow> flow_run ws (s\<lparr>pay_sock := c, chunks := chunks s @ [bs]\<rparr>))"

lemma flow_run_reach: "flow_run ws s = Some t \<Longrightarrow> flow_step\<^sup>*\<^sup>* s t"
proof (induction ws s rule: flow_run.induct)
  case (2 ws s)
  then obtain ev evs cs sv c where m: "coming s = ev # evs" "handle_event (front s) ev = Inr (cs, sv)"
    "chan_put (to_payment s cs) (pay_sock s) = Some c" by (auto split: list.splits sum.splits option.splits)
  from "2.IH" [OF m(1,2) refl m(3)] "2.prems" m have
    "flow_step\<^sup>*\<^sup>* (s\<lparr>front := sv, coming := evs, handled := handled s @ [ev], calls := calls s @ cs, pay_sock := c\<rparr>) t" by simp
  with flow_step.front_end [OF m] show ?case by (rule converse_rtranclp_into_rtranclp)
next
  case (3 ws s)
  then obtain bs c where m: "chan_get 1023 (pay_sock s) = Some (bs, c)" by (auto split: option.splits)
  from "3.IH" [OF m refl] "3.prems" m have "flow_step\<^sup>*\<^sup>* (s\<lparr>pay_sock := c, chunks := chunks s @ [bs]\<rparr>) t" by simp
  with flow_step.payment [OF m] show ?case by (rule converse_rtranclp_into_rtranclp)
qed simp

text \<open>Two clients' payments in the socket together are one round of work.\<close>

definition two_payments :: "server_event list" where
  "two_payments = [OnListen 6, OnListen 7, OnClient 6 (Some ''P500''), OnClient 7 (Some ''P7'')]"

lemmas event_evals = epoll_add_def epoll_del_def dispatch_def mem_write_def mem_read_def overlay_def

lemma two_payments_merge:
  "\<exists>s. flow_run [True, True, True, True, False] (flow_start 3 4 1023 two_payments) = Some s \<and>
    handled s = two_payments \<and> chunks s = [''5007''] \<and> inflight (pay_sock s) = []"
  by (simp add: two_payments_def flow_start_def event_evals to_payment_def sent_to_def chan_put_def chan_get_def prec_s_def
      lit_def logger_fd_def)

theorem payment_flow_witness:
  "\<exists>s ts k. flow_step\<^sup>*\<^sup>* (flow_start 3 4 1023 two_payments) s \<and>
    payment_loop slow_clock (replicate 1024 NUL) 0 (map Some (chunks s) @ [None]) = Some (Inr (service ''5007'' ts, Some 0, k)) \<and>
    sent_to 6 (calls s) = [reply_to ''P500''] \<and> sent_to 7 (calls s) = [reply_to ''P7'']"
proof -
  obtain s where s: "flow_run [True, True, True, True, False] (flow_start 3 4 1023 two_payments) = Some s"
    "handled s = two_payments" "chunks s = [''5007'']" using two_payments_merge by blast
  have ok: "events_ok \<lparr>listenfd = 4, payment_fd = 3, watched = [4]\<rparr> two_payments"
    by (simp add: two_payments_def event_evals)
  note F = payment_flow [OF _ _ _ ok order.refl flow_run_reach [OF s(1)] slow_clock_moves, of "replicate 1024 NUL", unfolded s(3), simplified]
  obtain tss k where "payment_loop slow_clock (replicate 1024 NUL) 0 (map Some [''5007''] @ [None]) =
      Some (Inr (concat (map (\<lambda>(m, ts). service m ts) (zip [''5007''] tss)), Some 0, k))" "length tss = 1"
    using F by auto
  moreover obtain ts where "tss = [ts]" using \<open>length tss = 1\<close> by (cases tss) auto
  moreover have "sent_to 6 (calls s) = [reply_to ''P500'']" "sent_to 7 (calls s) = [reply_to ''P7'']"
    using F by (simp_all add: s(2) two_payments_def requests_def)
  ultimately show ?thesis using s(3) flow_run_reach [OF s(1)] by (intro exI [of _ s] exI [of _ ts] exI [of _ k]) simp
qed

end
