(* ===== verification/LogFlow.thy ===== *)
theory LogFlow
  imports Logger ByteStream
begin

text \<open>
  The named pipe in front of \<open>C/logger.c\<close>: any processes write messages to it, the logger polls it
  and reads up to 255 bytes at a time. A write of at most 4096 bytes is not mixed with others.
\<close>

section \<open>The system\<close>

text \<open>\<open>sent\<close> and \<open>got\<close> record the messages written and the results of the reads, with their
  time stamps; \<open>acts\<close> are the logger's actions.\<close>

record logflow =
  writes :: "char list list"
  sent :: "char list list"
  fifo :: chan
  lgr :: logger
  got :: "(string \<times> char list) list"
  acts :: "act list"

definition logflow_start :: "char list list \<Rightarrow> nat \<Rightarrow> char list \<Rightarrow> logflow" where
  "logflow_start ms n buf0 = \<lparr>writes = ms, sent = [], fifo = \<lparr>inflight = [], room = n\<rparr>,
     lgr = \<lparr>log_buf = buf0, cnt = 0\<rparr>, got = [], acts = []\<rparr>"

text \<open>
  A turn of the logger's loop finds the pipe readable, empty, or, when no writer has it open,
  at its end: then \<open>poll\<close> reports it and \<open>read\<close> returns 0.
\<close>

inductive logflow_step :: "logflow \<Rightarrow> logflow \<Rightarrow> bool" where
  writer: "writes s = m # ms \<Longrightarrow> chan_put m (fifo s) = Some c \<Longrightarrow>
    logflow_step s (s\<lparr>writes := ms, sent := sent s @ [m], fifo := c\<rparr>)"
| turn: "chan_get 255 (fifo s) = Some (bs, c) \<Longrightarrow>
    logger_turn (lgr s) \<lparr>poll_ready = True, read_got = Some bs, stamp = t\<rparr> = Inr (as, lg) \<Longrightarrow>
    logflow_step s (s\<lparr>fifo := c, lgr := lg, got := got s @ [(t, bs)], acts := acts s @ as\<rparr>)"
| idle: "inflight (fifo s) = [] \<Longrightarrow>
    logger_turn (lgr s) \<lparr>poll_ready = hup, read_got = Some [], stamp = t\<rparr> = Inr (as, lg) \<Longrightarrow>
    logflow_step s (s\<lparr>lgr := lg, acts := acts s @ as\<rparr>)"

section \<open>What is logged\<close>

definition log_lines :: "(string \<times> char list) list \<Rightarrow> string list" where
  "log_lines rs = map (\<lambda>(i, t, bs). log_line t (int i + 1) (message_text bs)) (enumerate 0 rs)"

lemma log_lines_snoc: "log_lines (rs @ [(t, bs)]) = log_lines rs @ [log_line t (int (length rs) + 1) (message_text bs)]"
  by (simp add: log_lines_def enumerate_append_eq)

definition logflow_inv :: "char list list \<Rightarrow> logflow \<Rightarrow> bool" where
  "logflow_inv ms s \<longleftrightarrow> ms = sent s @ writes s \<and> fifo_inv 255 (sent s) (map snd (got s)) (inflight (fifo s)) \<and>
     length (log_buf (lgr s)) = 256 \<and> cnt (lgr s) = int (length (got s)) \<and> bracketed False (acts s) \<and>
     concat (sections None (acts s)) = log_lines (got s)"

lemma logflow_inv_step:
  assumes inv: "logflow_inv ms s" and ms: "\<forall>m \<in> set ms. length m \<le> 255" "length ms < 2147483647"
    and step: "logflow_step s t"
  shows "logflow_inv ms t"
  using step
proof cases
  case (writer m rest c)
  then have "length m \<le> 255" using inv ms(1) by (auto simp: logflow_inv_def)
  then show ?thesis using writer inv chan.put_keeps [OF writer(3)] by (simp add: logflow_inv_def)
next
  case (turn bs c t as lg)
  have bs: "bs \<noteq> []" "length bs \<le> 255" using chan.get_content [OF turn(2)] by auto
  obtain buf where r: "length buf = 256"
    "as = [SemWait, Append (log_line t (s32 (cnt (lgr s) + 1)) (message_text bs)), Print (''[LOG] '' @ message_text bs), SemPost]"
    "lg = \<lparr>log_buf = buf, cnt = s32 (cnt (lgr s) + 1)\<rparr>"
    using logger_turn_message [of "lgr s" bs "\<lparr>poll_ready = True, read_got = Some bs, stamp = t\<rparr>"] inv bs turn(3)
    by (auto simp: logflow_inv_def)
  have "length (got s) \<le> length (sent s)" using inv length_filter_le [of "\<lambda>w. w \<noteq> []" "sent s"]
    unfolding logflow_inv_def fifo_inv_def by (auto simp del: length_filter_le)
  also have "length (sent s) \<le> length ms" using inv by (simp add: logflow_inv_def)
  finally have k: "s32 (cnt (lgr s) + 1) = cnt (lgr s) + 1" using inv ms(2) by (intro s32_id) (auto simp: logflow_inv_def)
  have "fifo_inv 255 (sent s) (map snd (got s) @ [bs]) (inflight c)"
    using chan.get_keeps [OF turn(2)] inv by (simp add: logflow_inv_def)
  then show ?thesis using turn(1) inv r k
    by (simp add: logflow_inv_def log_lines_snoc bracketed_append sections_append)
next
  case (idle hup t as lg)
  have "length (log_buf (lgr s)) = 256" using inv by (simp add: logflow_inv_def)
  then have "bracketed False as" "concat (sections None as) = []" "length (log_buf lg) = 256" "cnt lg = cnt (lgr s)"
    using logger_turn_quiet [of "lgr s" "\<lparr>poll_ready = hup, read_got = Some [], stamp = t\<rparr>"] idle(3)
    by (auto simp: fifo_messages_def)
  then show ?thesis using idle(1) inv by (simp add: logflow_inv_def bracketed_append sections_append)
qed

lemma logflow_reach_inv:
  assumes "logflow_step\<^sup>*\<^sup>* (logflow_start ms n buf0) s" "\<forall>m \<in> set ms. length m \<le> 255" "length ms < 2147483647" "length buf0 = 256"
  shows "logflow_inv ms s"
  using assms(1)
proof induction
  case base
  then show ?case using assms(4) fifo_inv_start by (simp add: logflow_inv_def logflow_start_def log_lines_def)
next
  case (step s t)
  then show ?case using logflow_inv_step assms(2,3) by blast
qed

lemma logflow_progress:
  assumes inv: "logflow_inv ms s" and "inflight (fifo s) \<noteq> []"
  shows "\<exists>t. logflow_step s t \<and> length (got t) = Suc (length (got s))"
proof -
  obtain bs c where g: "chan_get 255 (fifo s) = Some (bs, c)" using chan.get_ready [OF assms(2), of 255] by auto
  have bs: "bs \<noteq> []" "length bs \<le> 255" using chan.get_content [OF g] by auto
  obtain as lg where "logger_turn (lgr s) \<lparr>poll_ready = True, read_got = Some bs, stamp = ''''\<rparr> = Inr (as, lg)"
    using logger_turn_message [of "lgr s" bs "\<lparr>poll_ready = True, read_got = Some bs, stamp = ''''\<rparr>"] inv bs
    by (auto simp: logflow_inv_def)
  from logflow_step.turn [OF g this] show ?thesis
    by (intro exI [of _ "s\<lparr>fifo := c, lgr := lg, got := got s @ [('''', bs)], acts := acts s @ as\<rparr>"]) simp
qed

text \<open>When every message is read before the next one is written, each is one line.\<close>

lemma one_each:
  "concat ws = concat cs \<Longrightarrow> list_all2 (\<lambda>w c. length w = length c) ws cs \<Longrightarrow> ws = cs"
proof (induction ws arbitrary: cs)
  case (Cons w ws)
  then obtain c cs' where "cs = c # cs'" "length w = length c" "list_all2 (\<lambda>w c. length w = length c) ws cs'"
    by (auto simp: list_all2_Cons1)
  with Cons show ?case by simp
qed simp



end
