(* ===== verification/KernelHost.thy ===== *)
theory KernelHost
  imports Modules
begin

text \<open>
  One kernel on which the modules are loaded and unloaded in any interleaving, several at a time.
  The kernel's tables of names connect them: two modules create the class \<open>mychar\<close>, two
  register the platform device and driver \<open>gpio-sim-demo\<close>, and an interrupt line that is
  not shared has one owner.
\<close>

section \<open>The tables\<close>

text \<open>A loaded module, with the answers it got while it loaded, and what it holds.\<close>

record kernel =
  loaded :: "(episode \<times> kres list) list"
  leaked :: "kres list"

definition booted :: kernel where "booted = \<lparr>loaded = [], leaked = []\<rparr>"

text \<open>The name of the module's file decides whether it is loaded already.\<close>

fun ko_name :: "episode \<Rightarrow> string" where
  "ko_name EHello = ''hello''"
| "ko_name EVintNet = ''vint_net''"
| "ko_name (EParam _ _) = ''hello_init''"
| "ko_name (EChardev _) = ''chardev''"
| "ko_name (EMychardev _) = ''mychardev''"
| "ko_name (EVirtInt _) = ''virt-int''"
| "ko_name (EGpioDemo _) = ''gpio-sim-demo''"
| "ko_name (EGpioInt _) = ''gpio-sim-int''"
| "ko_name (ESysfs _) = ''sysfs''"
| "ko_name (EIrqnet _) = ''irqnet''"
| "ko_name (EHrtimer _) = ''hrtimer''"

text \<open>
  The names a held resource takes. The class and the platform driver carry the constants of the
  sources; a \<open>KPlatformDevice\<close> is always \<open>gpio-sim-demo\<close>. Of the interrupt lines only
  number 16 of \<open>sysfs.c\<close> is requested without \<open>IRQF_SHARED\<close>.
\<close>

definition held :: "kernel \<Rightarrow> kres set" where
  "held k = (\<Union>(m, h) \<in> set (loaded k). set h)"

definition EEXIST :: int where "EEXIST = 17"
definition EBUSY :: int where "EBUSY = 16"

text \<open>What the kernel answers the calls of a module: an error where a name is taken, and
  otherwise what it would have answered anyway.\<close>

fun kernel_answers :: "kernel \<Rightarrow> episode \<Rightarrow> episode" where
  "kernel_answers k (EChardev e) = EChardev (if KClass \<in> held k then e\<lparr>class_create := ErrPtr (- EEXIST)\<rparr> else e)"
| "kernel_answers k (EMychardev e) = EMychardev (if KClass \<in> held k then e\<lparr>class_create := ErrPtr (- EEXIST)\<rparr> else e)"
| "kernel_answers k (EGpioDemo e) = EGpioDemo (if KPlatformDevice \<in> held k then e\<lparr>pdev_sim := ErrPtr (- EEXIST)\<rparr>
     else if KPlatformDriver \<in> held k then e\<lparr>driver_register := - EBUSY\<rparr> else e)"
| "kernel_answers k (EGpioInt e) = EGpioInt (if KPlatformDevice \<in> held k then e\<lparr>pdev_sim := ErrPtr (- EEXIST)\<rparr>
     else if KPlatformDriver \<in> held k then e\<lparr>driver_register := - EBUSY\<rparr> else e)"
| "kernel_answers k (ESysfs e) = ESysfs (if KIrq irq_number \<in> held k then e\<lparr>request_threaded_irq := - EBUSY\<rparr> else e)"
| "kernel_answers k (EVirtInt e) = EVirtInt (if gpiod_to_irq e = irq_number \<and> KIrq irq_number \<in> held k
     then e\<lparr>request_irq := - EBUSY\<rparr> else e)"
| "kernel_answers k m = m"

text \<open>
  \<open>mychardev.c\<close> hands the result of \<open>class_create\<close> to \<open>device_create\<close> without a look at it: an
  error pointer there is dereferenced by the kernel.
\<close>

fun crashes :: "episode \<Rightarrow> bool" where
  "crashes (EMychardev e) = IS_ERR (class_create e)"
| "crashes _ = False"

text \<open>
  \<open>None\<close> is a kernel that is no longer usable: a crash, or a release of what is not held. What
  a failed load or an unload leaves behind is leaked.
\<close>

definition insmod :: "kernel \<Rightarrow> episode \<Rightarrow> (int \<times> kernel) option" where
  "insmod k m =
     (if ko_name m \<in> ko_name ` fst ` set (loaded k) then Some (- EEXIST, k)
      else let m = kernel_answers k m in
        if crashes m then None
        else case replay (snd (mod_init m)) [] of
            None \<Rightarrow> None
          | Some h \<Rightarrow>
              if fst (mod_init m) = 0 then Some (0, k\<lparr>loaded := (m, h) # loaded k\<rparr>)
              else Some (fst (mod_init m), k\<lparr>leaked := h @ leaked k\<rparr>))"

definition rmmod :: "kernel \<Rightarrow> string \<Rightarrow> (int \<times> kernel) option" where
  "rmmod k name =
     (case find (\<lambda>(m, h). ko_name m = name) (loaded k) of
        None \<Rightarrow> Some (- 2, k)
      | Some (m, h) \<Rightarrow>
          (case replay (mod_exit m) h of
             None \<Rightarrow> None
           | Some h' \<Rightarrow> Some (0, k\<lparr>loaded := filter (\<lambda>(m, h). ko_name m \<noteq> name) (loaded k), leaked := h' @ leaked k\<rparr>)))"

datatype cmd = Insmod episode | Rmmod string

fun cmd_run :: "kernel \<Rightarrow> cmd \<Rightarrow> (int \<times> kernel) option" where
  "cmd_run k (Insmod m) = insmod k m"
| "cmd_run k (Rmmod name) = rmmod k name"

fun session :: "kernel \<Rightarrow> cmd list \<Rightarrow> (int list \<times> kernel) option" where
  "session k [] = Some ([], k)"
| "session k (c # cs) = (case cmd_run k c of None \<Rightarrow> None
     | Some (r, k') \<Rightarrow> map_option (\<lambda>(rs, k''). (r # rs, k'')) (session k' cs))"

section \<open>Well-formed tables\<close>

text \<open>The documented answers; for \<open>mychardev.c\<close> everything is granted that no other module has.\<close>

fun cmd_ok :: "cmd \<Rightarrow> bool" where
  "cmd_ok (Insmod m) \<longleftrightarrow> episode_ok m"
| "cmd_ok (Rmmod _) \<longleftrightarrow> True"

definition module_ok :: "episode \<times> kres list \<Rightarrow> bool" where
  "module_ok mh \<longleftrightarrow> (case mh of (m, h) \<Rightarrow> episode_ok m \<and> fst (mod_init m) = 0 \<and> replay (snd (mod_init m)) [] = Some h)"

text \<open>The resources with a name of their own.\<close>

definition unique_res :: "kres set" where
  "unique_res = {KClass, KPlatformDevice, KPlatformDriver, KIrq irq_number}"

definition kernel_ok :: "kernel \<Rightarrow> bool" where
  "kernel_ok k \<longleftrightarrow> list_all module_ok (loaded k) \<and> distinct (map (ko_name \<circ> fst) (loaded k)) \<and> leaked k = [] \<and>
     (\<forall>r \<in> unique_res. length (filter (\<lambda>(m, h). r \<in> set h) (loaded k)) \<le> 1)"

lemma replay_acquired: "replay cs h = Some h' \<Longrightarrow> r \<in> set h' \<Longrightarrow> r \<in> set h \<or> Acq r \<in> set cs"
  by (induction cs h rule: replay.induct) (auto split: list.splits if_splits)

lemma answers_ok:
  assumes "episode_ok m" "\<not> crashes (kernel_answers k m)"
  shows "episode_ok (kernel_answers k m)" "ko_name (kernel_answers k m) = ko_name m"
  using assms
  by (cases m; auto simp: chr_env_doc_def sim_env_doc_def int_env_ok_def sysfs_env_doc_def probe_env_doc_def EEXIST_def EBUSY_def)+

lemma taken_not_acquired:
  assumes "r \<in> unique_res" "r \<in> held k" "\<not> crashes (kernel_answers k m)" "fst (mod_init (kernel_answers k m)) = 0"
  shows "Acq r \<notin> set (snd (mod_init (kernel_answers k m)))"
proof (cases m)
  case (EChardev e)
  then show ?thesis using assms
    by (auto simp: unique_res_def mychar_defs ENOMEM_def EEXIST_def Let_def split: if_splits)
next
  case (EMychardev e)
  then show ?thesis using assms by (auto simp: unique_res_def my_mychar_init_def Let_def split: if_splits)
next
  case (EVirtInt e)
  then show ?thesis using assms by (auto simp: unique_res_def virt_bind_defs EBUSY_def Let_def split: if_splits)
next
  case (EGpioDemo e)
  then show ?thesis using assms
    by (auto simp: unique_res_def gpio_sim_demo_init_def demo_bind_eq EEXIST_def EBUSY_def split: if_splits)
next
  case (EGpioInt e)
  then show ?thesis using assms
    by (auto simp: unique_res_def gpio_sim_int_init_def gpio_sim_demo_init_def int_bind_acquires EEXIST_def EBUSY_def split: if_splits)
next
  case (ESysfs e)
  then show ?thesis using assms by (auto simp: unique_res_def sysfs_init_def EBUSY_def Let_def split: if_splits)
qed (use assms in \<open>auto simp: unique_res_def hello_init_def param_init_def vint_net_load_def irqnet_init_def hrtimer_mod_init_def irq_number_def split: if_splits\<close>)

definition is_loaded :: "kernel \<Rightarrow> string \<Rightarrow> bool" where
  "is_loaded k name \<longleftrightarrow> name \<in> ko_name ` fst ` set (loaded k)"

lemma is_loaded_iff: "is_loaded k name \<longleftrightarrow> (\<exists>(m, h) \<in> set (loaded k). ko_name m = name)"
  by (force simp: is_loaded_def)

lemma held_filter: "r \<notin> held k \<longleftrightarrow> filter (\<lambda>(m, h). r \<in> set h) (loaded k) = []"
  by (auto simp: held_def filter_empty_conv)

lemma insmod_keeps:
  assumes ok: "kernel_ok k" "episode_ok m" and ins: "insmod k m = Some (r, k')"
  shows "kernel_ok k' \<and> (r = 0 \<longleftrightarrow> k' \<noteq> k) \<and> (r = 0 \<longrightarrow> is_loaded k' (ko_name m)) \<and> (r \<noteq> 0 \<longrightarrow> k' = k)"
proof (cases "is_loaded k (ko_name m)")
  case True
  then show ?thesis using ins ok(1) by (simp add: insmod_def is_loaded_def EEXIST_def)
next
  case False
  define m' where "m' = kernel_answers k m"
  have c: "\<not> crashes m'" using ins False by (auto simp: insmod_def is_loaded_def m'_def Let_def split: if_splits)
  note m' = answers_ok [OF ok(2) c [unfolded m'_def], folded m'_def]
  obtain h where h: "replay (snd (mod_init m')) [] = Some h"
    using ins False c by (auto simp: insmod_def is_loaded_def m'_def Let_def split: option.splits)
  show ?thesis
  proof (cases "fst (mod_init m') = 0")
    case True
    have k': "r = 0" "k' = k\<lparr>loaded := (m', h) # loaded k\<rparr>"
      using ins False c h True by (auto simp: insmod_def is_loaded_def m'_def Let_def)
    have "r \<notin> set h" if "r \<in> unique_res" "r \<in> held k" for r
      using taken_not_acquired [OF that c [unfolded m'_def] True [unfolded m'_def]] replay_acquired [OF h]
      by (auto simp: m'_def)
    then have "\<forall>r \<in> unique_res. length (filter (\<lambda>(m, h). r \<in> set h) (loaded k')) \<le> 1"
      using ok(1) by (auto simp: k'(2) kernel_ok_def simp flip: held_filter)
    then have "kernel_ok k'"
      using ok(1) m' h True False by (auto simp: k'(2) kernel_ok_def module_ok_def is_loaded_def)
    moreover have "k' \<noteq> k" by (metis k'(2) kernel.select_convs(1) kernel.surjective kernel.update_convs(1) not_Cons_self2)
    ultimately show ?thesis using k' m'(2) by (auto simp: is_loaded_def)
  next
    case False
    then have "h = []" using mods.rollback [OF m'(1) False, of "[]"] h by simp
    then have "r = fst (mod_init m')" "k' = k"
      using ins \<open>\<not> is_loaded k (ko_name m)\<close> c h False by (auto simp: insmod_def is_loaded_def m'_def Let_def)
    then show ?thesis using False ok(1) by simp
  qed
qed

lemma insmod_defined:
  assumes ok: "kernel_ok k" "episode_ok m"
  shows "insmod k m = None \<longleftrightarrow> \<not> is_loaded k (ko_name m) \<and> crashes (kernel_answers k m)"
proof (cases "crashes (kernel_answers k m)")
  case False
  note m' = answers_ok(1) [OF ok(2) False]
  have "replay (snd (mod_init (kernel_answers k m))) [] \<noteq> None"
    using mods.rollback [OF m', of "[]"] mods.teardown [OF m', of "[]"]
    by (cases "fst (mod_init (kernel_answers k m)) = 0") (auto simp: replay_append split: option.splits)
  then show ?thesis using False by (auto simp: insmod_def Let_def split: option.splits)
qed (auto simp: insmod_def is_loaded_def Let_def)

lemma rmmod_keeps:
  assumes ok: "kernel_ok k"
  shows "\<exists>r k'. rmmod k name = Some (r, k') \<and> kernel_ok k' \<and> \<not> is_loaded k' name \<and>
    (\<forall>n. n \<noteq> name \<longrightarrow> is_loaded k' n = is_loaded k n) \<and> (is_loaded k name \<longleftrightarrow> r = 0)"
proof (cases "find (\<lambda>(m, h). ko_name m = name) (loaded k)")
  case None
  then have "\<not> is_loaded k name" by (auto simp: find_None_iff is_loaded_iff)
  then show ?thesis using None ok by (simp add: rmmod_def)
next
  case (Some mh)
  obtain m h where mh: "mh = (m, h)" by (cases mh)
  from Some have f: "(m, h) \<in> set (loaded k)" "ko_name m = name"
    by (auto simp: find_Some_iff mh in_set_conv_nth)
  then have "module_ok (m, h)" using ok by (auto simp: kernel_ok_def list_all_iff)
  then have m: "episode_ok m" "fst (mod_init m) = 0" "replay (snd (mod_init m)) [] = Some h" by (simp_all add: module_ok_def)
  have e: "replay (mod_exit m) h = Some []" using mods.teardown [OF m(1,2), of "[]"] m(3) by (simp add: replay_append)
  define k' where "k' = k\<lparr>loaded := filter (\<lambda>(m, h). ko_name m \<noteq> name) (loaded k)\<rparr>"
  have r: "rmmod k name = Some (0, k')" using Some e by (simp add: rmmod_def mh k'_def)
  have "length (filter (\<lambda>(m, h). r \<in> set h) (loaded k')) \<le> 1" if "r \<in> unique_res" for r
  proof -
    have eq: "filter (\<lambda>(m, h). r \<in> set h) (loaded k') = filter (\<lambda>(m, h). ko_name m \<noteq> name) (filter (\<lambda>(m, h). r \<in> set h) (loaded k))"
      by (simp add: k'_def split_beta) (rule filter_cong, auto)
    have "length (filter (\<lambda>(m, h). r \<in> set h) (loaded k)) \<le> 1" using ok that by (simp add: kernel_ok_def)
    then show ?thesis unfolding eq by (rule order.trans [OF length_filter_le])
  qed
  then have "kernel_ok k'" using ok
    by (simp add: kernel_ok_def list_all_iff k'_def distinct_map_filter)
  moreover have "is_loaded k' n \<longleftrightarrow> n \<noteq> name \<and> is_loaded k n" for n by (auto simp: k'_def is_loaded_iff)
  ultimately show ?thesis using r f by (auto simp: is_loaded_iff)
qed

section \<open>Who has which name\<close>

lemma module_names:
  assumes "module_ok (m, h)"
  shows "KClass \<in> set h \<longleftrightarrow> ko_name m \<in> {''chardev'', ''mychardev''}"
    "KPlatformDevice \<in> set h \<longleftrightarrow> ko_name m \<in> {''gpio-sim-demo'', ''gpio-sim-int''}"
proof -
  have m: "episode_ok m" "fst (mod_init m) = 0" "replay (snd (mod_init m)) [] = Some h"
    using assms by (simp_all add: module_ok_def)
  have nz: "IS_ERR p \<Longrightarrow> kptr_doc p \<Longrightarrow> PTR_ERR p \<noteq> 0" for p using IS_ERR_E [of p] by linarith
  have "(KClass \<in> set h \<longleftrightarrow> ko_name m \<in> {''chardev'', ''mychardev''}) \<and>
    (KPlatformDevice \<in> set h \<longleftrightarrow> ko_name m \<in> {''gpio-sim-demo'', ''gpio-sim-int''})"
  proof (cases m)
    case (EChardev e)
    then have "\<not> IS_ERR (class_create e)" "\<not> IS_ERR (device_create e)"
      using m(1,2) by (auto simp: mychar_defs chr_env_doc_def ENOMEM_def nz Let_def split: if_splits)
    then show ?thesis using EChardev m by (auto simp: mychar_defs ENOMEM_def Let_def split: if_splits)
  next
    case (EMychardev e)
    then show ?thesis using m by (auto simp: my_mychar_init_def all_granted_def Let_def)
  next
    case (EVirtInt e)
    then show ?thesis using m by (auto simp: virt_bind_defs Let_def split: if_splits)
  next
    case (EGpioDemo e)
    then have "sim_env_doc e" "fst (gpio_sim_demo_init demo_bind e) = 0" using m by simp_all
    note sim_init_fails [OF this]
    then show ?thesis using EGpioDemo m(3) by (auto simp: gpio_sim_demo_init_def demo_bind_eq)
  next
    case (EGpioInt e)
    then have "sim_env_doc e" "fst (gpio_sim_demo_init int_bind e) = 0"
      using m by (simp_all add: int_env_ok_def gpio_sim_int_init_def)
    note sim_init_fails [OF this]
    then show ?thesis using EGpioInt m(3)
      by (auto simp: gpio_sim_int_init_def gpio_sim_demo_init_def int_bind_acquires)
  next
    case (ESysfs e)
    then show ?thesis using m IS_ERR_E [of "root_device_register e"]
      by (auto simp: sysfs_init_def sysfs_env_doc_def Let_def split: if_splits)
  qed (use m in \<open>auto simp: hello_init_def param_init_def vint_net_load_def irqnet_init_def hrtimer_mod_init_def split: if_splits\<close>)
  then show "KClass \<in> set h \<longleftrightarrow> ko_name m \<in> {''chardev'', ''mychardev''}"
    "KPlatformDevice \<in> set h \<longleftrightarrow> ko_name m \<in> {''gpio-sim-demo'', ''gpio-sim-int''}" by simp_all
qed

lemma name_holders:
  assumes "kernel_ok k"
  shows "KClass \<in> held k \<longleftrightarrow> is_loaded k ''chardev'' \<or> is_loaded k ''mychardev''"
    "KPlatformDevice \<in> held k \<longleftrightarrow> is_loaded k ''gpio-sim-demo'' \<or> is_loaded k ''gpio-sim-int''"
proof -
  have ok: "module_ok (m, h)" if "(m, h) \<in> set (loaded k)" for m h
    using assms that by (auto simp: kernel_ok_def list_all_iff)
  show "KClass \<in> held k \<longleftrightarrow> is_loaded k ''chardev'' \<or> is_loaded k ''mychardev''"
    using module_names(1) [OF ok] by (fastforce simp: held_def is_loaded_iff)
  show "KPlatformDevice \<in> held k \<longleftrightarrow> is_loaded k ''gpio-sim-demo'' \<or> is_loaded k ''gpio-sim-int''"
    using module_names(2) [OF ok] by (fastforce simp: held_def is_loaded_iff)
qed

lemma one_holder:
  assumes "kernel_ok k" "r \<in> unique_res" "(m, h) \<in> set (loaded k)" "(m', h') \<in> set (loaded k)" "r \<in> set h" "r \<in> set h'"
  shows "ko_name m = ko_name m'"
proof -
  have "length (filter (\<lambda>(m, h). r \<in> set h) (loaded k)) \<le> 1" using assms(1,2) by (simp add: kernel_ok_def)
  moreover have "(m, h) \<in> set (filter (\<lambda>(m, h). r \<in> set h) (loaded k))" "(m', h') \<in> set (filter (\<lambda>(m, h). r \<in> set h) (loaded k))"
    using assms(3-6) by auto
  ultimately show ?thesis
    by (metis One_nat_def fst_conv in_set_conv_nth le_eq_less_or_eq less_Suc0 less_nat_zero_code less_one)
qed

lemma exclusive:
  assumes ok: "kernel_ok k"
  shows "\<not> (is_loaded k ''chardev'' \<and> is_loaded k ''mychardev'')"
    "\<not> (is_loaded k ''gpio-sim-demo'' \<and> is_loaded k ''gpio-sim-int'')"
proof -
  have mod: "module_ok (m, h)" if "(m, h) \<in> set (loaded k)" for m h
    using ok that by (auto simp: kernel_ok_def list_all_iff)
  have u: "KClass \<in> unique_res" "KPlatformDevice \<in> unique_res" by (simp_all add: unique_res_def)
  show "\<not> (is_loaded k ''chardev'' \<and> is_loaded k ''mychardev'')"
  proof
    assume "is_loaded k ''chardev'' \<and> is_loaded k ''mychardev''"
    then obtain m h m' h' where m: "(m, h) \<in> set (loaded k)" "ko_name m = ''chardev''" "(m', h') \<in> set (loaded k)" "ko_name m' = ''mychardev''"
      by (auto simp: is_loaded_iff)
    then have "KClass \<in> set h" "KClass \<in> set h'" using module_names(1) [OF mod [OF m(1)]] module_names(1) [OF mod [OF m(3)]] by simp_all
    then show False using one_holder [OF ok u(1) m(1,3)] m(2,4) by simp
  qed
  show "\<not> (is_loaded k ''gpio-sim-demo'' \<and> is_loaded k ''gpio-sim-int'')"
  proof
    assume "is_loaded k ''gpio-sim-demo'' \<and> is_loaded k ''gpio-sim-int''"
    then obtain m h m' h' where m: "(m, h) \<in> set (loaded k)" "ko_name m = ''gpio-sim-demo''" "(m', h') \<in> set (loaded k)" "ko_name m' = ''gpio-sim-int''"
      by (auto simp: is_loaded_iff)
    then have "KPlatformDevice \<in> set h" "KPlatformDevice \<in> set h'"
      using module_names(2) [OF mod [OF m(1)]] module_names(2) [OF mod [OF m(3)]] by simp_all
    then show False using one_holder [OF ok u(2) m(1,3)] m(2,4) by simp
  qed
qed

lemma insmod_crash:
  assumes "kernel_ok k" "episode_ok m"
  shows "insmod k m = None \<longleftrightarrow> ko_name m = ''mychardev'' \<and> is_loaded k ''chardev''"
proof (cases m)
  case (EMychardev e)
  then show ?thesis
    using insmod_defined [OF assms] name_holders(1) [OF assms(1)] exclusive(1) [OF assms(1)] assms(2)
    by (auto simp: all_granted_def)
qed (use insmod_defined [OF assms] in auto)

lemma session_ok:
  assumes "kernel_ok k" "\<forall>c \<in> set cs. cmd_ok c"
  shows "(case session k cs of Some (rs, k') \<Rightarrow> kernel_ok k' \<and> length rs = length cs
     | None \<Rightarrow> \<exists>xs e ys rs k'. cs = xs @ Insmod (EMychardev e) # ys \<and> session k xs = Some (rs, k') \<and> is_loaded k' ''chardev'')"
  using assms
proof (induction cs arbitrary: k)
  case (Cons c cs)
  show ?case
  proof (cases "cmd_run k c")
    case None
    then obtain m where c: "c = Insmod m" "insmod k m = None"
    proof (cases c)
      case (Rmmod n)
      then show ?thesis using None rmmod_keeps [OF Cons.prems(1), of n] by auto
    qed (use None in simp)
    moreover have "episode_ok m" using c Cons.prems(2) by simp
    ultimately have "ko_name m = ''mychardev''" and "is_loaded k ''chardev''" using insmod_crash [OF Cons.prems(1)] by auto
    then obtain e where "m = EMychardev e" by (cases m) auto
    with \<open>is_loaded k ''chardev''\<close> have "c # cs = [] @ Insmod (EMychardev e) # cs \<and> session k [] = Some ([], k) \<and> is_loaded k ''chardev''"
      using c by simp
    moreover have "session k (c # cs) = None" using None by simp
    ultimately show ?thesis unfolding \<open>session k (c # cs) = None\<close> option.case by blast
  next
    case (Some rk)
    then obtain r k1 where rk: "cmd_run k c = Some (r, k1)" by (cases rk) auto
    have "kernel_ok k1"
    proof (cases c)
      case (Insmod m)
      then have "insmod k m = Some (r, k1)" "episode_ok m" using rk Cons.prems(2) by simp_all
      then show ?thesis using insmod_keeps [OF Cons.prems(1)] by blast
    next
      case (Rmmod n)
      then show ?thesis using rmmod_keeps [OF Cons.prems(1), of n] rk by auto
    qed
    then have IH: "case session k1 cs of Some (rs, k') \<Rightarrow> kernel_ok k' \<and> length rs = length cs
     | None \<Rightarrow> \<exists>xs e ys rs k'. cs = xs @ Insmod (EMychardev e) # ys \<and> session k1 xs = Some (rs, k') \<and> is_loaded k' ''chardev''"
      using Cons.IH Cons.prems(2) by simp
    show ?thesis
    proof (cases "session k1 cs")
      case None
      then obtain xs e ys rs k' where x: "cs = xs @ Insmod (EMychardev e) # ys" "session k1 xs = Some (rs, k')" "is_loaded k' ''chardev''"
        using IH by auto
      then have "session k (c # xs) = Some (r # rs, k')" using rk by simp
      then show ?thesis using None rk x
        by (auto intro!: exI [of _ "c # xs"])
    qed (use IH rk in auto)
  qed
qed simp


definition granted :: chr_env where
  "granted = \<lparr>get_free_page = True, alloc_chrdev_region = 0, cdev_add = 0, class_create = Ptr, device_create = Ptr\<rparr>"



definition with_chardev :: kernel where
  "with_chardev = \<lparr>loaded = [(EChardev granted, [KDevice, KClass, KCdev, KChrdevRegion, KPage])], leaked = []\<rparr>"


end
