(* ===== verification/Messages.thy ===== *)
theory Messages
  imports Prelude
begin

text \<open>
  Programs that pass one message and print it: through a pipe (\<open>C/pipe.c\<close>), a named pipe
  (\<open>C/named_pipe.c\<close>), a message queue (\<open>C/mqueue.c\<close>), a socket (\<open>C/unix_socket.c\<close> and its client
  \<open>unix_socket_cl.c\<close>), from the terminal (\<open>C/poll.c\<close>); and those that move bytes between a
  descriptor and a buffer: \<open>C/urandom.c\<close>, \<open>sys_readwrite.c\<close>, \<open>syscall.c\<close>, \<open>open.c\<close>. Buffers on the stack
  start with whatever is there.
\<close>

section \<open>Literals and strings in buffers\<close>

text \<open>The first \<open>n\<close> bytes of a string literal, its terminator included.\<close>

definition literal :: "nat \<Rightarrow> string \<Rightarrow> char list" where
  "literal n s = take n (s @ [NUL])"

text \<open>What \<open>%s\<close> prints; a buffer without a terminator is read past its end.\<close>

definition print_s :: "char list \<Rightarrow> string res" where
  "print_s m = (if NUL \<in> set m then Inr (c_str m) else Inl OutOfBounds)"

text \<open>\<open>read\<close> into a buffer: \<open>None\<close> is the return value -1, which leaves it alone.\<close>

definition read_into :: "char list \<Rightarrow> char list option \<Rightarrow> char list res" where
  "read_into buf got = (case got of None \<Rightarrow> Inr buf | Some bs \<Rightarrow> mem_write buf 0 bs)"

definition count_of :: "char list option \<Rightarrow> int" where
  "count_of got = (case got of None \<Rightarrow> - 1 | Some bs \<Rightarrow> int (length bs))"

lemma c_str_prefix: "NUL \<notin> set s \<Longrightarrow> c_str (s @ r) = s @ c_str r"
  by (induction s) (auto simp: c_str_def)

section \<open>One message between two processes\<close>

definition pipe_child :: "char list" where
  "pipe_child = literal 10 ''Hello Pipe''"

definition pipe_parent :: "char list \<Rightarrow> char list option \<Rightarrow> string res" where
  "pipe_parent buf got = and_then (read_into buf got) (\<lambda>buf.
     and_then (print_s buf) (\<lambda>s. Inr (''Parent received: '' @ s @ [NL])))"

definition named_pipe_parent :: "char list" where
  "named_pipe_parent = literal 17 ''Hello Named Pipe''"

definition named_pipe_child :: "char list \<Rightarrow> char list option \<Rightarrow> string res" where
  "named_pipe_child buf got = and_then (read_into buf got) (\<lambda>buf.
     and_then (print_s buf) (\<lambda>s. Inr (''Child received: '' @ s @ [NL])))"

definition mqueue_parent :: "char list" where
  "mqueue_parent = literal 19 ''Hello Message Queue''"

definition mqueue_child :: "char list \<Rightarrow> char list option \<Rightarrow> string res" where
  "mqueue_child buf got = and_then (read_into buf got) (\<lambda>buf.
     and_then (print_s buf) (\<lambda>s. Inr (''Child received: '' @ s @ [NL])))"

definition unix_client :: "char list" where
  "unix_client = c_str (''Sending from Client'' @ [NUL])"

definition unix_socket_main :: "char list \<Rightarrow> char list option \<Rightarrow> string res" where
  "unix_socket_main buf got = and_then (read_into buf got) (\<lambda>buf.
     and_then (mem_write buf (count_of got) [NUL]) (\<lambda>buf.
     and_then (print_s buf) (\<lambda>s. Inr (''Received: '' @ s @ [NL]))))"

datatype poll_out = TimedOut | PollFailed | Got string

definition poll_main :: "int \<Rightarrow> char list \<Rightarrow> char list option \<Rightarrow> poll_out res" where
  "poll_main ret buf got =
     (if ret = 0 then Inr TimedOut
      else if 0 < ret then and_then (read_into buf got) (\<lambda>buf.
        and_then (mem_write buf (count_of got) [NUL]) (\<lambda>buf.
        and_then (print_s buf) (\<lambda>s. Inr (Got s))))
      else Inr PollFailed)"

text \<open>A message without its terminator is followed by what the stack held.\<close>

lemma print_message:
  assumes "NUL \<notin> set msg" "length msg \<le> length buf"
  shows "and_then (read_into buf (Some msg)) (\<lambda>buf. and_then (print_s buf) k) =
    (if NUL \<in> set (drop (length msg) buf) then k (msg @ c_str (drop (length msg) buf)) else Inl OutOfBounds)"
  using assms by (simp add: read_into_def mem_write_def print_s_def overlay_def c_str_prefix)

lemma print_terminated:
  assumes "NUL \<notin> set msg" "length msg < length buf"
  shows "and_then (read_into buf (Some (msg @ [NUL]))) (\<lambda>buf. and_then (print_s buf) k) = k msg"
  using assms by (simp add: read_into_def mem_write_def print_s_def overlay_def c_str_app)

text \<open>A terminator written behind what was read.\<close>

lemma terminated_at_count:
  assumes "length bs \<le> length buf"
  shows "and_then (read_into buf (Some bs)) (\<lambda>buf. and_then (mem_write buf (count_of (Some bs)) [NUL]) (\<lambda>buf. and_then (print_s buf) k)) =
    (if length bs < length buf then k (c_str bs) else Inl OutOfBounds)"
  using assms by (auto simp: read_into_def count_of_def mem_write_def print_s_def overlay_def c_str_upto)

lemma count_failed: "and_then (read_into buf None) (\<lambda>buf. and_then (mem_write buf (count_of None) [NUL]) k) = Inl OutOfBounds"
  by (simp add: read_into_def count_of_def mem_write_def)

lemmas message_defs = named_pipe_child_def named_pipe_parent_def pipe_parent_def pipe_child_def
  mqueue_child_def mqueue_parent_def unix_socket_main_def unix_client_def literal_def poll_main_def

text \<open>
  C35: which message arrives intact. The named pipe's is sent with its terminator and printed
  as it is, whatever the buffer held before. The pipe's and the queue's are sent without: the
  text is followed by the bytes that were in the buffer behind it, and the print leaves the
  buffer if none of them is 0. The socket server terminates what it read, and prints the
  client's message, but a failed read makes it write in front of its buffer; \<open>poll.c\<close> does
  that too, and writes behind its buffer when the input fills it.
\<close>

theorem messages_printed:
  assumes "length b1 = 20" "length b2 = 100" "length b3 = 100" "length b4 = 100" "length b5 = 128"
  shows "named_pipe_child b2 (Some named_pipe_parent) = Inr (''Child received: Hello Named Pipe'' @ [NL]) \<and>
    pipe_parent b1 (Some pipe_child) = (if NUL \<in> set (drop 10 b1)
      then Inr (''Parent received: Hello Pipe'' @ c_str (drop 10 b1) @ [NL]) else Inl OutOfBounds) \<and>
    mqueue_child b3 (Some mqueue_parent) = (if NUL \<in> set (drop 19 b3)
      then Inr (''Child received: Hello Message Queue'' @ c_str (drop 19 b3) @ [NL]) else Inl OutOfBounds) \<and>
    unix_socket_main b4 (Some unix_client) = Inr (''Received: Sending from Client'' @ [NL]) \<and>
    (length bs \<le> 99 \<longrightarrow> unix_socket_main b4 (Some bs) = Inr (''Received: '' @ c_str bs @ [NL])) \<and>
    unix_socket_main b4 None = Inl OutOfBounds \<and>
    (0 < ret \<and> length bs \<le> 128 \<longrightarrow> poll_main ret b5 (Some bs) = (if length bs < 128 then Inr (Got (c_str bs)) else Inl OutOfBounds)) \<and>
    (0 < ret \<longrightarrow> poll_main ret b5 None = Inl OutOfBounds)"
proof (intro conjI impI)
  have nn: "NUL \<notin> set ''Hello Pipe''" "NUL \<notin> set ''Hello Named Pipe''" "NUL \<notin> set ''Hello Message Queue''"
    "NUL \<notin> set ''Sending from Client''" by (simp_all add: NUL_def)
  have len: "length ''Hello Pipe'' = 10" "length ''Hello Message Queue'' = 19" by simp_all
  show "named_pipe_child b2 (Some named_pipe_parent) = Inr (''Child received: Hello Named Pipe'' @ [NL])"
    using assms(2) by (simp add: message_defs print_terminated [OF nn(2), simplified])
  show "pipe_parent b1 (Some pipe_child) = (if NUL \<in> set (drop 10 b1)
      then Inr (''Parent received: Hello Pipe'' @ c_str (drop 10 b1) @ [NL]) else Inl OutOfBounds)"
    using assms(1) by (simp add: message_defs print_message [OF nn(1), unfolded len])
  show "mqueue_child b3 (Some mqueue_parent) = (if NUL \<in> set (drop 19 b3)
      then Inr (''Child received: Hello Message Queue'' @ c_str (drop 19 b3) @ [NL]) else Inl OutOfBounds)"
    using assms(3) by (simp add: message_defs print_message [OF nn(3), unfolded len])
  have served: "unix_socket_main b4 (Some bs) = Inr (''Received: '' @ c_str bs @ [NL])" if "length bs \<le> 99" for bs
    using assms(4) that by (simp add: unix_socket_main_def terminated_at_count)
  then show "length bs \<le> 99 \<Longrightarrow> unix_socket_main b4 (Some bs) = Inr (''Received: '' @ c_str bs @ [NL])" .
  have client: "unix_client = ''Sending from Client''" using c_str_app [OF nn(4), of "[]"] by (simp add: unix_client_def)
  then have "c_str unix_client = ''Sending from Client''" using c_str_prefix [OF nn(4), of "[]"] by simp
  moreover have "length unix_client \<le> 99" by (simp add: client)
  ultimately show "unix_socket_main b4 (Some unix_client) = Inr (''Received: Sending from Client'' @ [NL])"
    using served [of unix_client] by simp
  show "poll_main ret b5 (Some bs) = (if length bs < 128 then Inr (Got (c_str bs)) else Inl OutOfBounds)"
    if "0 < ret \<and> length bs \<le> 128"
    using assms(5) that by (simp add: poll_main_def terminated_at_count)
qed (simp_all add: unix_socket_main_def poll_main_def count_failed)

theorem messages_printed_witness:
  "named_pipe_child (replicate 100 CHR ''x'') (Some named_pipe_parent) = Inr (''Child received: Hello Named Pipe'' @ [NL]) \<and>
   pipe_parent (replicate 20 CHR ''x'') (Some pipe_child) = Inl OutOfBounds \<and>
   poll_main 1 (replicate 128 NUL) (Some ''hi'') = Inr (Got ''hi'')"
proof -
  have "NUL \<notin> set (drop 10 (replicate 20 CHR ''x''))" by (auto simp: NUL_def dest!: in_set_dropD)
  then show ?thesis
    using messages_printed [of "replicate 20 CHR ''x''" "replicate 100 CHR ''x''" "replicate 100 CHR ''x''"
        "replicate 100 CHR ''x''" "replicate 128 NUL" "''hi''" 1] by (simp add: c_str_def NUL_def)
qed

section \<open>Bytes between descriptors and buffers\<close>

text \<open>\<open>urandom.c\<close>: ten 32-bit words, low byte first, in eight hexadecimal digits each.\<close>

definition word_at :: "char list \<Rightarrow> nat \<Rightarrow> nat" where
  "word_at bs i = foldr (\<lambda>b n. of_char b + 256 * n) (take 4 (drop (4 * i) bs)) 0"

definition hex_digit :: "nat \<Rightarrow> char" where
  "hex_digit n = char_of (if n < 10 then 48 + n else 87 + n)"

definition hex8 :: "nat \<Rightarrow> string" where
  "hex8 n = map (\<lambda>k. hex_digit (n div 16 ^ k mod 16)) [7, 6, 5, 4, 3, 2, 1, 0]"

definition urandom_main :: "int \<Rightarrow> char list option \<Rightarrow> string \<times> int" where
  "urandom_main fd got =
     (if fd < 0 then (''open'', 1)
      else if count_of got \<noteq> 40 then (''read'', 1)
      else case got of None \<Rightarrow> (''read'', 1) | Some bs \<Rightarrow>
        (''Random values:'' @ [NL] @ concat (map (\<lambda>i. hex8 (word_at bs i) @ '' '') [0..<10]) @ [NL], 0))"

text \<open>Reading the digits back.\<close>

definition unhex_digit :: "char \<Rightarrow> nat" where
  "unhex_digit c = (if (of_char c :: nat) < 58 then of_char c - 48 else of_char c - 87)"

definition unhex :: "string \<Rightarrow> nat" where
  "unhex s = foldl (\<lambda>n c. 16 * n + unhex_digit c) 0 s"

lemma unhex_hex_digit: "n < 16 \<Longrightarrow> unhex_digit (hex_digit n) = n"
  by (auto simp: unhex_digit_def hex_digit_def)

lemma unhex_hex8: "n < 4294967296 \<Longrightarrow> unhex (hex8 n) = n"
proof -
  assume n: "n < 4294967296"
  have d: "unhex_digit (hex_digit (k mod 16)) = k mod 16" for k by (rule unhex_hex_digit) simp
  have s: "16 * (n div 16 ^ Suc k) + n div 16 ^ k mod 16 = n div 16 ^ k" for k
    by (simp add: div_mult2_eq mult.commute [of 16 "16 ^ k"])
  have "n div 268435456 < 16" using n by (simp add: less_mult_imp_div_less)
  then have top: "unhex_digit (hex_digit (n div 268435456)) = n div 268435456" "n div 268435456 mod 16 = n div 268435456"
    by (simp_all add: unhex_hex_digit)
  have "unhex (hex8 n) = 268435456 * (n div 268435456) + 16777216 * (n div 16777216 mod 16) +
      1048576 * (n div 1048576 mod 16) + 65536 * (n div 65536 mod 16) + 4096 * (n div 4096 mod 16) +
      256 * (n div 256 mod 16) + 16 * (n div 16 mod 16) + n mod 16"
    by (simp add: unhex_def hex8_def d top)
  moreover have "16 * (n div 16) + n mod 16 = n" by simp
  ultimately show ?thesis
    using s [of 6, simplified] s [of 5, simplified] s [of 4, simplified] s [of 3, simplified]
      s [of 2, simplified] s [of 1, simplified] by linarith
qed

lemma word_at_range: "word_at bs i < 4294967296"
proof -
  have lt: "of_char x < (256 :: nat)" for x by (metis of_char_mod_256 mod_less_divisor zero_less_numeral)
  have "foldr (\<lambda>b n. of_char b + 256 * n) cs 0 < (256 :: nat) ^ length cs" for cs
  proof (induction cs)
    case (Cons c cs)
    then have "of_char c + 256 * foldr (\<lambda>b n. of_char b + 256 * n) cs 0 < 256 * (256 :: nat) ^ length cs"
      using lt [of c] by linarith
    then show ?case by simp
  qed simp
  from this [of "take 4 (drop (4 * i) bs)"]
  have "word_at bs i < 256 ^ length (take 4 (drop (4 * i) bs))" by (simp only: word_at_def)
  also have "\<dots> \<le> 256 ^ 4" by (intro power_increasing) simp_all
  finally show ?thesis by simp
qed

text \<open>Ten numbers are printed, and they are the ten words that were read.\<close>

lemma urandom_prints:
  assumes "0 \<le> fd" "length bs = 40"
  shows "\<exists>hs. urandom_main fd (Some bs) = (''Random values:'' @ [NL] @ concat (map (\<lambda>h. h @ '' '') hs) @ [NL], 0) \<and>
    map unhex hs = map (word_at bs) [0..<10] \<and> (\<forall>h \<in> set hs. length h = 8)"
  using assms by (intro exI [of _ "map (\<lambda>i. hex8 (word_at bs i)) [0..<10]"])
    (simp add: urandom_main_def count_of_def unhex_hex8 [OF word_at_range] comp_def del: upt_Suc upt.simps, simp add: hex8_def)

text \<open>\<open>sys_readwrite.c\<close>: the second system call writes what the first one read. \<open>syscall.c\<close>: the bytes
  written, and the line with the result the kernel left in \<open>a0\<close>.\<close>

definition sys_readwrite :: "char list \<Rightarrow> char list option \<Rightarrow> char list res" where
  "sys_readwrite buf got = and_then (read_into buf got) (\<lambda>buf.
     if 0 < count_of got then mem_read buf 0 (count_of got) else Inr [])"

lemma sys_readwrite_echoes:
  "length buf = 10 \<Longrightarrow> sys_readwrite buf got = (case got of None \<Rightarrow> Inr []
     | Some bs \<Rightarrow> if length bs \<le> 10 then Inr bs else Inl OutOfBounds)"
  by (auto simp: sys_readwrite_def read_into_def count_of_def mem_write_def mem_read_def overlay_def split: option.splits)

definition syscall_main :: "int \<Rightarrow> char list \<times> string" where
  "syscall_main a0 = (let buf = ''Hello World'' @ [NL] in
     (take (length (c_str (buf @ [NUL]))) buf, ''res = '' @ dec_int a0 @ [NL]))"

text \<open>
  \<open>open.c\<close>: ten lines appended to a file; \<open>times\<close> are the results of \<open>ctime\<close>, and a descriptor
  that could not be opened makes the writes fail.
\<close>

definition open_line :: "string \<Rightarrow> int \<Rightarrow> string" where
  "open_line t pid = t @ '' PID:'' @ dec_int pid @ [NL]"

fun open_loop10 :: "int \<Rightarrow> int \<Rightarrow> char list \<Rightarrow> string list \<Rightarrow> char list res" where
  "open_loop10 fd pid buf [] = Inr []"
| "open_loop10 fd pid buf (t # ts) =
     and_then (mem_write buf 0 (open_line t pid @ [NUL])) (\<lambda>buf.
     and_then (open_loop10 fd pid buf ts) (\<lambda>out. Inr ((if 0 \<le> fd then c_str buf else []) @ out)))"

lemma open_log_lines:
  assumes "length buf = 256" "\<forall>t \<in> set ts. length t \<le> 26 \<and> NUL \<notin> set t"
  shows "open_loop10 fd (s32 pid) buf ts = Inr (if 0 \<le> fd then concat (map (\<lambda>t. open_line t (s32 pid)) ts) else [])"
  using assms
proof (induction ts arbitrary: buf)
  case (Cons t ts)
  have n: "NUL \<notin> set (open_line t (s32 pid))" using Cons.prems(2) dec_int_no_nul [of "s32 pid"]
    by (auto simp: open_line_def NUL_def NL_def)
  have "length (open_line t (s32 pid)) < 256" using Cons.prems(2) length_dec_int_s32 [of pid] by (simp add: open_line_def)
  then have w: "mem_write buf 0 (open_line t (s32 pid) @ [NUL]) = Inr (overlay buf 0 (open_line t (s32 pid) @ [NUL]))"
    "length (overlay buf 0 (open_line t (s32 pid) @ [NUL])) = 256" using Cons.prems(1) by (simp_all add: mem_write_def)
  have "c_str (overlay buf 0 (open_line t (s32 pid) @ [NUL])) = open_line t (s32 pid)"
    using c_str_app [OF n] by (simp add: overlay_def)
  then show ?case using w Cons by simp
qed simp

end
