(* ===== verification/Delivery.thy ===== *)
theory Delivery
  imports Messages
begin

text \<open>
  The two processes of each message program running side by side: \<open>C/pipe.c\<close>, \<open>C/named_pipe.c\<close>,
  \<open>C/mqueue.c\<close>, and the server \<open>C/unix_socket.c\<close> with its client \<open>C/unix_socket_cl.c\<close>, which are
  started separately. What is printed of the message received is the business of \<open>Messages\<close>;
  here it is whether it arrives.
\<close>

section \<open>All ends of all runs\<close>

text \<open>
  The states in which the runs of a system end, by trying every schedule; \<open>None\<close> when some run
  takes \<open>n\<close> steps or more.
\<close>

fun ends :: "('s \<Rightarrow> 's list) \<Rightarrow> nat \<Rightarrow> 's \<Rightarrow> 's list option" where
  "ends nx 0 s = None"
| "ends nx (Suc n) s = (case nx s of [] \<Rightarrow> Some [s] | t # ts \<Rightarrow> map_option concat (those (map (ends nx n) (t # ts))))"

lemma those_SomeD: "those xs = Some ys \<Longrightarrow> Some y \<in> set xs \<Longrightarrow> y \<in> set ys"
  by (induction xs arbitrary: ys) (auto split: option.splits)

lemma those_in: "those xs = Some ys \<Longrightarrow> x \<in> set xs \<Longrightarrow> \<exists>y \<in> set ys. x = Some y"
  by (induction xs arbitrary: ys) (auto split: option.splits)

lemma ends_next:
  assumes "ends nx (Suc n) s = Some fs" "t \<in> set (nx s)"
  obtains gs where "ends nx n t = Some gs" "set gs \<subseteq> set fs"
proof -
  obtain ys where ys: "those (map (ends nx n) (nx s)) = Some ys" "fs = concat ys"
    using assms by (auto split: list.splits)
  then obtain gs where "gs \<in> set ys" "ends nx n t = Some gs" using those_in [OF ys(1), of "ends nx n t"] assms(2) by auto
  with ys(2) that show thesis by auto
qed

lemma ends_complete:
  assumes "(\<lambda>s t. t \<in> set (nx s))\<^sup>*\<^sup>* s t" "ends nx n s = Some fs" "nx t = []"
  shows "t \<in> set fs"
  using assms
proof (induction arbitrary: n fs rule: converse_rtranclp_induct)
  case base
  then show ?case by (cases n) auto
next
  case (step s u)
  then obtain m where m: "n = Suc m" by (cases n) auto
  obtain gs where "ends nx m u = Some gs" "set gs \<subseteq> set fs"
    using ends_next [OF step.prems(1) [unfolded m] step.hyps(1)] .
  then show ?case using step.IH [of m gs] step.prems(2) by blast
qed

lemma ends_bound:
  assumes "((\<lambda>s t. t \<in> set (nx s)) ^^ k) s t" "ends nx n s = Some fs"
  shows "k < n"
  using assms
proof (induction k arbitrary: n fs s)
  case 0
  then show ?case by (cases n) auto
next
  case (Suc k)
  from relpowp_Suc_D2 [OF Suc.prems(1)] obtain u where u: "u \<in> set (nx s)" "((\<lambda>s t. t \<in> set (nx s)) ^^ k) u t" by blast
  obtain m where m: "n = Suc m" using Suc.prems(2) by (cases n) auto
  obtain gs where "ends nx m u = Some gs" using ends_next [OF Suc.prems(2) [unfolded m] u(1)] .
  then show ?case using Suc.IH [OF u(2)] m by simp
qed

section \<open>Receiver and sender\<close>

text \<open>
  The calls, including the descriptors a process closes when it ends; \<open>Listen\<close> is all from
  \<open>socket\<close> to \<open>listen\<close>. Opening a named pipe
  waits for the other side: \<open>AwaitWr\<close> and \<open>AwaitRd\<close> are the second half of the call.
\<close>

datatype icall =
    CloseRd | CloseWr | OpenRd | OpenWr | AwaitWr | AwaitRd | Send "char list" | Recv nat
  | MqSend "char list" | MqRecv nat | MqUnlink
  | Listen | Accept | Connect | SockSend "char list" | SaySent | Show

text \<open>
  \<open>rd_ends\<close>, \<open>wr_ends\<close> count the open ends of the pipe or connection; \<open>rd_seen\<close>, \<open>wr_seen\<close>: the named pipe
  has been opened on that side; \<open>got\<close> is what the receiver's read returned.
\<close>

record ipc =
  receiver :: "icall list"
  sender :: "icall list"
  stream :: "char list"
  rd_ends :: nat
  wr_ends :: nat
  rd_seen :: bool
  wr_seen :: bool
  queue :: "char list list"
  listens :: bool
  linked :: bool
  got :: "char list option"
  shown :: bool
  said_sent :: bool

definition idle :: ipc where
  "idle = \<lparr>receiver = [], sender = [], stream = [], rd_ends = 0, wr_ends = 0, rd_seen = False, wr_seen = False, queue = [],
     listens = False, linked = False, got = None, shown = False, said_sent = False\<rparr>"

text \<open>
  One call of one process: no result while it blocks. A write to a pipe without a reader ends the
  process; a connection to a socket that does not listen fails, and so does the write on it,
  and the client goes on; a queue holds ten messages; \<open>mq_receive\<close> fails when its buffer is smaller
  than the 100 bytes a message may have.
\<close>

fun call_step :: "icall \<Rightarrow> ipc \<Rightarrow> ipc list" where
  "call_step CloseRd s = [s\<lparr>rd_ends := rd_ends s - 1\<rparr>]"
| "call_step CloseWr s = [s\<lparr>wr_ends := wr_ends s - 1\<rparr>]"
| "call_step OpenRd s = [s\<lparr>rd_ends := rd_ends s + 1, rd_seen := True\<rparr>]"
| "call_step OpenWr s = [s\<lparr>wr_ends := wr_ends s + 1, wr_seen := True\<rparr>]"
| "call_step AwaitWr s = (if wr_seen s then [s] else [])"
| "call_step AwaitRd s = (if rd_seen s then [s] else [])"
| "call_step (Send bs) s = (if rd_ends s = 0 then [s\<lparr>sender := [], wr_ends := 0\<rparr>] else [s\<lparr>stream := stream s @ bs\<rparr>])"
| "call_step (Recv n) s =
     (if stream s \<noteq> [] then [s\<lparr>got := Some (take n (stream s)), stream := drop n (stream s)\<rparr>]
      else if wr_ends s = 0 then [s\<lparr>got := Some []\<rparr>] else [])"
| "call_step (MqSend m) s = (if length (queue s) < 10 then [s\<lparr>queue := queue s @ [m]\<rparr>] else [])"
| "call_step (MqRecv n) s = (if n < 100 then [s\<lparr>got := None\<rparr>] else
     case queue s of [] \<Rightarrow> [] | m # ms \<Rightarrow> [s\<lparr>got := Some m, queue := ms\<rparr>])"
| "call_step MqUnlink s = [s]"
| "call_step Listen s = [s\<lparr>listens := True\<rparr>]"
| "call_step Accept s = (if linked s then [s] else [])"
| "call_step Connect s = (if listens s then [s\<lparr>linked := True, wr_ends := 1\<rparr>] else [s])"
| "call_step (SockSend bs) s = (if linked s then [s\<lparr>stream := stream s @ bs\<rparr>] else [s])"
| "call_step SaySent s = [s\<lparr>said_sent := True\<rparr>]"
| "call_step Show s = [s\<lparr>shown := True\<rparr>]"

definition ipc_next :: "ipc \<Rightarrow> ipc list" where
  "ipc_next s = (case receiver s of [] \<Rightarrow> [] | c # cs \<Rightarrow> call_step c (s\<lparr>receiver := cs\<rparr>)) @
     (case sender s of [] \<Rightarrow> [] | c # cs \<Rightarrow> call_step c (s\<lparr>sender := cs\<rparr>))"

abbreviation ipc_run :: "ipc \<Rightarrow> ipc \<Rightarrow> bool" where
  "ipc_run \<equiv> (\<lambda>s t. t \<in> set (ipc_next s))\<^sup>*\<^sup>*"

section \<open>The programs\<close>

text \<open>After \<open>pipe\<close> and \<open>fork\<close> both ends are open in both processes.\<close>

definition pipe_start :: ipc where
  "pipe_start = idle\<lparr>rd_ends := 2, wr_ends := 2,
     sender := [CloseRd, Send pipe_child, CloseWr], receiver := [CloseWr, Recv 20, Show, CloseRd]\<rparr>"

definition fifo_start :: ipc where
  "fifo_start = idle\<lparr>receiver := [OpenRd, AwaitWr, Recv 100, Show, CloseRd],
     sender := [OpenWr, AwaitRd, Send named_pipe_parent, CloseWr]\<rparr>"

text \<open>\<open>mq_open\<close> does not insist on a new queue: \<open>old\<close> is what an earlier run left in it.\<close>

definition mqueue_start :: "char list list \<Rightarrow> ipc" where
  "mqueue_start old = idle\<lparr>queue := old, receiver := [MqRecv 100, Show], sender := [MqSend mqueue_parent, MqUnlink]\<rparr>"

definition socket_server :: "icall list" where
  "socket_server = [Listen, Accept, Recv 99, Show]"

definition socket_client :: "icall list" where
  "socket_client = [Connect, SockSend unix_client, SaySent, CloseWr]"

definition socket_start :: ipc where
  "socket_start = idle\<lparr>receiver := socket_server, sender := socket_client\<rparr>"

lemma call_results: "pipe_child = ''Hello Pipe''" "named_pipe_parent = ''Hello Named Pipe'' @ [NUL]"
    "mqueue_parent = ''Hello Message Queue''" "unix_client = ''Sending from Client''"
  by (simp_all add: message_defs c_str_def NUL_def)

lemmas start_defs = pipe_start_def fifo_start_def mqueue_start_def socket_start_def socket_server_def socket_client_def idle_def

lemma pipe_ends: "\<exists>fs. ends ipc_next 20 pipe_start = Some fs \<and>
    list_all (\<lambda>t. receiver t = [] \<and> sender t = [] \<and> shown t \<and> got t = Some pipe_child) fs"
  by (simp add: start_defs ipc_next_def call_results eval_nat_numeral)

lemma fifo_ends: "\<exists>fs. ends ipc_next 20 fifo_start = Some fs \<and>
    list_all (\<lambda>t. receiver t = [] \<and> sender t = [] \<and> shown t \<and> got t = Some named_pipe_parent) fs"
  by (simp add: start_defs ipc_next_def call_results eval_nat_numeral)

lemma mqueue_ends:
  assumes "length old \<le> 10"
  shows "\<exists>fs. ends ipc_next 20 (mqueue_start old) = Some fs \<and>
    list_all (\<lambda>t. receiver t = [] \<and> sender t = [] \<and> shown t \<and> got t = Some (hd (old @ [mqueue_parent]))) fs"
proof (cases old)
  case Nil
  then show ?thesis by (simp add: start_defs ipc_next_def call_results eval_nat_numeral)
next
  case (Cons m ms)
  with assms consider "length ms < 9" | "length ms = 9" by fastforce
  then show ?thesis
    by cases (simp_all add: Cons start_defs ipc_next_def call_results eval_nat_numeral)
qed

lemma socket_ends: "\<exists>fs. ends ipc_next 20 socket_start = Some fs \<and>
    list_all (\<lambda>t. sender t = [] \<and> said_sent t \<and>
      (receiver t = [] \<and> shown t \<and> got t = Some unix_client \<or> receiver t = [Accept, Recv 99, Show] \<and> \<not> linked t)) fs \<and>
    list_ex (\<lambda>t. receiver t = []) fs \<and> list_ex (\<lambda>t. receiver t \<noteq> []) fs"
  by (simp add: start_defs ipc_next_def call_results eval_nat_numeral)

lemma every_end:
  assumes "\<exists>fs. ends ipc_next n s = Some fs \<and> list_all P fs" "ipc_run s t" "ipc_next t = []"
  shows "P t"
  using ends_complete [OF assms(2) _ assms(3)] assms(1) by (auto simp: list_all_iff)

text \<open>
  C22: whether the message arrives, in every schedule of the two processes. Through the pipe and
  through the named pipe it does: all runs end, both processes with them, and the receiver has
  read the whole message and nothing else. The queue is opened whether or not it is new, so the
  receiver gets the oldest message in it: this run's, or what an earlier run left behind. The
  client of the socket reports its message as sent in any case; when it connects before the server
  listens, the message is lost and the server waits for ever.
\<close>

theorem messages_delivered:
  assumes "length old \<le> 10"
  shows "(ipc_run pipe_start t \<and> ipc_next t = [] \<longrightarrow> receiver t = [] \<and> sender t = [] \<and> shown t \<and> got t = Some pipe_child) \<and>
    (ipc_run fifo_start t \<and> ipc_next t = [] \<longrightarrow> receiver t = [] \<and> sender t = [] \<and> shown t \<and> got t = Some named_pipe_parent) \<and>
    (ipc_run (mqueue_start old) t \<and> ipc_next t = [] \<longrightarrow>
      receiver t = [] \<and> sender t = [] \<and> shown t \<and> got t = Some (hd (old @ [mqueue_parent]))) \<and>
    (ipc_run socket_start t \<and> ipc_next t = [] \<longrightarrow> sender t = [] \<and> said_sent t \<and>
      (receiver t = [] \<and> shown t \<and> got t = Some unix_client \<or> receiver t = [Accept, Recv 99, Show] \<and> \<not> linked t)) \<and>
    (\<forall>s \<in> {pipe_start, fifo_start, mqueue_start old, socket_start}. \<forall>k u. ((\<lambda>s t. t \<in> set (ipc_next s)) ^^ k) s u \<longrightarrow> k < 20)"
proof (intro conjI ballI allI impI)
  have "\<exists>fs. ends ipc_next 20 socket_start = Some fs \<and> list_all (\<lambda>t. sender t = [] \<and> said_sent t \<and>
      (receiver t = [] \<and> shown t \<and> got t = Some unix_client \<or> receiver t = [Accept, Recv 99, Show] \<and> \<not> linked t)) fs"
    using socket_ends by blast
  note E = every_end [OF pipe_ends] every_end [OF fifo_ends] every_end [OF mqueue_ends [OF assms]] every_end [OF this]
  show "receiver t = []" "sender t = []" "shown t" "got t = Some pipe_child" if "ipc_run pipe_start t \<and> ipc_next t = []"
    using E(1) that by blast+
  show "receiver t = []" "sender t = []" "shown t" "got t = Some named_pipe_parent" if "ipc_run fifo_start t \<and> ipc_next t = []"
    using E(2) that by blast+
  show "receiver t = []" "sender t = []" "shown t" "got t = Some (hd (old @ [mqueue_parent]))"
    if "ipc_run (mqueue_start old) t \<and> ipc_next t = []"
    using E(3) that by blast+
  show "sender t = []" "said_sent t"
    "receiver t = [] \<and> shown t \<and> got t = Some unix_client \<or> receiver t = [Accept, Recv 99, Show] \<and> \<not> linked t"
    if "ipc_run socket_start t \<and> ipc_next t = []"
    using E(4) that by blast+
  fix s k u
  assume s: "s \<in> {pipe_start, fifo_start, mqueue_start old, socket_start}" and run: "((\<lambda>s t. t \<in> set (ipc_next s)) ^^ k) s u"
  have "\<exists>fs. ends ipc_next 20 s = Some fs"
    using s pipe_ends fifo_ends mqueue_ends [OF assms] socket_ends by blast
  then show "k < 20" using ends_bound [OF run] by blast
qed

text \<open>A client that comes too early: it says that it has sent, and the server waits.\<close>

definition too_early :: ipc where
  "too_early = idle\<lparr>receiver := [Accept, Recv 99, Show], listens := True, said_sent := True\<rparr>"

theorem messages_delivered_witness:
  "ipc_run socket_start too_early \<and> ipc_next too_early = [] \<and> said_sent too_early \<and> receiver too_early \<noteq> []"
proof -
  have n: "ipc_next too_early = []" by (simp add: too_early_def idle_def ipc_next_def)
  let ?a = "socket_start\<lparr>sender := [SockSend unix_client, SaySent, CloseWr]\<rparr>" and ?b = "socket_start\<lparr>sender := [SaySent, CloseWr]\<rparr>"
  let ?c = "socket_start\<lparr>sender := [CloseWr], said_sent := True\<rparr>" and ?d = "socket_start\<lparr>sender := [], said_sent := True\<rparr>"
  have "?a \<in> set (ipc_next socket_start)" "?b \<in> set (ipc_next ?a)" "?c \<in> set (ipc_next ?b)" "?d \<in> set (ipc_next ?c)"
    "too_early \<in> set (ipc_next ?d)"
    by (simp_all add: start_defs too_early_def ipc_next_def)
  then have "ipc_run socket_start too_early"
    by (meson converse_rtranclp_into_rtranclp rtranclp.rtrancl_refl)
  with n messages_delivered [of "[]" too_early] show ?thesis by (auto simp: too_early_def)
qed

end
