(* ===== verification/SmallPrograms.thy ===== *)
theory SmallPrograms
  imports MapPrograms Pipeline
begin

text \<open>
  Two short programs on models that are there already: \<open>C/sbrk.c\<close>, which moves the end of its heap and
  writes behind the old one, on the address space; and \<open>C/exectest.c\<close>, which runs one program in a
  child and waits for it, on the processes of \<open>Pipeline\<close>.
\<close>

section \<open>sbrk.c\<close>

text \<open>
  A process with the end of its heap. \<open>sbrk\<close> is the C library's and the kernel's: it returns the old end, or
  \<open>(void *)-1\<close>, which is \<open>MAP_FAILED\<close> as a number, and then leaves everything as it was.
\<close>

record heap =
  space :: vm
  brk :: int

type_synonym sbrk_call = "heap \<Rightarrow> int \<Rightarrow> int \<times> heap"

definition grown :: "heap \<Rightarrow> int \<Rightarrow> heap \<Rightarrow> bool" where
  "grown h n h' \<longleftrightarrow> brk h' = brk h + n \<and> brk h' \<le> TASK_SIZE \<and>
     range_prot can_read (space h') (brk h) (brk h') \<and> range_prot can_write (space h') (brk h) (brk h')"

definition sbrk_doc :: "sbrk_call \<Rightarrow> bool" where
  "sbrk_doc S \<longleftrightarrow> (\<forall>h. S h 0 = (brk h, h)) \<and>
     (\<forall>h n. 0 < n \<longrightarrow> (case S h n of (r, h') \<Rightarrow> r = MAP_FAILED \<and> h' = h \<or> r = brk h \<and> grown h n h'))"

text \<open>The result of the second call is not looked at. The line printed: \<open>end1\<close>, \<open>end2\<close>, \<open>p\<close>, \<open>*p\<close>.\<close>

definition sbrk_main :: "sbrk_call \<Rightarrow> heap \<Rightarrow> trap + (int \<times> int \<times> int \<times> int) \<times> int" where
  "sbrk_main S h =
     (case S h 0 of (end1, h) \<Rightarrow>
      case S h 0x2000 of (_, h) \<Rightarrow>
      case S h 0 of (end2, h) \<Rightarrow>
        let p = u32 (end1 + 0x1000) in
        and_then (store_int (space h) p 1) (\<lambda>v.
        and_then (load_int v p) (\<lambda>x. Inr ((end1, end2, p, x), 0))))"

text \<open>
  When the heap grows, the program prints its two ends 8192 bytes apart, the pointer in the middle and the
  1 it stored there. When it does not, nothing notices: the program then dies on the store, unless
  something else happens to be mapped behind its heap.
\<close>

lemma sbrk_outcome:
  assumes S: "sbrk_doc S" and h: "0 \<le> brk h" "brk h + 0x1000 < 4294967296"
  shows "sbrk_main S h = Inr ((brk h, brk h + 0x2000, brk h + 0x1000, 1), 0) \<or>
    fst (S h 0x2000) = MAP_FAILED \<and>
    (\<not> allowed can_write (space h) (brk h + 0x1000) 4 \<longrightarrow> sbrk_main S h = Inl (Segv (brk h + 0x1000)))"
proof -
  have p: "u32 (brk h + 0x1000) = brk h + 0x1000" using h by (intro u32_id) auto
  obtain r h' where g: "S h 0x2000 = (r, h')" by fastforce
  have s0: "S x 0 = (brk x, x)" for x using S by (simp add: sbrk_doc_def)
  have "r = MAP_FAILED \<and> h' = h \<or> r = brk h \<and> grown h 0x2000 h'"
    using S g unfolding sbrk_doc_def by (auto dest!: spec [of _ h] spec [of _ "0x2000 :: int"])
  then show ?thesis
  proof
    assume "r = MAP_FAILED \<and> h' = h"
    moreover have "store_int (space h) (brk h + 0x1000) 1 = Inl (Segv (brk h + 0x1000))"
      if "\<not> allowed can_write (space h) (brk h + 0x1000) 4" using that by (simp add: store_int_def store_def)
    ultimately show ?thesis by (simp add: sbrk_main_def s0 g p Let_def)
  next
    assume "r = brk h \<and> grown h 0x2000 h'"
    then have r: "range_prot can_read (space h') (brk h) (brk h + 0x2000)" "range_prot can_write (space h') (brk h) (brk h + 0x2000)"
      and e: "brk h' = brk h + 0x2000" by (auto simp: grown_def)
    have w: "allowed can_read (space h') (brk h + 0x1000) 4" "allowed can_write (space h') (brk h + 0x1000) 4"
      by (rule allowed_in_range [OF r(1)], simp, simp) (rule allowed_in_range [OF r(2)], simp, simp)
    define v where "v = poke (space h') (brk h + 0x1000) (int_bytes 1)"
    have st: "store_int (space h') (brk h + 0x1000) 1 = Inr v" by (simp add: store_int_def store_def w v_def)
    have ld: "load_int v (brk h + 0x1000) = Inr 1" using store_load_int [OF st] w by (simp add: v_def s32_id)
    show ?thesis by (simp add: sbrk_main_def s0 g p st ld e Let_def)
  qed
qed

section \<open>exectest.c\<close>

text \<open>
  \<open>ExecPs\<close> stands for \<open>execv\<close> of a program that writes the lines \<open>ls\<close>. When it fails the child prints its
  message and ends. Without a child, \<open>main\<close> returns 1.
\<close>

definition exec_failed :: string where "exec_failed = ''RETURN from execv() '' @ [NL]"

definition exec_child :: "pcall list" where "exec_child = [ExecPs, Put exec_failed, Exit]"

definition exectest_main :: "bool \<Rightarrow> pcall list" where
  "exectest_main forked = (if forked then [Fork exec_child, Wait, Exit] else [Exit])"

definition exectest_start :: "bool \<Rightarrow> psys" where
  "exectest_start forked = \<lparr>code = (\<lambda>_. [])(0 := exectest_main forked), fdt = (\<lambda>_ _. None)(0 := [0 \<mapsto> Tty, 1 \<mapsto> Tty, 2 \<mapsto> Tty]),
     parent_of = (\<lambda>_. None), next_pid = 1, waited = {}, pipebuf = [], screen = []\<rparr>"

text \<open>The lines the child puts on the screen, and the points at which both processes can be.\<close>

definition exec_lines :: "string list \<Rightarrow> (pcall \<Rightarrow> bool) \<Rightarrow> string list" where
  "exec_lines ls ok = (if ok ExecPs then ls else [exec_failed])"

inductive child_at :: "string list \<Rightarrow> (pcall \<Rightarrow> bool) \<Rightarrow> pcall list \<Rightarrow> string list \<Rightarrow> bool" for ls ok where
  fresh: "child_at ls ok exec_child []"
| writing: "exec_lines ls ok = out @ rest \<Longrightarrow> child_at ls ok (map Put rest @ [Exit]) out"
| gone: "child_at ls ok [] (exec_lines ls ok)"

inductive exectest_at :: "string list \<Rightarrow> (pcall \<Rightarrow> bool) \<Rightarrow> psys \<Rightarrow> bool" for ls ok where
  alone: "code s = (\<lambda>_. [])(0 := exectest_main True) \<Longrightarrow> next_pid s = 1 \<Longrightarrow> screen s = [] \<Longrightarrow> fdt s 0 1 = Some Tty \<Longrightarrow>
    parent_of s = (\<lambda>_. None) \<Longrightarrow> waited s = {} \<Longrightarrow> exectest_at ls ok s"
| both: "code s = (\<lambda>_. [])(0 := [Wait, Exit], 1 := c) \<Longrightarrow> child_at ls ok c (screen s) \<Longrightarrow> c \<noteq> [] \<longrightarrow> fdt s 1 1 = Some Tty \<Longrightarrow>
    parent_of s = [1 \<mapsto> 0] \<Longrightarrow> waited s = {} \<Longrightarrow> exectest_at ls ok s"
| last: "code s = (\<lambda>_. [])(0 := [Exit]) \<Longrightarrow> screen s = exec_lines ls ok \<Longrightarrow> exectest_at ls ok s"
| over: "code s = (\<lambda>_. []) \<Longrightarrow> screen s = exec_lines ls ok \<Longrightarrow> exectest_at ls ok s"

inductive_cases child_putE: "child_at ls ok (Put l # cs) out"
inductive_cases child_execE: "child_at ls ok (ExecPs # cs) out"
inductive_cases child_exitE: "child_at ls ok (Exit # cs) out"
inductive_cases child_goneE: "child_at ls ok [] out"

lemma child_head: "child_at ls ok (c # cs) out \<Longrightarrow> c = ExecPs \<or> (\<exists>l. c = Put l) \<or> c = Exit"
  by (erule child_at.cases) (auto simp: exec_child_def Cons_eq_append_conv Cons_eq_map_conv)

lemma child_exec: "child_at ls ok (ExecPs # cs) out \<Longrightarrow> child_at ls ok (if ok ExecPs then map Put ls @ [Exit] else cs) out"
  using child_at.writing [of ls ok "[]" "[exec_failed]"] child_at.writing [of ls ok "[]" ls]
  by (auto elim!: child_execE simp: exec_child_def exec_lines_def Cons_eq_append_conv Cons_eq_map_conv)

lemma child_put: "child_at ls ok (Put l # cs) out \<Longrightarrow> child_at ls ok cs (out @ [l])"
  using child_at.writing [of ls ok "out @ [l]"]
  by (auto elim!: child_putE simp: exec_child_def Cons_eq_append_conv Cons_eq_map_conv)

lemma child_exit: "child_at ls ok (Exit # cs) out \<Longrightarrow> child_at ls ok [] out"
  using child_at.gone by (auto elim!: child_exitE simp: exec_child_def Cons_eq_append_conv Cons_eq_map_conv)

lemma exectest_step:
  assumes at: "exectest_at ls ok s" and step: "pstep ls sel cap ok s t"
  shows "exectest_at ls ok t"
  using at
proof cases
  case alone
  show ?thesis using step
    by cases (use alone in \<open>auto simp: exectest_main_def split: if_splits intro!: exectest_at.both child_at.fresh\<close>)
next
  case (both c)
  have other: "p = 1 \<and> c = x # xs \<and> child_at ls ok (x # xs) (screen s) \<and> fdt s 1 1 = Some Tty \<or> p = 0 \<and> x # xs = [Wait, Exit]"
    if "code s p = x # xs" for p x xs
    using that both by (auto split: if_splits)
  show ?thesis using step
  proof cases
    case (exec_ps p cs)
    then show ?thesis using other [OF exec_ps(2)] both child_exec [of ls ok cs "screen s"]
      by (auto intro!: exectest_at.both simp: fun_upd_twist)
  next
    case (put_tty p l cs)
    then show ?thesis using other [OF put_tty(2)] both child_put [of ls ok l cs "screen s"]
      by (auto intro!: exectest_at.both simp: fun_upd_twist)
  next
    case (exit p cs)
    then show ?thesis using other [OF exit(2)] both child_exit [of ls ok cs "screen s"]
      by (auto intro!: exectest_at.both simp: fun_upd_twist)
  next
    case (wait_child p cs k)
    have p: "p = 0" "cs = [Exit]" using other [OF wait_child(2)] child_head [of ls ok Wait cs "screen s"] by auto
    have k: "k = 1" using wait_child(3) p(1) both(4) by (simp add: unwaited_def split: if_splits)
    have c: "c = []" using wait_child(4) both(1) by (simp add: k)
    then have "child_at ls ok [] (screen s)" using both(2) by simp
    then have "screen s = exec_lines ls ok" by (rule child_goneE) (simp_all add: exec_child_def)
    then show ?thesis using wait_child(1) both(1) p k c by (intro exectest_at.last) (auto simp: fun_eq_iff)
  next
    case (wait_none p cs)
    have "p = 0" using other [OF wait_none(2)] child_head [of ls ok Wait cs "screen s"] by auto
    moreover have "1 \<in> unwaited 0 s" using both(4,5) by (simp add: unwaited_def)
    ultimately show ?thesis using wait_none(3) by simp
  next
    case (fork p child cs k)
    then show ?thesis using other [OF fork(2)] child_head [of ls ok "Fork child" cs "screen s"] by simp
  next
    case (dup2 p a b cs)
    then show ?thesis using other [OF dup2(2)] child_head [of ls ok "Dup2 a b" cs "screen s"] by simp
  next
    case (close p a cs)
    then show ?thesis using other [OF close(2)] child_head [of ls ok "Close a" cs "screen s"] by simp
  next
    case (exec_grep p cs)
    then show ?thesis using other [OF exec_grep(2)] child_head [of ls ok ExecGrep cs "screen s"] by simp
  next
    case (put_pipe p l cs)
    then show ?thesis using other [OF put_pipe(2)] by simp
  next
    case (put_broken p l cs)
    then show ?thesis using other [OF put_broken(2)] by simp
  next
    case (filter_line p cs l rest)
    then show ?thesis using other [OF filter_line(2)] child_head [of ls ok Filter cs "screen s"] by simp
  next
    case (filter_eof p cs)
    then show ?thesis using other [OF filter_eof(2)] child_head [of ls ok Filter cs "screen s"] by simp
  qed
next
  case last
  show ?thesis using step
    by cases (use last in \<open>auto split: if_splits intro!: exectest_at.over\<close>)
next
  case over
  show ?thesis using step by cases (use over in auto)
qed

lemma exectest_stuck:
  assumes "exectest_at ls ok s" and stuck: "\<forall>t. \<not> pstep ls sel cap ok s t"
  shows "code s = (\<lambda>_. []) \<and> screen s = exec_lines ls ok"
  using assms(1)
proof cases
  case alone
  then have "code s 0 = Fork exec_child # [Wait, Exit]" by (simp add: exectest_main_def)
  then show ?thesis using stuck pstep.fork [OF _ refl] by blast
next
  case (both c)
  have c: "code s 1 = c" using both(1) by simp
  show ?thesis using both(2)
  proof cases
    case fresh
    then have "code s 1 = ExecPs # [Put exec_failed, Exit]" using c by (simp add: exec_child_def)
    then show ?thesis using stuck pstep.exec_ps by blast
  next
    case (writing rest)
    show ?thesis
    proof (cases rest)
      case Nil
      then have "code s 1 = Exit # []" using c writing by simp
      then show ?thesis using stuck pstep.exit by blast
    next
      case (Cons l ls')
      then have "code s 1 = Put l # (map Put ls' @ [Exit])" "fdt s 1 1 = Some Tty" using c writing both(3) by simp_all
      then show ?thesis using stuck pstep.put_tty by blast
    qed
  next
    case gone
    then have "code s 0 = Wait # [Exit]" "1 \<in> unwaited 0 s" "code s 1 = []" using both by (simp_all add: unwaited_def)
    then show ?thesis using stuck pstep.wait_child by blast
  qed
next
  case last
  then have "code s 0 = Exit # []" by simp
  then show ?thesis using stuck pstep.exit by blast
qed simp

text \<open>
  Under every schedule \<open>exectest\<close> ends, and when it cannot move any more both processes are gone and the
  screen has the program's lines, or the message when it could not be executed.
\<close>

lemma exectest_ends:
  shows "\<exists>t. (pstep ls sel cap ok)\<^sup>*\<^sup>* (exectest_start True) t \<and> (\<forall>u. \<not> pstep ls sel cap ok t u)"
    and "(pstep ls sel cap ok)\<^sup>*\<^sup>* (exectest_start True) t \<Longrightarrow> \<forall>u. \<not> pstep ls sel cap ok t u \<Longrightarrow>
      code t = (\<lambda>_. []) \<and> screen t = exec_lines ls ok"
proof -
  show "\<exists>t. (pstep ls sel cap ok)\<^sup>*\<^sup>* (exectest_start True) t \<and> (\<forall>u. \<not> pstep ls sel cap ok t u)"
    by (rule pstep_stops) (simp add: pids_ok_def exectest_start_def)
  assume r: "(pstep ls sel cap ok)\<^sup>*\<^sup>* (exectest_start True) t" and stuck: "\<forall>u. \<not> pstep ls sel cap ok t u"
  have "exectest_at ls ok (exectest_start True)" by (rule exectest_at.alone) (simp_all add: exectest_start_def)
  with r have "exectest_at ls ok t" by (induction rule: rtranclp_induct) (auto intro: exectest_step)
  then show "code t = (\<lambda>_. []) \<and> screen t = exec_lines ls ok" using exectest_stuck stuck by blast
qed

end
