(* ===== verification/IrqLine.thy ===== *)
theory IrqLine
  imports IrqModules
begin

text \<open>
  An interrupt line in time. The hard handler runs at every edge; the thread handler runs when the
  scheduler gets to it. In between there is one flag: the thread is wanted. Edges that come before
  the thread has started are served together. The locale is what a pair of handlers promises; it
  is interpreted on \<open>modules/sysfs.c\<close> here and on \<open>modules/gpio-sim-int.c\<close> in \<open>GpioBus\<close>.
\<close>

section \<open>The line\<close>

datatype irq_event = Edge int | Thread

record 's irq_line =
  wanted :: bool
  device :: 's

fun irq_handle :: "(int \<Rightarrow> 's \<Rightarrow> irqreturn \<times> 's) \<Rightarrow> ('s \<Rightarrow> irqreturn \<times> 's) \<Rightarrow> irq_event \<Rightarrow> 's irq_line \<Rightarrow> 's irq_line" where
  "irq_handle hard thread (Edge now) l =
     (case hard now (device l) of (r, s) \<Rightarrow> \<lparr>wanted = wanted l \<or> r = IRQ_WAKE_THREAD, device = s\<rparr>)"
| "irq_handle hard thread Thread l =
     (if wanted l then \<lparr>wanted = False, device = snd (thread (device l))\<rparr> else l)"

abbreviation irq_run :: "(int \<Rightarrow> 's \<Rightarrow> irqreturn \<times> 's) \<Rightarrow> ('s \<Rightarrow> irqreturn \<times> 's) \<Rightarrow> irq_event list \<Rightarrow> 's irq_line \<Rightarrow> 's irq_line" where
  "irq_run hard thread \<equiv> fold (irq_handle hard thread)"

text \<open>The times of the edges; how often the thread runs; whether it is still wanted at the end; and
  histories in which it runs between any two edges.\<close>

fun edge_times :: "irq_event list \<Rightarrow> int list" where
  "edge_times [] = []"
| "edge_times (Edge now # es) = now # edge_times es"
| "edge_times (Thread # es) = edge_times es"

fun thread_runs :: "bool \<Rightarrow> irq_event list \<Rightarrow> nat" where
  "thread_runs w [] = 0"
| "thread_runs w (Edge now # es) = thread_runs True es"
| "thread_runs w (Thread # es) = of_bool w + thread_runs False es"

fun still_wanted :: "bool \<Rightarrow> irq_event list \<Rightarrow> bool" where
  "still_wanted w [] = w"
| "still_wanted w (Edge now # es) = still_wanted True es"
| "still_wanted w (Thread # es) = still_wanted False es"

fun spaced :: "bool \<Rightarrow> irq_event list \<Rightarrow> bool" where
  "spaced w [] = True"
| "spaced w (Edge now # es) = (\<not> w \<and> spaced True es)"
| "spaced w (Thread # es) = spaced False es"

lemma thread_runs_le: "thread_runs w es + of_bool (still_wanted w es) \<le> length (edge_times es) + of_bool w"
  by (induction w es rule: thread_runs.induct) (auto simp: le_Suc_eq)

lemma thread_runs_spaced: "spaced w es \<Longrightarrow> thread_runs w es + of_bool (still_wanted w es) = length (edge_times es) + of_bool w"
  by (induction w es rule: thread_runs.induct) auto

lemma thread_runs_some: "w \<or> edge_times es \<noteq> [] \<Longrightarrow> 0 < thread_runs w es + of_bool (still_wanted w es)"
  by (induction w es rule: thread_runs.induct) auto

section \<open>What the handlers promise\<close>

text \<open>
  The hard handler always asks for its thread, and leaves the count alone; each run of the thread
  counts one, in 32 bits.
\<close>

locale threaded_irq =
  fixes hard :: "int \<Rightarrow> 's \<Rightarrow> irqreturn \<times> 's" and thread :: "'s \<Rightarrow> irqreturn \<times> 's" and runs_of :: "'s \<Rightarrow> int"
  assumes hard_wakes: "fst (hard now s) = IRQ_WAKE_THREAD"
    and hard_count: "runs_of (snd (hard now s)) = runs_of s"
    and thread_count: "runs_of (snd (thread s)) = s32 (runs_of s + 1)"
begin

lemma wanted_after: "wanted (irq_run hard thread es l) = still_wanted (wanted l) es"
proof (induction es arbitrary: l)
  case (Cons e es)
  then show ?case using hard_wakes by (cases e) (auto split: prod.splits simp: prod_eq_iff)
qed simp

lemma count_after:
  assumes "runs_of (device l) = s32 k"
  shows "runs_of (device (irq_run hard thread es l)) = s32 (k + int (thread_runs (wanted l) es))"
  using assms
proof (induction es arbitrary: l k)
  case (Cons e es)
  show ?case
  proof (cases e)
    case (Edge now)
    obtain s where h: "hard now (device l) = (IRQ_WAKE_THREAD, s)" "runs_of s = s32 k"
      using hard_wakes [of now "device l"] hard_count [of now "device l"] Cons.prems by (cases "hard now (device l)") auto
    then show ?thesis using Edge Cons.IH [of "\<lparr>wanted = True, device = s\<rparr>" k] by simp
  next
    case Thread
    have "runs_of (snd (thread (device l))) = s32 (k + 1)" using Cons.prems by (simp add: thread_count s32_add_left)
    then show ?thesis using Thread Cons.prems Cons.IH [of "\<lparr>wanted = False, device = snd (thread (device l))\<rparr>" "k + 1"] Cons.IH [of l k]
      by (auto simp: algebra_simps)
  qed
qed simp

text \<open>No edge is forgotten for good: after the last one the thread has run or is wanted.\<close>

lemma no_edge_lost:
  assumes "\<not> wanted l" "runs_of (device l) = s32 k" "edge_times es \<noteq> []"
  shows "\<exists>n. runs_of (device (irq_run hard thread es l)) = s32 (k + int n) \<and> n \<le> length (edge_times es) \<and>
    (n = 0 \<longrightarrow> wanted (irq_run hard thread es l)) \<and>
    (spaced False es \<longrightarrow> n + of_bool (wanted (irq_run hard thread es l)) = length (edge_times es))"
  using count_after [OF assms(2), of es] assms(1) thread_runs_le [of False es] thread_runs_spaced [of False es]
    thread_runs_some [of False es] assms(3)
  by (intro exI [of _ "thread_runs False es"]) (auto simp: wanted_after)

end

interpretation sysfs_irq: threaded_irq "\<lambda>_. sysfs_hardirq_handler" sysfs_thread_handler "\<lambda>s. s32 (int (bottom_calls s))"
  by unfold_locales (simp_all add: sysfs_hardirq_handler_def sysfs_thread_handler_def s32_add_left, simp add: add.commute)

end
