(* ===== verification/GpioBus.thy ===== *)
theory GpioBus
  imports GpioSim IrqLine
begin

text \<open>
  The simulated GPIO lines under the drivers of \<open>GpioSim\<close>: the lookup tables of the sources, the
  kernel's search through them, and the switch whose rising edges interrupt. The lines are set up
  by \<open>modules/setup-gpiosim.sh\<close> and the switch is moved by \<open>modules/pull.sh\<close>.
\<close>

section \<open>Lookup tables\<close>

record gpiod_lookup =
  key :: string
  chip_hwnum :: int
  con_id :: string
  active_low :: bool

record gpiod_lookup_table =
  dev_id :: string
  table :: "gpiod_lookup list"

definition U16_MAX :: int where "U16_MAX = 65535"

definition demo_lookup :: gpiod_lookup_table where
  "demo_lookup = \<lparr>dev_id = ''gpio-sim-demo'', table =
     [\<lparr>key = ''SW0'', chip_hwnum = U16_MAX, con_id = ''sw'', active_low = False\<rparr>,
      \<lparr>key = ''LED0'', chip_hwnum = U16_MAX, con_id = ''led'', active_low = False\<rparr>]\<rparr>"

definition int_lookup :: gpiod_lookup_table where
  "int_lookup = \<lparr>dev_id = ''gpio-sim-demo'', table =
     [\<lparr>key = ''SW0'', chip_hwnum = U16_MAX, con_id = ''sw'', active_low = False\<rparr>,
      \<lparr>key = ''LED0'', chip_hwnum = U16_MAX, con_id = ''led'', active_low = False\<rparr>]\<rparr>"

text \<open>The name of the driver, of its device, and of the device the table is for.\<close>

definition gpio_driver_name :: string where "gpio_driver_name = ''gpio-sim-demo''"
definition demo_driver_name :: string where "demo_driver_name = ''gpio-sim-demo''"
definition pdev_name :: string where "pdev_name = ''gpio-sim-demo''"

section \<open>Lines\<close>

record gline =
  level :: int
  taken :: bool

text \<open>Lines by name; the lines of a chip by its label and their offsets; the tables registered.\<close>

record gpio_bus =
  lines :: "string \<Rightarrow> gline option"
  chips :: "string \<Rightarrow> int \<Rightarrow> string option"
  tables :: "gpiod_lookup_table list"

definition ENOENT_GPIO :: int where "ENOENT_GPIO = 2"
definition EBUSY_GPIO :: int where "EBUSY_GPIO = 16"
definition EPROBE_DEFER :: int where "EPROBE_DEFER = 517"

text \<open>
  The kernel's search: the first table for the device, in it the first entry for the function. With
  \<open>U16_MAX\<close> as its number the key is the name of a line. A line that is not there yet is a
  reason to probe again later, which is what \<open>EPROBE_DEFER\<close> is for.
\<close>

definition gpiod_find :: "gpio_bus \<Rightarrow> string \<Rightarrow> string \<Rightarrow> int + string" where
  "gpiod_find b dev con =
     (case find (\<lambda>t. dev_id t = dev) (tables b) of None \<Rightarrow> Inl (- ENOENT_GPIO)
      | Some t \<Rightarrow> (case find (\<lambda>e. con_id e = con) (table t) of None \<Rightarrow> Inl (- ENOENT_GPIO)
        | Some e \<Rightarrow> (case if chip_hwnum e = U16_MAX then Some (key e) else chips b (key e) (chip_hwnum e) of
            None \<Rightarrow> Inl (- EPROBE_DEFER)
          | Some n \<Rightarrow> if lines b n = None then Inl (- EPROBE_DEFER) else Inr n)))"

text \<open>The descriptor, the line, and the bus afterwards; a line asked for as \<open>GPIOD_OUT_LOW\<close> is driven low.\<close>

definition devm_gpiod_get :: "gpio_bus \<Rightarrow> string \<Rightarrow> string \<Rightarrow> bool \<Rightarrow> kptr \<times> string \<times> gpio_bus" where
  "devm_gpiod_get b dev con out =
     (case gpiod_find b dev con of Inl e \<Rightarrow> (ErrPtr e, [], b)
      | Inr n \<Rightarrow> (case lines b n of None \<Rightarrow> (ErrPtr (- EPROBE_DEFER), [], b)
        | Some l \<Rightarrow> if taken l then (ErrPtr (- EBUSY_GPIO), [], b)
            else (Ptr, n, b\<lparr>lines := (lines b)(n \<mapsto> \<lparr>level = (if out then 0 else level l), taken = True\<rparr>)\<rparr>)))"

definition drive :: "string \<Rightarrow> int \<Rightarrow> gpio_bus \<Rightarrow> gpio_bus" where
  "drive n v b = (case lines b n of None \<Rightarrow> b
     | Some l \<Rightarrow> b\<lparr>lines := (lines b)(n \<mapsto> l\<lparr>level := (if v = 0 then 0 else 1)\<rparr>)\<rparr>)"

section \<open>The probe on the bus\<close>

text \<open>
  \<open>my_probe\<close> of \<open>gpio-sim-int.c\<close> with its descriptors looked up: the second is not asked for when the
  first is missing. \<open>irq\<close> and \<open>req\<close> are the results of \<open>gpiod_to_irq\<close> and of the request; \<open>v\<close> is
  the module parameter \<open>ledvalue\<close>.
\<close>

definition int_probe_on :: "gpio_bus \<Rightarrow> int \<Rightarrow> int \<Rightarrow> int \<Rightarrow> int_probe \<times> gpio_bus" where
  "int_probe_on b irq req v =
     (let b = b\<lparr>tables := tables b @ [int_lookup]\<rparr> in
      case devm_gpiod_get b pdev_name ''sw'' False of (sw, _, b) \<Rightarrow>
      case (if IS_ERR sw then (sw, [], b) else devm_gpiod_get b pdev_name ''led'' True) of (led, n, b) \<Rightarrow>
        let p = \<lparr>int_sw = sw, int_led = led, sim_to_irq = irq, devm_request_irq = req, int_ledvalue = v\<rparr> in
        (p, fold (drive n) (snd (snd (int_my_probe p))) b))"

section \<open>The switch\<close>

text \<open>
  The switch is pulled up or down at a time, and the scheduler runs the interrupt thread. The line
  is requested for rising edges only.
\<close>

datatype switch_event = Pull bool int | Schedule

fun switch_edges :: "bool \<Rightarrow> switch_event list \<Rightarrow> irq_event list" where
  "switch_edges up [] = []"
| "switch_edges up (Pull up' now # es) = (if up' \<and> \<not> up then [Edge now] else []) @ switch_edges up' es"
| "switch_edges up (Schedule # es) = Thread # switch_edges up es"

definition switch_run :: "switch_event list \<Rightarrow> int \<Rightarrow> sim_int irq_line" where
  "switch_run es v = irq_run irq_sw_hard irq_sw_thread (switch_edges False es)
     \<lparr>wanted = False, device = \<lparr>ledvalue = v, sim_count = 0, irq_time = 0, led_line = [v]\<rparr>\<rparr>"

interpretation gpio_irq: threaded_irq irq_sw_hard irq_sw_thread sim_count
  by unfold_locales (simp_all add: irq_sw_hard_def irq_sw_thread_def)

lemma tables_match: "gpio_driver_name = pdev_name \<and> demo_driver_name = pdev_name \<and> dev_id int_lookup = pdev_name \<and> demo_lookup = int_lookup"
  by (simp add: gpio_driver_name_def demo_driver_name_def pdev_name_def int_lookup_def demo_lookup_def)

section \<open>What the LED shows\<close>

definition alternating :: "int \<Rightarrow> nat \<Rightarrow> int" where
  "alternating v k = (if even k then v else s32 (1 - v))"

lemma alternating_Suc:
  assumes "- 2147483648 \<le> v" "v \<le> 2147483647"
  shows "s32 (1 - alternating v k) = alternating v (Suc k)"
proof -
  have "s32 (1 - s32 (1 - v)) = s32 (1 - (1 - v))" by (metis diff_conv_add_uminus s32_def signed_take_bit_diff signed_take_bit_signed_take_bit min.idem)
  then show ?thesis using s32_id [of v] assms by (simp add: alternating_def)
qed

lemma led_after:
  assumes v: "- 2147483648 \<le> v" "v \<le> 2147483647"
    and "ledvalue (device l) = alternating v k" "led_line (device l) = map (alternating v) (rev [0..<Suc k])"
  shows "led_line (device (irq_run irq_sw_hard irq_sw_thread es l)) =
    map (alternating v) (rev [0..<Suc (k + thread_runs (wanted l) es)])"
  using assms(3,4)
proof (induction es arbitrary: l k)
  case (Cons e es)
  show ?case
  proof (cases e)
    case (Edge now)
    have "irq_handle irq_sw_hard irq_sw_thread e l = \<lparr>wanted = True, device = (device l)\<lparr>irq_time := now\<rparr>\<rparr>"
      by (simp add: Edge irq_sw_hard_def)
    then show ?thesis using Cons.IH [of "\<lparr>wanted = True, device = (device l)\<lparr>irq_time := now\<rparr>\<rparr>" k] Cons.prems Edge by simp
  next
    case Thread
    define d where "d = snd (irq_sw_thread (device l))"
    have "ledvalue d = alternating v (Suc k)" "led_line d = map (alternating v) (rev [0..<Suc (Suc k)])"
      using Cons.prems alternating_Suc [OF v, of k] by (simp_all add: d_def irq_sw_thread_def Let_def)
    then show ?thesis using Cons.IH [of "\<lparr>wanted = False, device = d\<rparr>" "Suc k"] Cons.IH [of l k] Cons.prems Thread
      by (auto simp: d_def)
  qed
qed simp

lemma time_after: "irq_time (device (irq_run irq_sw_hard irq_sw_thread es l)) = last (irq_time (device l) # edge_times es)"
proof (induction es arbitrary: l)
  case (Cons e es)
  then show ?case by (cases e) (auto simp: irq_sw_hard_def irq_sw_thread_def Let_def)
qed simp

lemma alternating_bit: "v = 0 \<or> v = 1 \<Longrightarrow> alternating v k = (v + int k) mod 2"
  by (cases "even k") (auto simp: alternating_def s32_id elim!: evenE oddE)

lemma alternating_lit:
  assumes "- 2147483648 \<le> v" "v \<le> 2147483647" "v \<noteq> 0" "v \<noteq> 1"
  shows "alternating v k \<noteq> 0"
proof -
  have "s32 (1 - v) \<noteq> 0"
  proof
    assume "s32 (1 - v) = 0"
    then have "take_bit 32 (1 - v) = 0"
      using signed_take_bit_eq_iff_take_bit_eq [of 31 "1 - v" 0] by (simp add: s32_def)
    then have "(1 - v) mod 4294967296 = 0" by (simp add: take_bit_eq_mod)
    then have "4294967296 dvd 1 - v" by (simp only: mod_eq_0_iff_dvd)
    moreover have "0 < \<bar>1 - v\<bar>" "\<bar>1 - v\<bar> < 4294967296" using assms by auto
    ultimately show False using zdvd_not_zless dvd_abs_iff by blast
  qed
  with assms(3) show ?thesis by (simp add: alternating_def)
qed

lemma switch_led:
  assumes "- 2147483648 \<le> v" "v \<le> 2147483647"
  shows "led_line (device (switch_run es v)) = map (alternating v) (rev [0..<Suc (thread_runs False (switch_edges False es))])"
  using led_after [OF assms, of "\<lparr>wanted = False, device = \<lparr>ledvalue = v, sim_count = 0, irq_time = 0, led_line = [v]\<rparr>\<rparr>" 0]
  by (simp add: switch_run_def alternating_def)

lemma find_last: "\<forall>x \<in> set xs. \<not> P x \<Longrightarrow> P y \<Longrightarrow> find P (xs @ [y]) = Some y"
  by (induction xs) auto

lemma gpiod_find_int:
  assumes "\<forall>t \<in> set (tables b). dev_id t \<noteq> pdev_name"
  shows "gpiod_find (b\<lparr>tables := tables b @ [int_lookup]\<rparr>) pdev_name ''sw'' = (if lines b ''SW0'' = None then Inl (- EPROBE_DEFER) else Inr ''SW0'')"
    "gpiod_find (b\<lparr>tables := tables b @ [int_lookup], lines := ls\<rparr>) pdev_name ''led'' = (if ls ''LED0'' = None then Inl (- EPROBE_DEFER) else Inr ''LED0'')"
proof -
  have "find (\<lambda>t. dev_id t = pdev_name) (tables b @ [int_lookup]) = Some int_lookup"
    using find_last [of "tables b" "\<lambda>t. dev_id t = pdev_name"] assms tables_match by blast
  then show "gpiod_find (b\<lparr>tables := tables b @ [int_lookup]\<rparr>) pdev_name ''sw'' = (if lines b ''SW0'' = None then Inl (- EPROBE_DEFER) else Inr ''SW0'')"
    "gpiod_find (b\<lparr>tables := tables b @ [int_lookup], lines := ls\<rparr>) pdev_name ''led'' = (if ls ''LED0'' = None then Inl (- EPROBE_DEFER) else Inr ''LED0'')"
    by (simp_all add: gpiod_find_def int_lookup_def)
qed

text \<open>
  C17: the switch and the LED. With both lines there and free, the probe binds, drives the LED line to
  \<open>ledvalue\<close>, and from then on, in every history of the switch, the LED toggles each time the
  interrupt thread runs, the count is the number of these runs, and the time kept is that of
  the last press. The thread runs at most once per press, exactly once if it runs between any
  two, and after the last press it has run or is wanted: presses that come quicker than the thread
  are one toggle. With a \<open>ledvalue\<close> other than 0 and 1 the LED never goes out. When a line is
  not there the lookup asks for a later probe, but the probe reports success and is not repeated.
\<close>

theorem switch_toggles_led:
  assumes tab: "\<forall>t \<in> set (tables b). dev_id t \<noteq> pdev_name"
    and v: "- 2147483648 \<le> v" "v \<le> 2147483647" and irq: "0 \<le> irq" "0 \<le> req"
    and free: "\<forall>n \<in> {''SW0'', ''LED0''}. \<forall>l. lines b n = Some l \<longrightarrow> \<not> taken l"
  shows "(case int_probe_on b irq req v of (p, b') \<Rightarrow>
      if lines b ''SW0'' = None \<or> lines b ''LED0'' = None
      then int_my_probe p = (0, [Acq KLookupTable], []) \<and> (int_sw p = ErrPtr (- EPROBE_DEFER) \<or> int_led p = ErrPtr (- EPROBE_DEFER))
      else int_my_probe p = (0, [Acq KLookupTable], [v]) \<and> map_option level (lines b' ''LED0'') = Some (if v = 0 then 0 else 1)) \<and>
    (let s = switch_run es v; n = length (led_line (device s)) - 1; presses = edge_times (switch_edges False es) in
      (v = 0 \<or> v = 1 \<longrightarrow> hd (led_line (device s)) = (v + int n) mod 2) \<and>
      (v \<noteq> 0 \<and> v \<noteq> 1 \<longrightarrow> 0 \<notin> set (led_line (device s))) \<and>
      sim_count (device s) = s32 (int n) \<and> n \<le> length presses \<and>
      (presses \<noteq> [] \<longrightarrow> irq_time (device s) = last presses \<and> (n = 0 \<longrightarrow> wanted s)) \<and>
      (spaced False (switch_edges False es) \<longrightarrow> n + of_bool (wanted s) = length presses))" (is "?bind \<and> ?led")
proof
  show ?bind
  proof (cases "lines b ''SW0''")
    case None
    then show ?thesis
      by (simp add: int_probe_on_def devm_gpiod_get_def gpiod_find_int [OF tab] int_my_probe_def Let_def)
  next
    case (Some sw)
    then have sw: "\<not> taken sw" using free by simp
    show ?thesis
    proof (cases "lines b ''LED0''")
      case None
      then show ?thesis using Some sw
        by (simp add: int_probe_on_def devm_gpiod_get_def gpiod_find_int [OF tab] int_my_probe_def Let_def)
    next
      case (Some led)
      then have "\<not> taken led" using free by simp
      then show ?thesis using Some sw irq \<open>lines b ''SW0'' = Some sw\<close>
        by (simp add: int_probe_on_def devm_gpiod_get_def gpiod_find_int [OF tab] int_my_probe_def Let_def drive_def)
    qed
  qed
next
  define es' where "es' = switch_edges False es"
  define n where "n = thread_runs False es'"
  have led: "led_line (device (switch_run es v)) = map (alternating v) (rev [0..<Suc n])"
    using switch_led [OF v] by (simp add: n_def es'_def)
  have run: "sim_count (device (switch_run es v)) = s32 (int n)" "wanted (switch_run es v) = still_wanted False es'"
    "irq_time (device (switch_run es v)) = last (0 # edge_times es')"
    using gpio_irq.count_after [of "\<lparr>wanted = False, device = \<lparr>ledvalue = v, sim_count = 0, irq_time = 0, led_line = [v]\<rparr>\<rparr>" 0 es']
      gpio_irq.wanted_after time_after
    by (simp_all add: switch_run_def n_def es'_def s32_id)
  have facts: "hd (led_line (device (switch_run es v))) = alternating v n" "length (led_line (device (switch_run es v))) - 1 = n"
    "v \<noteq> 0 \<Longrightarrow> v \<noteq> 1 \<Longrightarrow> 0 \<notin> set (led_line (device (switch_run es v)))"
    using alternating_lit [OF v] by (auto simp: led)
  have runs: "n + of_bool (still_wanted False es') \<le> length (edge_times es')"
    "spaced False es' \<Longrightarrow> n + of_bool (still_wanted False es') = length (edge_times es')"
    "edge_times es' \<noteq> [] \<Longrightarrow> n = 0 \<Longrightarrow> still_wanted False es'"
    using thread_runs_le [of False es'] thread_runs_spaced [of False es'] thread_runs_some [of False es'] by (auto simp: n_def)
  show ?led
    unfolding Let_def facts(2) es'_def [symmetric] facts(1) run
    using alternating_bit [of v n] facts(3) runs by auto
qed

text \<open>Two presses before the thread runs, then one more: two toggles.\<close>

definition sim_lines :: gpio_bus where
  "sim_lines = \<lparr>lines = [''SW0'' \<mapsto> \<lparr>level = 0, taken = False\<rparr>, ''LED0'' \<mapsto> \<lparr>level = 0, taken = False\<rparr>], chips = (\<lambda>_ _. None), tables = []\<rparr>"

definition three_presses :: "switch_event list" where
  "three_presses = [Pull True 10, Pull False 11, Pull True 12, Schedule, Pull False 20, Pull True 21, Schedule]"

theorem switch_toggles_led_witness:
  "int_my_probe (fst (int_probe_on sim_lines 5 0 0)) = (0, [Acq KLookupTable], [0]) \<and>
   int_my_probe (fst (int_probe_on (sim_lines\<lparr>lines := (\<lambda>_. None)\<rparr>) 5 0 0)) = (0, [Acq KLookupTable], []) \<and>
   (let s = switch_run three_presses 0 in sim_count (device s) = 2 \<and> hd (led_line (device s)) = 0 \<and> irq_time (device s) = 21) \<and>
   length (edge_times (switch_edges False three_presses)) = 3"
proof -
  have r: "thread_runs False (switch_edges False three_presses) = 2" "edge_times (switch_edges False three_presses) = [10, 12, 21]"
    by (simp_all add: three_presses_def)
  have "length (led_line (device (switch_run three_presses 0))) = 3" by (simp add: switch_led r(1))
  moreover have free: "\<forall>n \<in> {''SW0'', ''LED0''}. \<forall>l. lines sim_lines n = Some l \<longrightarrow> \<not> taken l" "lines sim_lines ''SW0'' \<noteq> None"
    "lines sim_lines ''LED0'' \<noteq> None" "tables sim_lines = []" by (auto simp: sim_lines_def)
  note T = switch_toggles_led [of _ 0 5 0 three_presses, unfolded Let_def case_prod_unfold r]
  have "int_my_probe (fst (int_probe_on sim_lines 5 0 0)) = (0, [Acq KLookupTable], [0])"
    using T [of sim_lines] free by simp
  moreover have "int_my_probe (fst (int_probe_on (sim_lines\<lparr>lines := (\<lambda>_. None)\<rparr>) 5 0 0)) = (0, [Acq KLookupTable], [])"
    using T [of "sim_lines\<lparr>lines := (\<lambda>_. None)\<rparr>"] free by simp
  moreover have "hd (led_line (device (switch_run three_presses 0))) = int (length (led_line (device (switch_run three_presses 0))) - 1) mod 2"
    "sim_count (device (switch_run three_presses 0)) = s32 (int (length (led_line (device (switch_run three_presses 0))) - 1))"
    "irq_time (device (switch_run three_presses 0)) = 21"
    using T [of sim_lines] free by simp_all
  ultimately show ?thesis by (simp add: r s32_id Let_def)
qed

end
