(* ===== verification/PosixCrash.thy ===== *)
theory PosixCrash
  imports SharedMem
begin

text \<open>
  The POSIX workers when calls fail and workers are killed: the three programs
  \<open>C/posix_shm_init.c\<close>, \<open>C/posix_shm_worker.c\<close> and \<open>C/posix_shm_cleanup.c\<close> on the two name
  spaces they use, and the run of the workers with deaths in it.
\<close>

section \<open>The programs\<close>

text \<open>
  The semaphores and the shared memory objects. An object that was created and not yet sized
  (\<open>ftruncate\<close>) is \<open>None\<close>; an access to it is a fault (the program gets \<open>SIGBUS\<close>).
\<close>

record posix_ipc =
  sems :: "nat names"
  shms :: "mybuf option names"

definition SEM_NAME_shm :: string where "SEM_NAME_shm = ''/my_sem''"
definition SHM_NAME_shm :: string where "SHM_NAME_shm = ''/my_shm''"

text \<open>The calls the programs check. An argument \<open>ok\<close> says which of them the kernel grants.\<close>

datatype ipc_call = Shm_open | Ftruncate | Mmap | Sem_open

definition shm_open :: "mybuf option names \<Rightarrow> string \<Rightarrow> bool \<Rightarrow> nat option \<times> mybuf option names" where
  "shm_open ns name creat =
     (case link ns name of
        Some i \<Rightarrow> (Some i, ns)
      | None \<Rightarrow> if creat then (case create ns name None of (i, ns) \<Rightarrow> (Some i, ns)) else (None, ns))"

text \<open>\<open>ftruncate\<close> to the size of the structure: new bytes are zero, an object of that size stays.\<close>

definition ftruncate :: "nat \<Rightarrow> mybuf option names \<Rightarrow> mybuf option names" where
  "ftruncate i ns = ns\<lparr>obj := (obj ns)(i \<mapsto> (case obj ns i of Some (Some mb) \<Rightarrow> Some mb | _ \<Rightarrow> Some blank_mem))\<rparr>"

definition on_mem :: "(mybuf \<Rightarrow> mybuf) \<Rightarrow> nat \<Rightarrow> mybuf option names \<Rightarrow> mybuf option names" where
  "on_mem f i ns = ns\<lparr>obj := (obj ns)(i := map_option (map_option f) (obj ns i))\<rparr>"

definition mb_reset :: "mybuf \<Rightarrow> mybuf" where
  "mb_reset mb = mb\<lparr>mb_count := 0, mb_buf := overlay (mb_buf mb) 0 [NUL]\<rparr>"

text \<open>\<open>main\<close> of \<open>posix_shm_init.c\<close>: the call that failed (its \<open>perror\<close>, with exit status 1) or
  nothing, and the names as they are left.\<close>

definition init_main :: "(ipc_call \<Rightarrow> bool) \<Rightarrow> posix_ipc \<Rightarrow> string option \<times> posix_ipc" where
  "init_main ok s =
     (if \<not> ok Shm_open then (Some ''shm_open'', s)
      else case shm_open (shms s) SHM_NAME_shm True of
        (None, _) \<Rightarrow> (Some ''shm_open'', s)
      | (Some fd, ns) \<Rightarrow>
          if \<not> ok Ftruncate then (Some ''ftruncate'', s\<lparr>shms := ns\<rparr>)
          else let ns = ftruncate fd ns in
          if \<not> ok Mmap then (Some ''mmap'', s\<lparr>shms := ns\<rparr>)
          else let ns = on_mem mb_reset fd ns in
          if \<not> ok Sem_open then (Some ''sem_open'', s\<lparr>shms := ns\<rparr>)
          else case sem_open (sems s) SEM_NAME_shm True 1 of (_, ms) \<Rightarrow> (None, s\<lparr>shms := ns, sems := ms\<rparr>))"

text \<open>The calls of \<open>posix_shm_worker.c\<close> before its critical section: the call that failed, or the
  semaphore and the memory it works with.\<close>

definition worker_open :: "(ipc_call \<Rightarrow> bool) \<Rightarrow> posix_ipc \<Rightarrow> string + nat \<times> nat" where
  "worker_open ok s =
     (case (if ok Sem_open then fst (sem_open (sems s) SEM_NAME_shm False 0) else None) of
        None \<Rightarrow> Inl ''sem_open''
      | Some sem \<Rightarrow>
          (case (if ok Shm_open then fst (shm_open (shms s) SHM_NAME_shm False) else None) of
             None \<Rightarrow> Inl ''shm_open''
           | Some fd \<Rightarrow> if ok Mmap then Inr (sem, fd) else Inl ''mmap''))"

definition cleanup_main :: "posix_ipc \<Rightarrow> posix_ipc" where
  "cleanup_main s = s\<lparr>shms := remove_name (shms s) SHM_NAME_shm, sems := posix_shm_cleanup (sems s) SEM_NAME_shm\<rparr>"

section \<open>A worker finds its memory\<close>

text \<open>
  Any sequence of runs of the three programs, in which calls fail; what workers do in between
  changes the values of semaphores and the contents of objects, not their names or sizes.
\<close>

inductive ipc_reach :: "posix_ipc \<Rightarrow> bool" where
  ipc_boot: "ipc_reach \<lparr>sems = no_names, shms = no_names\<rparr>"
| ipc_init: "ipc_reach s \<Longrightarrow> ipc_reach (snd (init_main ok s))"
| ipc_cleanup: "ipc_reach s \<Longrightarrow> ipc_reach (cleanup_main s)"
| ipc_work: "ipc_reach s \<Longrightarrow> obj (sems s) i = Some v \<Longrightarrow> obj (shms s) j = Some (Some mb) \<Longrightarrow>
    length (mb_buf mb') = length (mb_buf mb) \<Longrightarrow>
    ipc_reach (s\<lparr>sems := (sems s)\<lparr>obj := (obj (sems s))(i \<mapsto> w)\<rparr>, shms := (shms s)\<lparr>obj := (obj (shms s))(j \<mapsto> Some mb')\<rparr>\<rparr>)"

definition full :: "mybuf option names \<Rightarrow> nat \<Rightarrow> bool" where
  "full ns i \<longleftrightarrow> (\<exists>mb. obj ns i = Some (Some mb) \<and> length (mb_buf mb) = BUF_SIZE)"

definition sized :: "mybuf option names \<Rightarrow> bool" where
  "sized ns \<longleftrightarrow> (\<forall>i mb. obj ns i = Some (Some mb) \<longrightarrow> length (mb_buf mb) = BUF_SIZE)"

definition ipc_inv :: "posix_ipc \<Rightarrow> bool" where
  "ipc_inv s \<longleftrightarrow> names_inv (sems s) \<and> names_inv (shms s) \<and> sized (shms s) \<and>
     (link (sems s) SEM_NAME_shm \<noteq> None \<longrightarrow> (\<exists>i. link (shms s) SHM_NAME_shm = Some i \<and> full (shms s) i))"

lemma names_inv_put: "names_inv ns \<Longrightarrow> obj ns i \<noteq> None \<Longrightarrow> names_inv (ns\<lparr>obj := (obj ns)(i \<mapsto> x)\<rparr>)"
  by (auto simp: names_inv_def)

lemma linked_obj: "names_inv ns \<Longrightarrow> link ns name = Some i \<Longrightarrow> obj ns i \<noteq> None"
  by (simp add: names_inv_def)

text \<open>The three stages of the init program that touch the shared memory.\<close>

definition prepared :: "mybuf option names \<Rightarrow> nat \<Rightarrow> bool" where
  "prepared ns i \<longleftrightarrow> names_inv ns \<and> sized ns \<and> link ns SHM_NAME_shm = Some i"

lemma shm_open_prepares:
  assumes "names_inv ns" "sized ns"
  shows "\<exists>i ns'. shm_open ns SHM_NAME_shm True = (Some i, ns') \<and> prepared ns' i \<and> (link ns SHM_NAME_shm \<noteq> None \<longrightarrow> ns' = ns)"
proof (cases "link ns SHM_NAME_shm")
  case None
  obtain i ns' where cr: "create ns SHM_NAME_shm None = (i, ns')" by fastforce
  have "sized ns'" using cr assms(2) by (auto simp: create_def sized_def split: if_splits)
  with names_inv_create [OF assms(1) cr] show ?thesis by (simp add: shm_open_def None cr prepared_def)
qed (use assms in \<open>simp add: shm_open_def prepared_def\<close>)

lemma ftruncate_fills:
  assumes "prepared ns i"
  shows "prepared (ftruncate i ns) i \<and> full (ftruncate i ns) i"
proof -
  have "obj ns i \<noteq> None" using assms linked_obj by (auto simp: prepared_def)
  then have "prepared (ftruncate i ns) i"
    using assms names_inv_put [of ns i] blank_mem_init(1)
    by (auto simp: prepared_def ftruncate_def sized_def split: option.splits)
  moreover have "\<exists>mb. obj (ftruncate i ns) i = Some (Some mb)"
    by (auto simp: ftruncate_def split: option.splits)
  ultimately show ?thesis by (auto simp: full_def prepared_def sized_def)
qed

lemma mb_reset_length: "length (mb_buf mb) = BUF_SIZE \<Longrightarrow> length (mb_buf (mb_reset mb)) = BUF_SIZE"
  by (simp add: mb_reset_def BUF_SIZE_def)

lemma on_mem_prepared:
  assumes "prepared ns i" "full ns i"
  shows "prepared (on_mem mb_reset i ns) i \<and> full (on_mem mb_reset i ns) i"
proof -
  obtain mb where mb: "obj ns i = Some (Some mb)" "length (mb_buf mb) = BUF_SIZE" using assms(2) by (auto simp: full_def)
  have "on_mem mb_reset i ns = ns\<lparr>obj := (obj ns)(i \<mapsto> Some (mb_reset mb))\<rparr>" by (simp add: on_mem_def mb)
  then show ?thesis
    using assms(1) mb mb_reset_length [OF mb(2)] names_inv_put [of ns i] by (auto simp: prepared_def full_def sized_def)
qed

lemma sem_open_creates:
  assumes "names_inv ns"
  shows "\<exists>i ns'. sem_open ns SEM_NAME_shm True v = (Some i, ns') \<and> names_inv ns' \<and> link ns' SEM_NAME_shm = Some i \<and>
    (link ns SEM_NAME_shm \<noteq> None \<longrightarrow> ns' = ns) \<and> (link ns SEM_NAME_shm = None \<longrightarrow> obj ns' i = Some v)"
proof (cases "link ns SEM_NAME_shm")
  case None
  obtain i ns' where cr: "create ns SEM_NAME_shm v = (i, ns')" by fastforce
  with names_inv_create [OF assms cr] show ?thesis by (simp add: sem_open_def None)
qed (use assms in \<open>simp add: sem_open_def\<close>)

lemma ipc_inv_init:
  assumes inv: "ipc_inv s"
  shows "ipc_inv (snd (init_main ok s))"
proof -
  have ns: "names_inv (shms s)" "sized (shms s)" "names_inv (sems s)" using inv by (simp_all add: ipc_inv_def)
  obtain i n1 where 1: "shm_open (shms s) SHM_NAME_shm True = (Some i, n1)" "prepared n1 i"
    "link (shms s) SHM_NAME_shm \<noteq> None \<longrightarrow> n1 = shms s" using shm_open_prepares [OF ns(1,2)] by blast
  note 2 = ftruncate_fills [OF 1(2)]
  note 3 = on_mem_prepared [OF conjunct1 [OF 2] conjunct2 [OF 2]]
  obtain j m where 4: "sem_open (sems s) SEM_NAME_shm True 1 = (Some j, m)" "names_inv m" using sem_open_creates [OF ns(3)] by blast
  have kept: "ipc_inv (s\<lparr>shms := n\<rparr>)" "names_inv m' \<Longrightarrow> ipc_inv (s\<lparr>shms := n, sems := m'\<rparr>)"
    if "prepared n i \<and> full n i" for n m' using that ns(3) by (auto simp: ipc_inv_def prepared_def)
  have "ipc_inv (s\<lparr>shms := n1\<rparr>)"
  proof (cases "link (sems s) SEM_NAME_shm")
    case None
    with 1(2) ns(3) show ?thesis by (simp add: ipc_inv_def prepared_def)
  next
    case (Some k)
    then have "n1 = shms s" using inv 1(3) by (auto simp: ipc_inv_def)
    with inv show ?thesis by simp
  qed
  then show ?thesis
    using inv kept(1) [OF 2] kept(1) [OF 3] kept(2) [OF 3 4(2)]
    by (simp add: init_main_def 1(1) 4(1) [unfolded One_nat_def] Let_def)
qed

lemma ipc_inv_reach: "ipc_reach s \<Longrightarrow> ipc_inv s"
proof (induction rule: ipc_reach.induct)
  case ipc_boot
  show ?case by (simp add: ipc_inv_def names_inv_no_names) (simp add: no_names_def sized_def)
next
  case (ipc_init s ok)
  then show ?case by (simp add: ipc_inv_init)
next
  case (ipc_cleanup s)
  then show ?case
    by (auto simp: ipc_inv_def cleanup_main_def posix_shm_cleanup_def names_inv_remove)
      (simp_all add: sized_def remove_name_def)
next
  case (ipc_work s i v j mb mb' w)
  then show ?case
    by (auto simp: ipc_inv_def full_def sized_def intro: names_inv_put)
qed

text \<open>What a successful init program leaves.\<close>

lemma init_main_ok:
  assumes inv: "ipc_inv s"
  shows "\<exists>t i j mb. init_main (\<lambda>_. True) s = (None, t) \<and> worker_open (\<lambda>_. True) t = Inr (i, j) \<and>
    obj (shms t) j = Some (Some (mb_reset mb)) \<and> length (mb_buf mb) = BUF_SIZE \<and> link (sems t) SEM_NAME_shm = Some i \<and>
    (link (sems s) SEM_NAME_shm \<noteq> None \<longrightarrow> sems t = sems s) \<and>
    (link (sems s) SEM_NAME_shm = None \<longrightarrow> obj (sems t) i = Some 1)"
proof -
  have ns: "names_inv (shms s)" "sized (shms s)" "names_inv (sems s)" using inv by (simp_all add: ipc_inv_def)
  obtain j n1 where 1: "shm_open (shms s) SHM_NAME_shm True = (Some j, n1)" "prepared n1 j"
    using shm_open_prepares [OF ns(1,2)] by blast
  note 2 = ftruncate_fills [OF 1(2)]
  note 3 = on_mem_prepared [OF conjunct1 [OF 2] conjunct2 [OF 2]]
  obtain mb where mb: "obj (ftruncate j n1) j = Some (Some mb)" "length (mb_buf mb) = BUF_SIZE" using 2 by (auto simp: full_def)
  obtain i m where 4: "sem_open (sems s) SEM_NAME_shm True 1 = (Some i, m)" "link m SEM_NAME_shm = Some i"
    "link (sems s) SEM_NAME_shm \<noteq> None \<longrightarrow> m = sems s" "link (sems s) SEM_NAME_shm = None \<longrightarrow> obj m i = Some 1"
    using sem_open_creates [OF ns(3)] by blast
  let ?t = "s\<lparr>shms := on_mem mb_reset j (ftruncate j n1), sems := m\<rparr>"
  have "init_main (\<lambda>_. True) s = (None, ?t)" by (simp add: init_main_def 1(1) 4(1) [unfolded One_nat_def] Let_def)
  moreover have "worker_open (\<lambda>_. True) ?t = Inr (i, j)"
    using 3 by (simp add: worker_open_def sem_open_def shm_open_def 4(2) prepared_def)
  moreover have "obj (shms ?t) j = Some (Some (mb_reset mb))" by (simp add: on_mem_def mb(1))
  ultimately show ?thesis using 4 mb(2) by (intro exI [of _ ?t] exI [of _ i] exI [of _ j] exI [of _ mb]) simp
qed

lemma mb_reset_blank: "length (mb_buf mb) = BUF_SIZE \<Longrightarrow> mb_count (mb_reset mb) = 0 \<and> c_str (mb_buf (mb_reset mb)) = []"
  by (simp add: mb_reset_def overlay_def c_str_def)



text \<open>
  The order of the two calls of the clean-up program is the wrong one for this: when it ends between them
  and the next init program fails at \<open>ftruncate\<close>, the semaphore has its name and the memory no size, and a
  worker gets past its calls to memory that is not there.
\<close>

definition cleanup_half :: "posix_ipc \<Rightarrow> posix_ipc" where
  "cleanup_half s = s\<lparr>shms := remove_name (shms s) SHM_NAME_shm\<rparr>"

lemma half_cleanup_faults:
  assumes "ipc_reach s" "link (sems s) SEM_NAME_shm = Some i"
  shows "\<exists>t j. init_main (\<lambda>c. c \<noteq> Ftruncate) (cleanup_half s) = (Some ''ftruncate'', t) \<and>
    worker_open (\<lambda>_. True) t = Inr (i, j) \<and> obj (shms t) j = Some None"
  using assms(2)
  by (auto simp: init_main_def cleanup_half_def shm_open_def remove_name_def create_def worker_open_def sem_open_def)

section \<open>Workers that are killed\<close>

text \<open>
  A run of the workers in which some are killed: the second part of the state is the set of the
  dead, who make no step any more. The semaphore knows nothing of its holders, so a death
  changes neither it nor the memory.
\<close>

inductive crash_step :: "(nat \<Rightarrow> 'l \<Rightarrow> 'l option) \<Rightarrow> (nat \<Rightarrow> 'l \<Rightarrow> 'l option) \<Rightarrow> (nat \<Rightarrow> int) \<Rightarrow>
    'l workers \<times> nat set \<Rightarrow> 'l workers \<times> nat set \<Rightarrow> bool" for acq rel pid where
  living: "worker_step acq rel pid s t \<Longrightarrow> \<forall>p \<in> d. w_pc t p = w_pc s p \<Longrightarrow> crash_step acq rel pid (s, d) (t, d)"
| killed: "w_pc s p \<noteq> WDone \<Longrightarrow> p \<notin> d \<Longrightarrow> crash_step acq rel pid (s, d) (s, insert p d)"

abbreviation crash_reach where "crash_reach acq rel pid \<equiv> (crash_step acq rel pid)\<^sup>*\<^sup>*"

inductive_cases crash_stepE: "crash_step acq rel pid (s, d) (t, e)"

text \<open>Forgetting the deaths leaves a run of the workers, and nobody comes back to life.\<close>

lemma crash_reach_workers:
  "crash_reach acq rel pid x y \<Longrightarrow> worker_reach acq rel pid (fst x) (fst y) \<and> snd x \<subseteq> snd y"
proof (induction rule: rtranclp_induct)
  case (step y z)
  from step(2) have "worker_reach acq rel pid (fst y) (fst z) \<and> snd y \<subseteq> snd z"
    by cases auto
  with step(3) show ?case by auto
qed simp

text \<open>A worker that takes a step is at another point afterwards.\<close>

lemma worker_step_pc:
  assumes "worker_step acq rel pid s t"
  shows "\<exists>p. w_pc s p \<noteq> WDone \<and> w_pc t p \<noteq> w_pc s p \<and> (busy (w_pc s p) \<or> (\<exists>l. acq p (w_lock s) = Some l))"
  using assms by cases (auto intro!: exI)

context lock
begin

lemma dead_holder_blocks:
  assumes inv: "worker_inv n pid s h" and p: "p \<in> d" "busy (w_pc s p)"
    and st: "crash_step acq rel pid (s, d) (t, e)"
  shows "t = s \<and> p \<in> e"
  using st
proof (rule crash_stepE)
  assume w: "worker_step acq rel pid s t" and fixed: "\<forall>q \<in> d. w_pc t q = w_pc s q"
  have h: "h = Some p" using worker_inv_holder [OF inv p(2)] .
  from worker_step_pc [OF w] obtain q where q: "w_pc t q \<noteq> w_pc s q" "busy (w_pc s q) \<or> (\<exists>l. acq q (w_lock s) = Some l)" by blast
  have "acq q (w_lock s) = None" using inv by (auto simp: worker_inv_def h acq_held)
  with q(2) have "q = p" using worker_inv_holder [OF inv, of q] h by simp
  with q(1) fixed p(1) show ?thesis by blast
qed (use p in auto)

lemma dead_holder_forever:
  assumes inv: "worker_inv n pid s h" and p: "p \<in> d" "busy (w_pc s p)"
    and run: "crash_reach acq rel pid (s, d) x"
  shows "fst x = s \<and> p \<in> snd x"
  using run
proof (induction rule: rtranclp_induct)
  case (step y z)
  then have "crash_step acq rel pid (s, snd y) (fst z, snd z)" by (metis prod.collapse)
  with step show ?case using dead_holder_blocks [OF inv _ p(2)] by blast
qed (use p in simp)

lemma others_go_on:
  assumes inv: "worker_inv n pid s h" and d: "\<forall>p \<in> d. \<not> busy (w_pc s p)" and q: "q \<notin> d" "w_pc s q \<noteq> WDone"
    and pid: "\<forall>p. pid p = s32 (pid p)"
  shows "\<exists>t. worker_step acq rel pid s t \<and> crash_step acq rel pid (s, d) (t, d)"
proof -
  from worker_moves [OF inv q(2) pid] obtain t r c where
    t: "worker_step acq rel pid s t" "w_pc t = (w_pc s)(r := c)" "r = q \<or> busy (w_pc s r)" by blast
  then have "r \<notin> d" using d q(1) by blast
  with t(2) have "\<forall>p \<in> d. w_pc t p = w_pc s p" by auto
  with t(1) show ?thesis by (blast intro: crash_step.living)
qed

end

lemma workers_start_inv:
  assumes "mb_count mb = 0" "length (mb_buf mb) = BUF_SIZE"
  shows "sem.worker_inv n pid (workers_start n 1 mb) None"
  using assms by (auto simp: sem.worker_inv_def sem_repr_def workers_start_def last_text_def u32_id finished_def)

text \<open>
  C9: a worker that is killed outside its critical section harms nobody: some living worker
  can always go on. One that is killed inside takes the semaphore with it: from then on no worker
  ever moves again. Running the init program once more reports success and resets the
  counter, but keeps the semaphore at 0 because its name exists, so that no worker of a new batch
  can start; only the clean-up followed by the init program brings the value 1 back.
\<close>

theorem worker_death_blocks:
  assumes run: "crash_reach pi_sem_wait pi_sem_post pid (workers_start n 1 mb, {}) (s, d)"
    and mb: "mb_count mb = 0" "length (mb_buf mb) = BUF_SIZE" and pid: "\<forall>p. pid p = s32 (pid p)"
    and ipc: "ipc_reach c" "link (sems c) SEM_NAME_shm = Some i" "obj (sems c) i = Some (w_lock s)"
  shows "if \<exists>p \<in> d. busy (w_pc s p)
    then (\<forall>t e. crash_reach pi_sem_wait pi_sem_post pid (s, d) (t, e) \<longrightarrow> t = s) \<and>
      (\<exists>c' j. init_main (\<lambda>_. True) c = (None, c') \<and> worker_open (\<lambda>_. True) c' = Inr (i, j) \<and> obj (sems c') i = Some 0 \<and>
        (\<forall>m mb' t. \<not> worker_step pi_sem_wait pi_sem_post pid (workers_start m 0 mb') t)) \<and>
      (\<exists>c' i' j. init_main (\<lambda>_. True) (cleanup_main c) = (None, c') \<and> worker_open (\<lambda>_. True) c' = Inr (i', j) \<and>
        obj (sems c') i' = Some 1)
    else (\<exists>p. p \<notin> d \<and> w_pc s p \<noteq> WDone) \<longrightarrow>
      (\<exists>t. worker_step pi_sem_wait pi_sem_post pid s t \<and> crash_step pi_sem_wait pi_sem_post pid (s, d) (t, d))"
proof -
  from crash_reach_workers [OF run] have "worker_reach pi_sem_wait pi_sem_post pid (workers_start n 1 mb) s" by simp
  from sem.worker_inv_reach [OF this workers_start_inv [OF mb] pid] obtain h where inv: "sem.worker_inv n pid s h" ..
  have stuck: "\<not> worker_step pi_sem_wait pi_sem_post pid (workers_start m 0 mb') t" for m mb' t
  proof
    assume "worker_step pi_sem_wait pi_sem_post pid (workers_start m 0 mb') t"
    from worker_step_pc [OF this] show False by (auto simp: workers_start_def pi_sem_wait_def split: if_splits)
  qed
  show ?thesis
  proof (cases "\<exists>p \<in> d. busy (w_pc s p)")
    case True
    then obtain p where p: "p \<in> d" "busy (w_pc s p)" by blast
    have "w_lock s = 0" using inv sem.worker_inv_holder [OF inv p(2)] by (simp add: sem.worker_inv_def sem_repr_def)
    moreover have "ipc_inv c" "ipc_inv (cleanup_main c)" "link (sems (cleanup_main c)) SEM_NAME_shm = None"
      using ipc(1) ipc_inv_reach ipc_cleanup by (blast, blast, simp add: cleanup_main_def posix_shm_cleanup_def remove_name_def)
    ultimately show ?thesis
      using True sem.dead_holder_forever [OF inv p] init_main_ok [of c] init_main_ok [of "cleanup_main c"] ipc(2,3) stuck
      by auto
  next
    case False
    then show ?thesis using sem.others_go_on [OF inv _ _ _ pid] by auto
  qed
qed

text \<open>A worker that is killed with the semaphore, in a world where the init program has run once.\<close>

theorem worker_death_blocks_witness:
  "\<exists>s c c' j. crash_reach pi_sem_wait pi_sem_post (\<lambda>_. 100) (workers_start 2 1 blank_mem, {}) (s, {0}) \<and>
     w_pc s 0 = WLocked \<and> w_pc s 1 = WStart \<and> ipc_reach c \<and> init_main (\<lambda>_. True) c = (None, c') \<and>
     worker_open (\<lambda>_. True) c' = Inr (0, j) \<and> obj (sems c') 0 = Some 0"
proof -
  let ?s = "goto 0 WLocked ((workers_start 2 1 blank_mem)\<lparr>w_lock := 0\<rparr>)"
  let ?b = "snd (init_main (\<lambda>_. True) \<lparr>sems = no_names, shms = no_names\<rparr>)"
  let ?c = "?b\<lparr>sems := (sems ?b)\<lparr>obj := (obj (sems ?b))(0 \<mapsto> 0)\<rparr>, shms := (shms ?b)\<lparr>obj := (obj (shms ?b))(0 \<mapsto> Some (mb_reset blank_mem))\<rparr>\<rparr>"
  have "crash_step pi_sem_wait pi_sem_post (\<lambda>_. 100) (workers_start 2 1 blank_mem, {}) (?s, {})"
    by (rule crash_step.living) (rule w_wait, simp_all add: workers_start_def pi_sem_wait_def)
  moreover have "crash_step pi_sem_wait pi_sem_post (\<lambda>_. 100) (?s, {}) (?s, {0})"
    by (rule crash_step.killed) simp_all
  ultimately have run: "crash_reach pi_sem_wait pi_sem_post (\<lambda>_. 100) (workers_start 2 1 blank_mem, {}) (?s, {0})" by simp
  have b: "obj (sems ?b) 0 = Some 1" "obj (shms ?b) 0 = Some (Some (mb_reset blank_mem))" "link (sems ?b) SEM_NAME_shm = Some 0"
    by (simp_all add: init_main_def shm_open_def create_def no_names_def sem_open_def ftruncate_def on_mem_def)
  have "ipc_reach ?b" by (rule ipc_reach.ipc_init [OF ipc_boot])
  from ipc_work [OF this b(1,2) refl] have c: "ipc_reach ?c" .
  have l: "link (sems ?c) SEM_NAME_shm = Some 0" "obj (sems ?c) 0 = Some (w_lock ?s)" using b(3) by simp_all
  have "\<exists>p \<in> {0}. busy (w_pc ?s p)" by simp
  then have "\<exists>c' j. init_main (\<lambda>_. True) ?c = (None, c') \<and> worker_open (\<lambda>_. True) c' = Inr (0, j) \<and> obj (sems c') 0 = Some 0"
    using worker_death_blocks [OF run _ _ _ c l] by (simp add: blank_mem_def s32_id) blast
  moreover have "w_pc ?s 0 = WLocked" "w_pc ?s 1 = WStart" by (simp_all add: workers_start_def)
  ultimately show ?thesis using run c by blast
qed

end
