(* ===== verification/SysvShm.thy ===== *)
theory SysvShm
  imports LockSystem
begin

text \<open>
  The System V program \<open>C/shm.c\<close>: any number of processes that run its \<open>main\<close>, with the
  adjustments that \<open>SEM_UNDO\<close> makes the kernel keep per process. Each call of \<open>main\<close> is a step;
  a call may also fail, after which the program exits, and a process may be killed anywhere.
\<close>

section \<open>The semaphore\<close>

text \<open>
  The value of the one semaphore of the set, and for each process what the kernel adds to the value
  when the process ends. \<open>None\<close> while the key does not exist; \<open>semget\<close> with \<open>IPC_CREAT\<close> creates it
  with value 0. \<open>SETVAL\<close> clears the adjustments of all processes.
\<close>

record semset =
  semval :: nat
  semadj :: "nat \<Rightarrow> int"

definition fresh_set :: "nat \<Rightarrow> semset" where
  "fresh_set v = \<lparr>semval = v, semadj = (\<lambda>_. 0)\<rparr>"

definition semget :: "semset option \<Rightarrow> semset option" where
  "semget sem = (case sem of None \<Rightarrow> Some (fresh_set 0) | Some s \<Rightarrow> Some s)"

definition semctl_setval :: "semset option \<Rightarrow> nat \<Rightarrow> semset option" where
  "semctl_setval sem v = map_option (\<lambda>_. fresh_set v) sem"

text \<open>\<open>semop\<close> of one operation with \<open>SEM_UNDO\<close>; \<open>None\<close>: the caller blocks.\<close>

definition semop :: "nat \<Rightarrow> int \<Rightarrow> semset \<Rightarrow> semset option" where
  "semop p n s =
     (if int (semval s) + n < 0 then None
      else Some \<lparr>semval = nat (int (semval s) + n), semadj = (semadj s)(p := semadj s p - n)\<rparr>)"

text \<open>What the kernel does when process \<open>p\<close> ends, for whatever reason: a negative result is clipped.\<close>

definition exit_undo :: "nat \<Rightarrow> semset \<Rightarrow> semset" where
  "exit_undo p s = \<lparr>semval = nat (int (semval s) + semadj s p), semadj = (semadj s)(p := 0)\<rparr>"

text \<open>The two calls of \<open>create_semaphore\<close>, in order; the second is made in any case.\<close>

definition create_semaphore :: "(semset option \<Rightarrow> semset option) list" where
  "create_semaphore = [semget, \<lambda>sem. semctl_setval sem 1]"

definition lock_semaphore :: "nat \<Rightarrow> semset option \<Rightarrow> semset option" where
  "lock_semaphore p sem = Option.bind sem (semop p (- 1))"

definition unlock_semaphore :: "nat \<Rightarrow> semset option \<Rightarrow> semset option" where
  "unlock_semaphore p sem = Option.bind sem (semop p 1)"

lemma semset_simps [simp]:
  "semval (fresh_set v) = v" "semadj (fresh_set v) = (\<lambda>_. 0)"
  "semget None = Some (fresh_set 0)" "semget (Some s) = Some s"
  "semctl_setval None v = None" "semctl_setval (Some s) v = Some (fresh_set v)"
  "unlock_semaphore p (Some s) = Some \<lparr>semval = Suc (semval s), semadj = (semadj s)(p := semadj s p - 1)\<rparr>"
  "semval (exit_undo p s) = nat (int (semval s) + semadj s p)" "semadj (exit_undo p s) = (semadj s)(p := 0)"
  by (simp_all add: fresh_set_def semget_def semctl_setval_def unlock_semaphore_def semop_def exit_undo_def
      nat_add_distrib flip: nat_int)

lemma lock_semaphore_Some:
  "lock_semaphore p sem = Some t \<longleftrightarrow>
     (\<exists>s. sem = Some s \<and> 0 < semval s \<and> t = \<lparr>semval = semval s - 1, semadj = (semadj s)(p := semadj s p + 1)\<rparr>)"
  by (cases sem) (auto simp: lock_semaphore_def semop_def nat_diff_distrib)

text \<open>
  Initialised to 1 and used in pairs, it is a lock: the value says whether it is free, the adjustments
  say who has it.
\<close>

definition sysv_lock :: "nat option \<Rightarrow> semset" where
  "sysv_lock h = \<lparr>semval = (case h of None \<Rightarrow> 1 | Some _ \<Rightarrow> 0), semadj = (\<lambda>p. if h = Some p then 1 else 0)\<rparr>"

interpretation sysv: lock "\<lambda>p. semop p (- 1)" "\<lambda>p. semop p 1" "\<lambda>s h. s = sysv_lock h"
  by unfold_locales (auto simp: sysv_lock_def semop_def fun_eq_iff)

lemma exit_undo_lock: "exit_undo p (sysv_lock h) = sysv_lock (if h = Some p then None else h)"
  by (cases h) (auto simp: exit_undo_def sysv_lock_def fun_eq_iff)

section \<open>The program\<close>

definition SHM_SIZE :: nat where "SHM_SIZE = 1024"

definition shm_text :: "int \<Rightarrow> string" where
  "shm_text pid = ''Hello Shared Memory (Locked Access by '' @ dec_int pid @ '')''"

text \<open>
  Where a process is: \<open>Creating cs\<close> with the calls \<open>cs\<close> of \<open>create_semaphore\<close> still to make, before
  \<open>shmat\<close>, before \<open>lock_semaphore\<close>, in the critical section before and after the write, after
  \<open>unlock_semaphore\<close>, and ended with an exit status or (\<open>None\<close>) by a signal.
\<close>

datatype shm_pc = Creating "(semset option \<Rightarrow> semset option) list" | Attaching | Locking | Inside | Wrote
  | Released | Gone "int option"

record sysv =
  sem_key :: "semset option"
  shm_key :: "char list option"
  shm_pc :: "nat \<Rightarrow> shm_pc"

definition shm_goto :: "nat \<Rightarrow> shm_pc \<Rightarrow> sysv \<Rightarrow> sysv" where
  "shm_goto p c s = s\<lparr>shm_pc := (shm_pc s)(p := c)\<rparr>"

definition shmget :: "char list option \<Rightarrow> char list option" where
  "shmget seg = (case seg of None \<Rightarrow> Some (replicate SHM_SIZE NUL) | Some m \<Rightarrow> Some m)"

definition leave :: "nat \<Rightarrow> int option \<Rightarrow> sysv \<Rightarrow> sysv" where
  "leave p r s = shm_goto p (Gone r) (s\<lparr>sem_key := map_option (exit_undo p) (sem_key s)\<rparr>)"

text \<open>The calls of \<open>main\<close> when they succeed. A failing \<open>shmdt\<close> only prints.\<close>

inductive shm_step :: "(nat \<Rightarrow> int) \<Rightarrow> sysv \<Rightarrow> sysv \<Rightarrow> bool" for pid where
  creating: "shm_pc s p = Creating (c # cs) \<Longrightarrow>
    shm_step pid s (shm_goto p (Creating cs) (s\<lparr>sem_key := c (sem_key s)\<rparr>))"
| getting: "shm_pc s p = Creating [] \<Longrightarrow>
    shm_step pid s (shm_goto p Attaching (s\<lparr>shm_key := shmget (shm_key s)\<rparr>))"
| attaching: "shm_pc s p = Attaching \<Longrightarrow> shm_step pid s (shm_goto p Locking s)"
| locking: "shm_pc s p = Locking \<Longrightarrow> lock_semaphore p (sem_key s) = Some v \<Longrightarrow>
    shm_step pid s (shm_goto p Inside (s\<lparr>sem_key := Some v\<rparr>))"
| writing: "shm_pc s p = Inside \<Longrightarrow> shm_key s = Some m \<Longrightarrow> mem_write m 0 (shm_text (pid p) @ [NUL]) = Inr m' \<Longrightarrow>
    shm_step pid s (shm_goto p Wrote (s\<lparr>shm_key := Some m'\<rparr>))"
| unlocking: "shm_pc s p = Wrote \<Longrightarrow>
    shm_step pid s (shm_goto p Released (s\<lparr>sem_key := unlock_semaphore p (sem_key s)\<rparr>))"
| returning: "shm_pc s p = Released \<Longrightarrow> shm_step pid s (leave p (Some 0) s)"

text \<open>A call fails and the program exits with status 1, or the process is killed.\<close>

fun may_fail :: "shm_pc \<Rightarrow> bool" where
  "may_fail (Creating cs) = True" | "may_fail Attaching = True" | "may_fail Locking = True"
| "may_fail Wrote = True" | "may_fail Inside = False" | "may_fail Released = False" | "may_fail (Gone r) = False"

fun gone :: "shm_pc \<Rightarrow> bool" where
  "gone (Gone r) = True" | "gone (Creating cs) = False" | "gone Attaching = False" | "gone Locking = False"
| "gone Inside = False" | "gone Wrote = False" | "gone Released = False"

inductive shm_abort :: "sysv \<Rightarrow> sysv \<Rightarrow> bool" where
  failing: "may_fail (shm_pc s p) \<Longrightarrow> shm_abort s (leave p (Some 1) s)"
| dying: "\<not> gone (shm_pc s p) \<Longrightarrow> shm_abort s (leave p None s)"

definition shm_any :: "(nat \<Rightarrow> int) \<Rightarrow> sysv \<Rightarrow> sysv \<Rightarrow> bool" where
  "shm_any pid s t \<longleftrightarrow> shm_step pid s t \<or> shm_abort s t"

abbreviation shm_reach where "shm_reach pid \<equiv> (shm_any pid)\<^sup>*\<^sup>*"

definition in_section :: "sysv \<Rightarrow> nat \<Rightarrow> bool" where
  "in_section s p \<longleftrightarrow> shm_pc s p = Inside \<or> shm_pc s p = Wrote"

text \<open>The processes below \<open>n\<close> start, with \<open>cs\<close> of \<open>create_semaphore\<close> still to do.\<close>

definition shm_start :: "nat \<Rightarrow> semset option \<Rightarrow> (semset option \<Rightarrow> semset option) list \<Rightarrow> sysv" where
  "shm_start n sem cs =
     \<lparr>sem_key = sem, shm_key = None, shm_pc = (\<lambda>p. if p < n then Creating cs else Gone (Some 0))\<rparr>"

lemma shm_goto_simps [simp]:
  "shm_pc (shm_goto p c s) = (shm_pc s)(p := c)" "sem_key (shm_goto p c s) = sem_key s" "shm_key (shm_goto p c s) = shm_key s"
  "shm_pc (leave p r s) = (shm_pc s)(p := Gone r)" "sem_key (leave p r s) = map_option (exit_undo p) (sem_key s)"
  "shm_key (leave p r s) = shm_key s"
  by (simp_all add: shm_goto_def leave_def)

lemma shm_abort_leaves: "shm_abort s t \<longleftrightarrow> (\<exists>p r. \<not> gone (shm_pc s p) \<and> t = leave p r s \<and> (r = None \<or> r = Some 1 \<and> may_fail (shm_pc s p)))"
proof -
  have "may_fail c \<Longrightarrow> \<not> gone c" for c by (cases c) simp_all
  then show ?thesis by (auto simp: shm_abort.simps)
qed

section \<open>Without a late start: the lock is one\<close>

text \<open>Once every process has made its calls of \<open>create_semaphore\<close>, whatever fails or dies afterwards.\<close>

definition shm_inv :: "sysv \<Rightarrow> nat option \<Rightarrow> bool" where
  "shm_inv s h \<longleftrightarrow>
     sem_key s = Some (sysv_lock h) \<and>
     (\<forall>p. in_section s p \<longleftrightarrow> h = Some p) \<and> (\<forall>p cs. shm_pc s p = Creating cs \<longrightarrow> cs = [])"

lemma shm_inv_leave:
  assumes "shm_inv s h"
  shows "shm_inv (leave p r s) (if h = Some p then None else h)"
  using assms by (cases h) (auto simp: shm_inv_def in_section_def exit_undo_lock)

lemma shm_inv_step:
  assumes inv: "shm_inv s h" and st: "shm_any pid s t"
  shows "\<exists>h. shm_inv t h"
  using st unfolding shm_any_def
proof
  assume "shm_abort s t"
  with shm_inv_leave [OF inv] show ?thesis by (auto simp: shm_abort_leaves)
next
  assume "shm_step pid s t"
  then show ?thesis
  proof (cases rule: shm_step.cases)
    case (creating p c cs)
    with inv show ?thesis by (auto simp: shm_inv_def)
  next
    case (getting p)
    then have "\<not> in_section s p" by (simp add: in_section_def)
    then have "h \<noteq> Some p" using inv by (simp add: shm_inv_def)
    with inv getting have "shm_inv t h" by (auto simp: shm_inv_def in_section_def)
    then show ?thesis ..
  next
    case (attaching p)
    then have "\<not> in_section s p" by (simp add: in_section_def)
    then have "h \<noteq> Some p" using inv by (simp add: shm_inv_def)
    with inv attaching have "shm_inv t h" by (auto simp: shm_inv_def in_section_def)
    then show ?thesis ..
  next
    case (locking p v)
    then have v: "semop p (- 1) (sysv_lock h) = Some v" using inv by (simp add: shm_inv_def lock_semaphore_def)
    have h: "h = None"
    proof (cases h)
      case (Some q)
      with v sysv.acq_held [OF refl, of p q] show ?thesis by simp
    qed
    with v sysv.acq_free [OF refl, of p] have "v = sysv_lock (Some p)" by auto
    with inv locking h have "shm_inv t (Some p)" by (auto simp: shm_inv_def in_section_def)
    then show ?thesis ..
  next
    case (writing p m m')
    then have "h = Some p" using inv by (auto simp: shm_inv_def in_section_def)
    with inv writing have "shm_inv t (Some p)" by (auto simp: shm_inv_def in_section_def)
    then show ?thesis ..
  next
    case (unlocking p)
    then have h: "h = Some p" using inv by (auto simp: shm_inv_def in_section_def)
    obtain l where "semop p 1 (sysv_lock (Some p)) = Some l" "l = sysv_lock None" using sysv.rel_held [OF refl, of p] by blast
    then have "unlock_semaphore p (sem_key s) = Some (sysv_lock None)"
      using inv h by (simp add: shm_inv_def unlock_semaphore_def)
    with inv unlocking h have "shm_inv t None" by (auto simp: shm_inv_def in_section_def simp del: semset_simps)
    then show ?thesis ..
  next
    case (returning p)
    with shm_inv_leave [OF inv] show ?thesis by blast
  qed
qed

lemma shm_inv_reach: "shm_reach pid s t \<Longrightarrow> shm_inv s h \<Longrightarrow> \<exists>h. shm_inv t h"
proof (induction rule: rtranclp_induct)
  case (step t u)
  then show ?case using shm_inv_step by blast
qed blast

section \<open>With late starts: nobody waits for the dead\<close>

lemma sum_upd: "p < n \<Longrightarrow> sum (f(p := x)) {..<n} = sum f {..<n} - f p + (x::int)" for p n :: nat
proof -
  assume "p < n"
  then have "sum (f(p := x)) {..<n} = x + sum f ({..<n} - {p})" "sum f {..<n} = f p + sum f ({..<n} - {p})"
    by (simp_all add: sum.remove [of _ p])
  then show ?thesis by simp
qed

definition early :: "shm_pc \<Rightarrow> bool" where
  "early c \<longleftrightarrow> gone c \<or> (\<exists>f fs. c = Creating (f # fs))"

definition creates :: "shm_pc \<Rightarrow> bool" where
  "creates c \<longleftrightarrow> (\<forall>cs. c = Creating cs \<longrightarrow> cs = create_semaphore \<or> cs = tl create_semaphore \<or> cs = [])"

definition unborn :: "shm_pc \<Rightarrow> bool" where
  "unborn c \<longleftrightarrow> gone c \<or> c = Creating create_semaphore"

lemma pc_class_simps [simp]:
  "early (Gone r)" "early (Creating (f # fs))" "\<not> early (Creating [])" "\<not> early Attaching" "\<not> early Locking"
  "\<not> early Inside" "\<not> early Wrote" "\<not> early Released"
  "creates (Gone r)" "creates Attaching" "creates Locking" "creates Inside" "creates Wrote" "creates Released" "creates (Creating [])"
  "unborn (Gone r)" "unborn (Creating create_semaphore)"
  "\<not> unborn Attaching" "\<not> unborn Locking" "\<not> unborn Inside" "\<not> unborn Wrote" "\<not> unborn Released" "\<not> unborn (Creating [])"
  by (simp_all add: early_def creates_def unborn_def create_semaphore_def)

text \<open>
  The value and the adjustments together never fall below 1 once a process has passed
  \<open>SETVAL\<close>: an end adds to the value what it takes from the adjustments, or more when clipped. A
  positive adjustment belongs to a living process in the section.
\<close>

definition undo_ok :: "nat \<Rightarrow> sysv \<Rightarrow> semset \<Rightarrow> bool" where
  "undo_ok n s ss \<longleftrightarrow> (\<forall>p. semadj ss p \<le> (if in_section s p then 1 else 0)) \<and>
     ((\<forall>p. early (shm_pc s p)) \<or> 1 \<le> int (semval ss) + sum (semadj ss) {..<n})"

definition undo_inv :: "nat \<Rightarrow> sysv \<Rightarrow> bool" where
  "undo_inv n s \<longleftrightarrow>
     (\<forall>p. (n \<le> p \<longrightarrow> gone (shm_pc s p)) \<and> creates (shm_pc s p)) \<and>
     (\<forall>m. shm_key s = Some m \<longrightarrow> length m = SHM_SIZE) \<and>
     (shm_key s = None \<longrightarrow> (\<forall>p. gone (shm_pc s p) \<or> (\<exists>cs. shm_pc s p = Creating cs))) \<and>
     (case sem_key s of None \<Rightarrow> \<forall>p. unborn (shm_pc s p) | Some ss \<Rightarrow> undo_ok n s ss)"

lemma undo_adj: "undo_ok n s ss \<Longrightarrow> semadj ss q \<le> (if in_section s q then 1 else 0)"
  by (simp add: undo_ok_def)

lemma undo_inv_goto:
  assumes inv: "undo_inv n s" and p: "\<not> gone (shm_pc s p)" and c: "creates c" and sh: "shm_key s \<noteq> None"
    and ok: "\<And>ss. sem_key s = Some ss \<Longrightarrow> undo_ok n s ss \<Longrightarrow> \<exists>ss'. k = Some ss' \<and> undo_ok n (shm_goto p c s) ss'"
    and born: "\<not> unborn (shm_pc s p)"
  shows "undo_inv n (shm_goto p c (s\<lparr>sem_key := k\<rparr>))"
proof -
  obtain ss where "sem_key s = Some ss" "undo_ok n s ss"
    using inv born by (auto simp: undo_inv_def split: option.splits)
  from ok [OF this] obtain ss' where "k = Some ss'" "undo_ok n (shm_goto p c s) ss'" by blast
  moreover have "in_section (shm_goto p c (s\<lparr>sem_key := k\<rparr>)) = in_section (shm_goto p c s)"
    by (simp add: in_section_def fun_eq_iff)
  ultimately show ?thesis
    using inv p c sh by (auto simp: undo_inv_def undo_ok_def split: if_splits)
qed

lemma undo_ok_leave:
  assumes ok: "undo_ok n s ss" and p: "p < n"
  shows "undo_ok n (leave p r s) (exit_undo p ss)"
proof -
  have "1 \<le> int (semval (exit_undo p ss)) + sum (semadj (exit_undo p ss)) {..<n}"
    if "1 \<le> int (semval ss) + sum (semadj ss) {..<n}"
    using that sum_upd [OF p, of "semadj ss" 0] by simp
  moreover have "semadj (exit_undo p ss) q \<le> (if in_section (leave p r s) q then 1 else 0)" for q
    using undo_adj [OF ok, of q] by (cases "q = p") (simp_all add: in_section_def)
  moreover have "\<forall>q. early (shm_pc (leave p r s) q)" if "\<forall>q. early (shm_pc s q)"
    using that by simp
  ultimately show ?thesis using ok unfolding undo_ok_def by blast
qed

lemma undo_inv_leave:
  assumes inv: "undo_inv n s" and p: "\<not> gone (shm_pc s p)"
  shows "undo_inv n (leave p r s)"
proof -
  have "p < n" using inv p by (meson undo_inv_def not_le)
  then show ?thesis
    using inv undo_ok_leave [of n s _ p r] by (auto simp: undo_inv_def split: option.splits)
qed

lemma undo_inv_create:
  assumes inv: "undo_inv n s" and p: "shm_pc s p = Creating (c # cs)"
  shows "undo_inv n (shm_goto p (Creating cs) (s\<lparr>sem_key := c (sem_key s)\<rparr>))" (is "undo_inv n ?t")
proof -
  have "creates (shm_pc s p)" using inv by (simp add: undo_inv_def)
  then consider "c = semget" "cs = tl create_semaphore" | "c = (\<lambda>sem. semctl_setval sem 1)" "cs = []"
    by (auto simp: p creates_def create_semaphore_def)
  then show ?thesis
  proof cases
    case 1
    have sec: "in_section ?t = in_section s" using p by (auto simp: in_section_def fun_eq_iff)
    have "early (Creating cs)" "creates (Creating cs)" by (simp_all add: 1 early_def creates_def create_semaphore_def)
    moreover have "undo_ok n ?t ss" if "sem_key s = Some ss" for ss
    proof -
      have "undo_ok n s ss" using inv that by (simp add: undo_inv_def)
      then show ?thesis using \<open>early (Creating cs)\<close> by (auto simp: undo_ok_def sec)
    qed
    moreover have "undo_ok n ?t (fresh_set 0)" if "sem_key s = None"
    proof -
      have "\<forall>q. unborn (shm_pc s q)" using inv that by (simp add: undo_inv_def)
      then have "\<forall>q. early (shm_pc s q)" by (auto simp: unborn_def early_def create_semaphore_def)
      then show ?thesis using \<open>early (Creating cs)\<close> by (auto simp: undo_ok_def)
    qed
    ultimately show ?thesis using inv p unfolding 1(1) by (cases "sem_key s") (auto simp: undo_inv_def)
  next
    case 2
    have "sem_key s \<noteq> None"
    proof
      assume "sem_key s = None"
      then have "unborn (shm_pc s p)" using inv by (simp add: undo_inv_def)
      then show False using p 2 by (simp add: unborn_def create_semaphore_def)
    qed
    then show ?thesis using inv p 2 by (auto simp: undo_inv_def undo_ok_def)
  qed
qed

text \<open>Steps that leave the semaphore alone.\<close>

lemma undo_ok_move:
  assumes ok: "undo_ok n s ss" and p: "\<not> early (shm_pc s p)" and c: "in_section s p \<Longrightarrow> c = Inside \<or> c = Wrote"
  shows "undo_ok n (shm_goto p c s) ss"
proof -
  have "semadj ss q \<le> (if in_section (shm_goto p c s) q then 1 else 0)" for q
  proof (cases "q = p")
    case True
    with undo_adj [OF ok, of q] c show ?thesis by (auto simp: in_section_def split: if_splits)
  next
    case False
    with undo_adj [OF ok, of q] show ?thesis by (simp add: in_section_def)
  qed
  moreover have "1 \<le> int (semval ss) + sum (semadj ss) {..<n}" using ok p by (auto simp: undo_ok_def)
  ultimately show ?thesis unfolding undo_ok_def by blast
qed

lemma undo_inv_seg:
  assumes "undo_inv n s" "length m = SHM_SIZE"
  shows "undo_inv n (s\<lparr>shm_key := Some m\<rparr>)"
proof -
  have "undo_ok n (s\<lparr>shm_key := Some m\<rparr>) = undo_ok n s" by (simp add: undo_ok_def in_section_def fun_eq_iff)
  with assms show ?thesis by (cases "sem_key s") (simp_all add: undo_inv_def)
qed

lemma undo_inv_move:
  assumes inv: "undo_inv n s" and p: "\<not> early (shm_pc s p)" and c: "creates c" "in_section s p \<Longrightarrow> c = Inside \<or> c = Wrote"
    and sh: "shm_key s \<noteq> None"
  shows "undo_inv n (shm_goto p c s)"
proof -
  have "\<not> gone (shm_pc s p)" "\<not> unborn (shm_pc s p)"
    using p by (auto simp: early_def unborn_def create_semaphore_def)
  then have "undo_inv n (shm_goto p c (s\<lparr>sem_key := sem_key s\<rparr>))"
    using undo_ok_move [OF _ p c(2)] by (intro undo_inv_goto [OF inv _ c(1) sh]) auto
  then show ?thesis by simp
qed

lemma undo_inv_step:
  assumes inv: "undo_inv n s" and st: "shm_any pid s t"
  shows "undo_inv n t"
  using st unfolding shm_any_def
proof
  assume "shm_abort s t"
  with undo_inv_leave [OF inv] show ?thesis by (auto simp: shm_abort_leaves)
next
  have key: "shm_key s \<noteq> None" if "\<not> gone (shm_pc s p)" "\<nexists>cs. shm_pc s p = Creating cs" for p
    using inv that by (auto simp: undo_inv_def)
  have lt: "p < n" if "\<not> gone (shm_pc s p)" for p using inv that by (meson undo_inv_def not_le)
  assume "shm_step pid s t"
  then show ?thesis
  proof (cases rule: shm_step.cases)
    case (creating p c cs)
    with undo_inv_create [OF inv] show ?thesis by blast
  next
    case (getting p)
    have "undo_inv n (s\<lparr>shm_key := shmget (shm_key s)\<rparr>)"
      using inv undo_inv_seg [OF inv] by (cases "shm_key s") (auto simp: shmget_def undo_inv_def)
    with getting(2) show ?thesis unfolding getting(1)
      by (intro undo_inv_move) (auto simp: shmget_def in_section_def split: option.splits)
  next
    case (attaching p)
    with key [of p] inv show ?thesis by (auto simp: in_section_def intro!: undo_inv_move)
  next
    case (locking p v)
    have "undo_ok n (shm_goto p Inside s) v" if k: "sem_key s = Some ss" and ok: "undo_ok n s ss" for ss
    proof -
      have v: "0 < semval ss" "v = \<lparr>semval = semval ss - 1, semadj = (semadj ss)(p := semadj ss p + 1)\<rparr>"
        using locking(3) k by (auto simp: lock_semaphore_Some)
      have "semadj v q \<le> (if in_section (shm_goto p Inside s) q then 1 else 0)" for q
        using undo_adj [OF ok, of q] locking(2) by (cases "q = p") (simp_all add: v(2) in_section_def)
      moreover have "1 \<le> int (semval v) + sum (semadj v) {..<n}"
        using ok v sum_upd [of p n "semadj ss"] lt [of p] locking(2) by (auto simp: undo_ok_def) (metis early_def gone.simps(4) pc_class_simps(5))
      ultimately show ?thesis unfolding undo_ok_def by blast
    qed
    then have "undo_inv n (shm_goto p Inside (s\<lparr>sem_key := Some v\<rparr>))"
      using locking(2) key [of p] by (intro undo_inv_goto [OF inv]) auto
    then show ?thesis by (simp add: locking(1))
  next
    case (writing p m m')
    have "undo_inv n (s\<lparr>shm_key := Some m'\<rparr>)"
      using inv writing(3,4) mem_write_length by (intro undo_inv_seg) (auto simp: undo_inv_def)
    with writing(2) show ?thesis unfolding writing(1) by (intro undo_inv_move) auto
  next
    case (unlocking p)
    have "\<exists>v. unlock_semaphore p (sem_key s) = Some v \<and> undo_ok n (shm_goto p Released s) v"
      if k: "sem_key s = Some ss" and ok: "undo_ok n s ss" for ss
    proof -
      define v where "v = \<lparr>semval = Suc (semval ss), semadj = (semadj ss)(p := semadj ss p - 1)\<rparr>"
      have "semadj v q \<le> (if in_section (shm_goto p Released s) q then 1 else 0)" for q
        using undo_adj [OF ok, of q] unlocking(2) by (cases "q = p") (simp_all add: v_def in_section_def)
      moreover have "1 \<le> int (semval v) + sum (semadj v) {..<n}"
        using ok sum_upd [of p n "semadj ss"] lt [of p] unlocking(2) by (auto simp: v_def undo_ok_def) (metis gone.simps(6) pc_class_simps(7))
      ultimately have "undo_ok n (shm_goto p Released s) v" unfolding undo_ok_def by blast
      then show ?thesis by (simp add: k v_def)
    qed
    then have "undo_inv n (shm_goto p Released (s\<lparr>sem_key := unlock_semaphore p (sem_key s)\<rparr>))"
      using unlocking(2) key [of p] by (intro undo_inv_goto [OF inv]) auto
    then show ?thesis by (simp add: unlocking(1))
  next
    case (returning p)
    with undo_inv_leave [OF inv] show ?thesis by simp
  qed
qed

lemma undo_inv_reach: "shm_reach pid s t \<Longrightarrow> undo_inv n s \<Longrightarrow> undo_inv n t"
  by (induction rule: rtranclp_induct) (blast intro: undo_inv_step)+

lemma undo_inv_start:
  assumes "\<forall>ss. sem = Some ss \<longrightarrow> semadj ss = (\<lambda>_. 0)"
  shows "undo_inv n (shm_start n sem create_semaphore)"
proof -
  have "early (Creating create_semaphore)" "creates (Creating create_semaphore)"
    by (simp_all add: early_def creates_def create_semaphore_def)
  with assms show ?thesis by (auto simp: undo_inv_def shm_start_def undo_ok_def in_section_def split: option.splits)
qed

text \<open>What is written always fits: the text has at most 52 bytes.\<close>

lemma shm_text_fits:
  assumes "length m = SHM_SIZE"
  shows "\<exists>m'. mem_write m 0 (shm_text (s32 i) @ [NUL]) = Inr m'"
proof -
  have "length (shm_text (s32 i)) \<le> 52" using length_dec_int_s32 [of i] by (simp add: shm_text_def)
  with assms show ?thesis by (simp add: mem_write_def SHM_SIZE_def)
qed

lemma undo_blocked:
  assumes inv: "undo_inv n s" and p: "shm_pc s p = Locking" and block: "lock_semaphore p (sem_key s) = None"
  shows "\<exists>q. in_section s q"
proof (rule ccontr)
  assume none: "\<nexists>q. in_section s q"
  obtain ss where ss: "sem_key s = Some ss" "undo_ok n s ss"
    using inv p by (cases "sem_key s") (auto simp: undo_inv_def dest: spec [of _ p])
  have "semadj ss q \<le> 0" for q using undo_adj [OF ss(2), of q] none by auto
  then have "sum (semadj ss) {..<n} \<le> 0" by (simp add: sum_nonpos)
  moreover have "1 \<le> int (semval ss) + sum (semadj ss) {..<n}"
    using ss(2) p by (auto simp: undo_ok_def dest: spec [of _ p])
  ultimately have "0 < semval ss" by linarith
  with ss(1) block show False by (simp add: lock_semaphore_def semop_def)
qed

lemma undo_progress:
  assumes inv: "undo_inv n s" and p: "\<not> gone (shm_pc s p)" and pid: "\<forall>p. pid p = s32 (pid p)"
  shows "\<exists>t. shm_step pid s t"
proof -
  have move: "\<exists>t. shm_step pid s t" if q: "\<not> gone (shm_pc s q)" "shm_pc s q \<noteq> Locking" for q
  proof (cases "shm_pc s q")
    case (Creating cs)
    then show ?thesis by (cases cs) (blast intro: shm_step.creating shm_step.getting)+
  next
    case Inside
    then obtain m where m: "shm_key s = Some m" "length m = SHM_SIZE"
      using inv by (cases "shm_key s") (auto simp: undo_inv_def dest: spec [of _ q])
    from shm_text_fits [OF m(2), of "pid q"] pid obtain m' where
      "mem_write m 0 (shm_text (pid q) @ [NUL]) = Inr m'" by metis
    with shm_step.writing [OF Inside m(1)] show ?thesis by blast
  qed (use q in \<open>auto intro: shm_step.attaching shm_step.unlocking shm_step.returning\<close>)
  show ?thesis
  proof (cases "shm_pc s p = Locking")
    case True
    show ?thesis
    proof (cases "lock_semaphore p (sem_key s)")
      case None
      from undo_blocked [OF inv True None] obtain q where "in_section s q" ..
      then have "\<not> gone (shm_pc s q)" "shm_pc s q \<noteq> Locking" by (auto simp: in_section_def)
      then show ?thesis by (rule move)
    qed (use True in \<open>blast intro: shm_step.locking\<close>)
  qed (use move p in blast)
qed

text \<open>Every step, a failure or a death included, brings its process closer to its end.\<close>

fun shm_left :: "shm_pc \<Rightarrow> nat" where
  "shm_left (Creating cs) = length cs + 6" | "shm_left Attaching = 5" | "shm_left Locking = 4"
| "shm_left Inside = 3" | "shm_left Wrote = 2" | "shm_left Released = 1" | "shm_left (Gone r) = 0"

lemma shm_left_gone: "\<not> gone c \<Longrightarrow> 0 < shm_left c"
  by (cases c) simp_all

lemma shm_any_moves:
  assumes "shm_any pid s t"
  shows "\<exists>p c. shm_pc t = (shm_pc s)(p := c) \<and> \<not> gone (shm_pc s p) \<and> shm_left c < shm_left (shm_pc s p)"
  using assms unfolding shm_any_def
proof
  assume "shm_abort s t"
  then show ?thesis using shm_left_gone by (fastforce simp: shm_abort_leaves)
next
  assume "shm_step pid s t"
  then show ?thesis
  proof cases
    case (creating p c cs)
    then show ?thesis by (intro exI [of _ p] exI [of _ "Creating cs"]) simp
  next
    case (getting p)
    then show ?thesis by (intro exI [of _ p] exI [of _ Attaching]) simp
  next
    case (attaching p)
    then show ?thesis by (intro exI [of _ p] exI [of _ Locking]) simp
  next
    case (locking p v)
    then show ?thesis by (intro exI [of _ p] exI [of _ Inside]) simp
  next
    case (writing p m m')
    then show ?thesis by (intro exI [of _ p] exI [of _ Wrote]) simp
  next
    case (unlocking p)
    then show ?thesis by (intro exI [of _ p] exI [of _ Released]) simp
  next
    case (returning p)
    then show ?thesis by (intro exI [of _ p] exI [of _ "Gone (Some 0)"]) simp
  qed
qed

definition shm_effort :: "nat \<Rightarrow> sysv \<Rightarrow> nat" where
  "shm_effort n s = (\<Sum>p<n. shm_left (shm_pc s p))"

lemma shm_any_effort:
  assumes "shm_any pid s t" "undo_inv n s"
  shows "shm_effort n t < shm_effort n s"
proof -
  from shm_any_moves [OF assms(1)] obtain p c where
    m: "shm_pc t = (shm_pc s)(p := c)" "\<not> gone (shm_pc s p)" "shm_left c < shm_left (shm_pc s p)" by blast
  have "p < n" using assms(2) m(2) by (meson undo_inv_def not_le)
  then show ?thesis unfolding shm_effort_def
    by (intro sum_strict_mono_ex1) (use m(1,3) in \<open>auto intro!: bexI [of _ p]\<close>)
qed

lemma shm_any_bound: "(shm_any pid ^^ k) s t \<Longrightarrow> undo_inv n s \<Longrightarrow> undo_inv n t \<and> k + shm_effort n t \<le> shm_effort n s"
proof (induction k arbitrary: t)
  case (Suc k)
  then obtain u where u: "(shm_any pid ^^ k) s u" "shm_any pid u t" by auto
  with Suc have "undo_inv n u" "k + shm_effort n u \<le> shm_effort n s" by simp_all
  then show ?case using undo_inv_step [OF _ u(2)] shm_any_effort [OF u(2)] by fastforce
qed simp

section \<open>The two guarantees\<close>

lemma shm_arrive:
  assumes "shm_pc s p = Creating create_semaphore"
  shows "\<exists>t. (shm_any pid ^^ 4) s t \<and> shm_pc t = (shm_pc s)(p := Locking) \<and> sem_key t = Some (fresh_set 1)"
proof -
  define s1 where "s1 = shm_goto p (Creating [\<lambda>sem. semctl_setval sem 1]) (s\<lparr>sem_key := semget (sem_key s)\<rparr>)"
  define s2 where "s2 = shm_goto p (Creating []) (s1\<lparr>sem_key := Some (fresh_set 1)\<rparr>)"
  define s3 where "s3 = shm_goto p Attaching (s2\<lparr>shm_key := shmget (shm_key s2)\<rparr>)"
  define s4 where "s4 = shm_goto p Locking s3"
  have "shm_step pid s s1" using shm_step.creating [of s p semget] assms by (simp add: create_semaphore_def s1_def)
  moreover have "shm_step pid s1 s2"
    using shm_step.creating [of s1 p "\<lambda>sem. semctl_setval sem 1" "[]"] by (cases "sem_key s") (simp_all add: s1_def s2_def)
  moreover have "shm_step pid s2 s3" unfolding s3_def by (rule shm_step.getting) (simp add: s2_def)
  moreover have "shm_step pid s3 s4" unfolding s4_def by (rule shm_step.attaching) (simp add: s3_def)
  ultimately have "(shm_any pid ^^ 4) s s4"
    by (simp add: numeral_eq_Suc) (unfold relcompp_apply shm_any_def, blast)
  moreover have "shm_pc s4 = (shm_pc s)(p := Locking)" "sem_key s4 = Some (fresh_set 1)"
    by (simp_all add: s4_def s3_def s2_def s1_def)
  ultimately show ?thesis by blast
qed

lemma shm_enter:
  assumes "shm_pc s p = Locking" "sem_key s = Some (fresh_set 1)"
  shows "\<exists>t. shm_any pid s t \<and> shm_pc t = (shm_pc s)(p := Inside)"
proof -
  have "lock_semaphore p (sem_key s) = Some \<lparr>semval = 0, semadj = (\<lambda>_. 0)(p := 1)\<rparr>"
    by (simp add: assms(2) lock_semaphore_Some)
  with shm_step.locking [OF assms(1)] have
    "shm_any pid s (shm_goto p Inside (s\<lparr>sem_key := Some \<lparr>semval = 0, semadj = (\<lambda>_. 0)(p := 1)\<rparr>\<rparr>))"
    by (simp add: shm_any_def)
  moreover have "shm_pc (shm_goto p Inside (s\<lparr>sem_key := k\<rparr>)) = (shm_pc s)(p := Inside)" for k by simp
  ultimately show ?thesis by blast
qed

lemma shm_run_in:
  assumes "shm_pc s p = Creating create_semaphore"
  shows "\<exists>t. (shm_any pid ^^ 5) s t \<and> shm_pc t = (shm_pc s)(p := Inside)"
proof -
  from shm_arrive [OF assms] obtain t where t: "(shm_any pid ^^ 4) s t" "shm_pc t = (shm_pc s)(p := Locking)"
    "sem_key t = Some (fresh_set 1)" by blast
  with shm_enter [of t p pid] obtain u where u: "shm_any pid t u" "shm_pc u = (shm_pc s)(p := Inside)" by auto
  have "(shm_any pid ^^ Suc 4) s u" using t(1) u(1) by (rule relpowp_Suc_I)
  with u(2) show ?thesis by auto
qed

lemma shm_violation:
  "\<exists>s. shm_reach pid (shm_start 2 None create_semaphore) s \<and> in_section s 0 \<and> in_section s 1"
proof -
  let ?s = "shm_start 2 None create_semaphore"
  have "shm_pc ?s 0 = Creating create_semaphore" by (simp add: shm_start_def)
  from shm_run_in [OF this] obtain t where t: "(shm_any pid ^^ 5) ?s t" "shm_pc t = (shm_pc ?s)(0 := Inside)" by blast
  have "shm_pc t 1 = Creating create_semaphore" by (simp add: t(2) shm_start_def)
  from shm_run_in [OF this] obtain u where u: "(shm_any pid ^^ 5) t u" "shm_pc u = (shm_pc t)(1 := Inside)" by blast
  have "shm_reach pid ?s u" using t(1) u(1) by (meson relpowp_imp_rtranclp rtranclp_trans)
  moreover have "in_section u 0" "in_section u 1" by (simp_all add: in_section_def u(2) t(2))
  ultimately show ?thesis by blast
qed

text \<open>
  C29: \<open>create_semaphore\<close> sets the value to 1 whether or not the semaphore is new, against its
  comment. Two processes started one after the other can therefore be in the critical section
  together. Only when no process starts after the first has taken the lock, so that all calls
  of \<open>create_semaphore\<close> are over, is there at most one process in the section, whatever calls
  fail and wherever processes are killed.
\<close>

theorem shm_setval_breaks_lock:
  "(\<exists>s. shm_reach pid (shm_start 2 None create_semaphore) s \<and> in_section s 0 \<and> in_section s 1) \<and>
   (\<forall>n s p q. shm_reach pid (shm_start n (Some (fresh_set 1)) []) s \<and> in_section s p \<and> in_section s q \<longrightarrow> p = q)"
proof (intro conjI allI impI)
  show "\<exists>s. shm_reach pid (shm_start 2 None create_semaphore) s \<and> in_section s 0 \<and> in_section s 1"
    by (rule shm_violation)
  fix n s p q
  assume a: "shm_reach pid (shm_start n (Some (fresh_set 1)) []) s \<and> in_section s p \<and> in_section s q"
  have "shm_inv (shm_start n (Some (fresh_set 1)) []) None"
    by (simp add: shm_inv_def shm_start_def in_section_def fresh_set_def sysv_lock_def)
  with a obtain h where "shm_inv s h" using shm_inv_reach by blast
  with a show "p = q" by (auto simp: shm_inv_def)
qed

lemma shm_one_step:
  "shm_step pid (shm_start 4 (Some (fresh_set 1)) []) (shm_goto 3 Attaching ((shm_start 4 (Some (fresh_set 1)) [])\<lparr>shm_key := Some (replicate SHM_SIZE NUL)\<rparr>))"
  using shm_step.getting [of "shm_start 4 (Some (fresh_set 1)) []" 3 pid] by (simp add: shm_start_def shmget_def)

theorem shm_setval_breaks_lock_witness:
  "\<exists>s. shm_reach int (shm_start 4 (Some (fresh_set 1)) []) s \<and> in_section s 3 \<and> \<not> in_section s 2"
proof -
  let ?s0 = "shm_start 4 (Some (fresh_set 1)) []"
  define s1 where "s1 = shm_goto 3 Attaching (?s0\<lparr>shm_key := Some (replicate SHM_SIZE NUL)\<rparr>)"
  define s2 where "s2 = shm_goto 3 Locking s1"
  define s3 where "s3 = shm_goto 3 Inside (s2\<lparr>sem_key := Some \<lparr>semval = 0, semadj = (\<lambda>_. 0)(3 := 1)\<rparr>\<rparr>)"
  have "shm_step int ?s0 s1" unfolding s1_def by (rule shm_one_step)
  moreover have "shm_step int s1 s2" unfolding s2_def by (rule shm_step.attaching) (simp add: s1_def)
  moreover have "shm_step int s2 s3" unfolding s3_def
    by (rule shm_step.locking) (simp_all add: s2_def s1_def shm_start_def lock_semaphore_Some)
  ultimately have run: "shm_reach int ?s0 s3"
    by (metis (no_types, lifting) shm_any_def converse_rtranclp_into_rtranclp r_into_rtranclp)
  have "in_section s3 3" by (simp add: s3_def in_section_def)
  moreover from this run have "in_section s3 2 \<Longrightarrow> (3::nat) = 2"
    using shm_setval_breaks_lock [THEN conjunct2, rule_format, of int 4 s3 3 2] by blast
  ultimately show ?thesis using run by auto
qed

text \<open>
  C30: however late the processes start, whichever of their calls fail and wherever they are
  killed: a process that waits for the semaphore waits for a living process in the critical
  section, never for one that is gone; as long as any process lives, one can make its next call;
  and the run is over after at most eight steps per process. The adjustments of \<open>SEM_UNDO\<close>
  are what makes this true.
\<close>

theorem shm_undo_recovers:
  assumes "(shm_any pid ^^ k) (shm_start n sem create_semaphore) s"
    and "\<forall>ss. sem = Some ss \<longrightarrow> semadj ss = (\<lambda>_. 0)" and "\<forall>p. pid p = s32 (pid p)"
  shows "k \<le> 8 * n \<and>
    (\<forall>p. shm_pc s p = Locking \<and> lock_semaphore p (sem_key s) = None \<longrightarrow> (\<exists>q. in_section s q)) \<and>
    ((\<exists>p. \<not> gone (shm_pc s p)) \<longrightarrow> (\<exists>t. shm_step pid s t))"
proof -
  have "shm_effort n (shm_start n sem create_semaphore) = 8 * n"
    by (simp add: shm_effort_def shm_start_def create_semaphore_def)
  with shm_any_bound [OF assms(1) undo_inv_start [OF assms(2)]] have "undo_inv n s" "k \<le> 8 * n" by auto
  then show ?thesis using undo_blocked undo_progress [OF _ _ assms(3)] by blast
qed

text \<open>One process waits while another has the semaphore and is killed: the one that waits goes on.\<close>

theorem shm_undo_recovers_witness:
  "\<exists>s t. (shm_any (\<lambda>_. 100) ^^ 10) (shm_start 2 None create_semaphore) s \<and> shm_pc s 0 = Gone None \<and>
     shm_pc s 1 = Locking \<and> shm_step (\<lambda>_. 100) s t"
proof -
  let ?s = "shm_start 2 None create_semaphore" and ?any = "shm_any (\<lambda>_. 100)"
  have "shm_pc ?s 1 = Creating create_semaphore" by (simp add: shm_start_def)
  from shm_arrive [OF this] obtain t where t: "(?any ^^ 4) ?s t" "shm_pc t = (shm_pc ?s)(1 := Locking)" by blast
  have "shm_pc t 0 = Creating create_semaphore" by (simp add: t(2) shm_start_def)
  from shm_run_in [OF this] obtain u where u: "(?any ^^ 5) t u" "shm_pc u = (shm_pc t)(0 := Inside)" by blast
  have "?any u (leave 0 None u)" unfolding shm_any_def by (simp add: shm_abort.dying u(2))
  moreover have "(?any ^^ 9) ?s u" using relpowp_trans [OF t(1) u(1)] by simp
  ultimately have run: "(?any ^^ 10) ?s (leave 0 None u)" using relpowp_Suc_I [of 9 ?any] by fastforce
  have pc: "shm_pc (leave 0 None u) 0 = Gone None" "shm_pc (leave 0 None u) 1 = Locking" by (simp_all add: u(2) t(2))
  then have "\<exists>p. \<not> gone (shm_pc (leave 0 None u) p)" by (metis gone.simps(4))
  then have "\<exists>t. shm_step (\<lambda>_. 100) (leave 0 None u) t"
    using shm_undo_recovers [OF run] by (simp add: s32_id)
  with run pc show ?thesis by blast
qed

end
