(* ===== verification/Calendar.thy ===== *)
theory Calendar
  imports Messages
begin

text \<open>
  Calendar time: what \<open>localtime\<close>, \<open>strftime\<close> and \<open>ctime\<close> compute for the time stamps of
  \<open>C/logger.c\<close> and \<open>C/health.c\<close>, the lines of \<open>C/open.c\<close> and the output of \<open>C/time_t.c\<close>. Times
  are seconds from 1970 on; the time zone is a fixed number of seconds east of Greenwich.
\<close>

section \<open>Broken-down time\<close>

definition leap :: "nat \<Rightarrow> bool" where
  "leap y \<longleftrightarrow> 4 dvd y \<and> \<not> 100 dvd y \<or> 400 dvd y"

definition month_lengths :: "nat \<Rightarrow> nat list" where
  "month_lengths y = [31, if leap y then 29 else 28, 31, 30, 31, 30, 31, 31, 30, 31, 30, 31]"

definition year_days :: "nat \<Rightarrow> nat" where
  "year_days y = (if leap y then 366 else 365)"

text \<open>From a number of days to a year and a day of it, and on to a month and a day of that.\<close>

function year_of :: "nat \<Rightarrow> nat \<Rightarrow> nat \<times> nat" where
  "year_of y d = (if d < year_days y then (y, d) else year_of (Suc y) (d - year_days y))"
  by pat_completeness auto
termination by (relation "measure snd") (auto simp: year_days_def)

declare year_of.simps [simp del]

fun month_of :: "nat \<Rightarrow> nat list \<Rightarrow> nat \<Rightarrow> nat \<times> nat" where
  "month_of m [] d = (m, d)"
| "month_of m (l # ls) d = (if d < l then (m, d) else month_of (Suc m) ls (d - l))"

record tm =
  tm_year :: nat
  tm_mon :: nat
  tm_mday :: nat
  tm_hour :: nat
  tm_min :: nat
  tm_sec :: nat
  tm_wday :: nat

text \<open>\<open>tm_year\<close> is the full year here; C stores it less 1900.\<close>

definition gmtime :: "nat \<Rightarrow> tm" where
  "gmtime t =
     (let (y, d) = year_of 1970 (t div 86400); (m, r) = month_of 0 (month_lengths y) d; s = t mod 86400 in
      \<lparr>tm_year = y, tm_mon = m, tm_mday = Suc r, tm_hour = s div 3600, tm_min = s mod 3600 div 60, tm_sec = s mod 60,
       tm_wday = (t div 86400 + 4) mod 7\<rparr>)"

definition localtime :: "int \<Rightarrow> nat \<Rightarrow> tm" where
  "localtime zone t = gmtime (nat (int t + zone))"

section \<open>Its text\<close>

definition dec_pad :: "nat \<Rightarrow> nat \<Rightarrow> string" where
  "dec_pad w n = replicate (w - length (dec_nat n)) CHR ''0'' @ dec_nat n"

text \<open>\<open>strftime\<close> with \<open>"%Y-%m-%d %H:%M:%S"\<close>.\<close>

definition stamp_text :: "tm \<Rightarrow> string" where
  "stamp_text tm = dec_pad 4 (tm_year tm) @ ''-'' @ dec_pad 2 (tm_mon tm + 1) @ ''-'' @ dec_pad 2 (tm_mday tm) @ '' '' @
     dec_pad 2 (tm_hour tm) @ '':'' @ dec_pad 2 (tm_min tm) @ '':'' @ dec_pad 2 (tm_sec tm)"

definition log_stamp :: "int \<Rightarrow> nat \<Rightarrow> string" where
  "log_stamp zone t = stamp_text (localtime zone t)"

definition day_names :: "string list" where
  "day_names = [''Sun'', ''Mon'', ''Tue'', ''Wed'', ''Thu'', ''Fri'', ''Sat'']"

definition month_names :: "string list" where
  "month_names = [''Jan'', ''Feb'', ''Mar'', ''Apr'', ''May'', ''Jun'', ''Jul'', ''Aug'', ''Sep'', ''Oct'', ''Nov'', ''Dec'']"

definition blank_pad :: "nat \<Rightarrow> string \<Rightarrow> string" where
  "blank_pad w s = replicate (w - length s) CHR '' '' @ s"

text \<open>\<open>ctime\<close>: \<open>"%.3s %.3s%3d %.2d:%.2d:%.2d %d\n"\<close>.\<close>

definition asctime :: "tm \<Rightarrow> string" where
  "asctime tm = day_names ! tm_wday tm @ '' '' @ month_names ! tm_mon tm @ blank_pad 3 (dec_nat (tm_mday tm)) @ '' '' @
     dec_pad 2 (tm_hour tm) @ '':'' @ dec_pad 2 (tm_min tm) @ '':'' @ dec_pad 2 (tm_sec tm) @ '' '' @ dec_nat (tm_year tm) @ [NL]"

definition ctime :: "int \<Rightarrow> nat \<Rightarrow> string" where
  "ctime zone t = asctime (localtime zone t)"

text \<open>\<open>time_t.c\<close>: \<open>%ld\<close> of \<open>(long)t\<close>, which has 32 bits, and the date.\<close>

definition time_t_main :: "int \<Rightarrow> nat \<Rightarrow> string list" where
  "time_t_main zone t = [''time_t = '' @ dec_int (s32 (int t)) @ [NL], ''ctime  = '' @ ctime zone t]"

text \<open>The order of \<open>strcmp\<close> and of \<open>sort\<close>: byte by byte.\<close>

fun str_less :: "string \<Rightarrow> string \<Rightarrow> bool" where
  "str_less (x # xs) (y # ys) = ((of_char x :: nat) < of_char y \<or> x = y \<and> str_less xs ys)"
| "str_less [] (y # ys) = True"
| "str_less xs [] = False"

lemma replicate_2: "replicate 2 x = [x, x]"
  by (simp add: numeral_2_eq_2)

lemma year_of_2026: "year_of 1970 20717 = (2026, 263)"
  by (simp add: year_of.simps year_days_def leap_def)

lemma ctime_example: "ctime 32400 0 = ''Thu Jan  1 09:00:00 1970'' @ [NL]"
  by (simp add: ctime_def localtime_def gmtime_def year_of.simps year_days_def leap_def month_lengths_def Let_def
      asctime_def day_names_def month_names_def blank_pad_def dec_pad_def dec_nat.simps digit_chars replicate_2)

section \<open>Order\<close>

lemma year_of_rest: "snd (year_of y d) < year_days (fst (year_of y d)) \<and> y \<le> fst (year_of y d)"
proof (induction y d rule: year_of.induct)
  case (1 y d)
  then show ?case by (subst (1 2 3) year_of.simps) (auto simp: Suc_le_eq)
qed

lemma year_of_less:
  "d < d' \<Longrightarrow> year_of y d = (a, r) \<Longrightarrow> year_of y d' = (a', r') \<Longrightarrow> a < a' \<or> a = a' \<and> r < r'"
proof (induction y d arbitrary: d' rule: year_of.induct)
  case (1 y d)
  show ?case
  proof (cases "d < year_days y")
    case True
    then have a: "a = y" "r = d" using "1.prems"(2) by (simp_all add: year_of.simps [of y d])
    show ?thesis
    proof (cases "d' < year_days y")
      case True
      then show ?thesis using "1.prems" a by (simp add: year_of.simps [of y d'])
    next
      case False
      then have "year_of (Suc y) (d' - year_days y) = (a', r')" using "1.prems"(3) by (simp add: year_of.simps [of y d'])
      then show ?thesis using year_of_rest [of "Suc y" "d' - year_days y"] a by simp
    qed
  next
    case False
    then have "d - year_days y < d' - year_days y" "year_of (Suc y) (d - year_days y) = (a, r)"
      "year_of (Suc y) (d' - year_days y) = (a', r')"
      using "1.prems" by (simp_all add: year_of.simps [of y d] year_of.simps [of y d'])
    with "1.IH" [OF False] show ?thesis by blast
  qed
qed

lemma month_of_rest:
  "d < sum_list ls \<Longrightarrow> month_of m ls d = (a, r) \<Longrightarrow> m \<le> a \<and> a < m + length ls \<and> r < ls ! (a - m)"
proof (induction m ls d rule: month_of.induct)
  case (2 m l ls d)
  show ?case
  proof (cases "d < l")
    case False
    then have "d - l < sum_list ls" "month_of (Suc m) ls (d - l) = (a, r)" using "2.prems" by auto
    from "2.IH" [OF False this] have "Suc m \<le> a \<and> a < Suc m + length ls \<and> r < ls ! (a - Suc m)" .
    then show ?thesis by (auto simp: nth_Cons')
  qed (use 2 in auto)
qed simp

lemma month_of_ge: "month_of m ls d = (a, r) \<Longrightarrow> m \<le> a"
  by (induction m ls d rule: month_of.induct) (auto split: if_splits)

lemma month_of_less:
  "d < d' \<Longrightarrow> month_of m ls d = (a, r) \<Longrightarrow> month_of m ls d' = (a', r') \<Longrightarrow> a < a' \<or> a = a' \<and> r < r'"
proof (induction m ls d arbitrary: d' rule: month_of.induct)
  case (2 m l ls d)
  show ?case
  proof (cases "d < l")
    case True
    show ?thesis
    proof (cases "d' < l")
      case False
      then have "month_of (Suc m) ls (d' - l) = (a', r')" using "2.prems" by simp
      from month_of_ge [OF this] show ?thesis using True "2.prems" by simp
    qed (use True "2.prems" in auto)
  next
    case False
    then have "d - l < d' - l" "month_of (Suc m) ls (d - l) = (a, r)" "month_of (Suc m) ls (d' - l) = (a', r')"
      using "2.prems" by auto
    with "2.IH" [OF False] show ?thesis by blast
  qed
qed simp

lemma sum_month_lengths: "sum_list (month_lengths y) = year_days y"
  by (simp add: month_lengths_def year_days_def)

lemma month_length: "m < 12 \<Longrightarrow> month_lengths y ! m \<le> 31"
  by (auto simp: month_lengths_def numeral_eq_Suc less_Suc_eq)

text \<open>Every field is in its range.\<close>

lemma gmtime_ranges:
  "tm_mon (gmtime t) < 12" "1 \<le> tm_mday (gmtime t)" "tm_mday (gmtime t) \<le> month_lengths (tm_year (gmtime t)) ! tm_mon (gmtime t)"
  "tm_hour (gmtime t) < 24" "tm_min (gmtime t) < 60" "tm_sec (gmtime t) < 60" "tm_wday (gmtime t) < 7" "1970 \<le> tm_year (gmtime t)"
proof -
  obtain y d where y: "year_of 1970 (t div 86400) = (y, d)" by fastforce
  obtain m r where m: "month_of 0 (month_lengths y) d = (m, r)" by fastforce
  have "d < year_days y \<and> 1970 \<le> y" using year_of_rest [of 1970 "t div 86400"] by (simp add: y)
  moreover from this have "m < 12 \<and> r < month_lengths y ! m"
    using month_of_rest [OF _ m] by (simp add: sum_month_lengths) (simp add: month_lengths_def)
  ultimately show "tm_mon (gmtime t) < 12" "1 \<le> tm_mday (gmtime t)" "1970 \<le> tm_year (gmtime t)"
    "tm_mday (gmtime t) \<le> month_lengths (tm_year (gmtime t)) ! tm_mon (gmtime t)"
    by (simp_all add: gmtime_def y m Let_def)
  show "tm_hour (gmtime t) < 24" "tm_min (gmtime t) < 60" "tm_sec (gmtime t) < 60" "tm_wday (gmtime t) < 7"
    by (simp_all add: gmtime_def y m Let_def less_mult_imp_div_less)
qed

text \<open>The fields in order of weight.\<close>

definition tm_fields :: "tm \<Rightarrow> nat list" where
  "tm_fields tm = [tm_year tm, tm_mon tm, tm_mday tm, tm_hour tm, tm_min tm, tm_sec tm]"

fun lex_less :: "nat list \<Rightarrow> nat list \<Rightarrow> bool" where
  "lex_less (x # xs) (y # ys) = (x < y \<or> x = y \<and> lex_less xs ys)"
| "lex_less [] (y # ys) = True"
| "lex_less xs [] = False"

lemma div_mod_less: "a < b \<Longrightarrow> a div k < b div k \<or> a div k = b div k \<and> a mod k < b mod k" for a b k :: nat
  using div_le_mono [of a b k] mult_div_mod_eq [of k a] mult_div_mod_eq [of k b] by (metis le_neq_implies_less less_imp_le nat_add_left_cancel_less)

lemma clock_less:
  fixes s s' :: nat
  assumes "s < s'"
  shows "lex_less [s div 3600, s mod 3600 div 60, s mod 60] [s' div 3600, s' mod 3600 div 60, s' mod 60]"
proof -
  have m: "a mod 3600 mod 60 = a mod 60" for a :: nat by (simp add: mod_mod_cancel)
  from div_mod_less [OF assms, of 3600] show ?thesis
  proof
    assume "s div 3600 = s' div 3600 \<and> s mod 3600 < s' mod 3600"
    with div_mod_less [of "s mod 3600" "s' mod 3600" 60] show ?thesis by (simp add: m)
  qed simp
qed

lemma gmtime_less:
  assumes "t < t'"
  shows "lex_less (tm_fields (gmtime t)) (tm_fields (gmtime t'))"
proof -
  obtain y d where y: "year_of 1970 (t div 86400) = (y, d)" by fastforce
  obtain m r where m: "month_of 0 (month_lengths y) d = (m, r)" by fastforce
  obtain y' d' where y': "year_of 1970 (t' div 86400) = (y', d')" by fastforce
  obtain m' r' where m': "month_of 0 (month_lengths y') d' = (m', r')" by fastforce
  show ?thesis
  proof (cases "t div 86400 = t' div 86400")
    case True
    then have "t mod 86400 < t' mod 86400"
      using assms mult_div_mod_eq [of 86400 t] mult_div_mod_eq [of 86400 t'] by linarith
    from clock_less [OF this] show ?thesis by (simp add: tm_fields_def gmtime_def y [unfolded True] y m Let_def True)
  next
    case False
    then have "t div 86400 < t' div 86400" using assms div_le_mono [of t t' 86400] by linarith
    from year_of_less [OF this y y'] have "y < y' \<or> y = y' \<and> d < d'" .
    then show ?thesis using month_of_less [of d d' 0 "month_lengths y" m r m' r'] m m'
      by (auto simp: tm_fields_def gmtime_def y y' m m' Let_def)
  qed
qed

section \<open>Fixed width\<close>

fun fixed :: "nat \<Rightarrow> nat \<Rightarrow> string" where
  "fixed 0 n = []"
| "fixed (Suc w) n = fixed w (n div 10) @ [digit (n mod 10)]"

lemma length_fixed [simp]: "length (fixed w n) = w"
  by (induction w arbitrary: n) simp_all

lemma fixed_0: "fixed w 0 = replicate w CHR ''0''"
  by (induction w) (simp_all add: digit_chars replicate_append_same)

lemma dec_pad_fixed: "n < 10 ^ w \<Longrightarrow> 0 < w \<Longrightarrow> dec_pad w n = fixed w n"
proof (induction w arbitrary: n)
  case (Suc w)
  show ?case
  proof (cases "n < 10")
    case True
    then show ?thesis by (simp add: dec_pad_def dec_nat.simps [of n] fixed_0)
  next
    case False
    then have "0 < w" using Suc.prems by (cases w) auto
    moreover have "n div 10 < 10 ^ w" using Suc.prems(1) by (simp add: less_mult_imp_div_less mult.commute)
    ultimately have "dec_pad w (n div 10) = fixed w (n div 10)" by (rule Suc.IH [rotated])
    then show ?thesis using False by (simp add: dec_pad_def dec_nat.simps [of n])
  qed
qed simp

lemma length_dec_pad: "n < 10 ^ w \<Longrightarrow> 0 < w \<Longrightarrow> length (dec_pad w n) = w"
  by (simp add: dec_pad_fixed)

lemma str_less_append:
  "length a = length a' \<Longrightarrow> str_less (a @ b) (a' @ b') \<longleftrightarrow> str_less a a' \<or> a = a' \<and> str_less b b'"
  by (induction a a' rule: list_induct2) auto

lemma fixed_less: "m < n \<Longrightarrow> n < 10 ^ w \<Longrightarrow> str_less (fixed w m) (fixed w n)"
proof (induction w arbitrary: m n)
  case (Suc w)
  have "n div 10 < 10 ^ w" using Suc.prems(2) by (simp add: less_mult_imp_div_less mult.commute)
  with div_mod_less [OF Suc.prems(1), of 10] show ?case
    using Suc.IH [of "m div 10" "n div 10"] by (auto simp: str_less_append of_char_digit)
qed simp

text \<open>Fields of the same width are compared one after the other.\<close>

lemma field_less:
  assumes "m < n \<or> m = n \<and> str_less b b'" "m < 10 ^ w" "n < 10 ^ w" "0 < w"
  shows "str_less (dec_pad w m @ c # b) (dec_pad w n @ c # b')"
  using assms fixed_less [of m n w] by (auto simp: dec_pad_fixed str_less_append)



section \<open>Lines with a date\<close>

lemma dec_nat_plain: "NL \<notin> set (dec_nat n)" "NUL \<notin> set (dec_nat n)"
  using dec_nat_digits [of NL n] dec_nat_digits [of NUL n] digit_neq(2,3) by metis+

lemma padding_plain: "NL \<notin> set (dec_pad w n)" "NUL \<notin> set (dec_pad w n)" "NL \<notin> set (blank_pad w (dec_nat n))" "NUL \<notin> set (blank_pad w (dec_nat n))"
  using dec_nat_plain [of n] by (auto simp: dec_pad_def blank_pad_def NL_def NUL_def)

definition plain_name :: "string \<Rightarrow> bool" where
  "plain_name s \<longleftrightarrow> length s = 3 \<and> NL \<notin> set s \<and> NUL \<notin> set s"

lemma names_plain: "\<forall>s \<in> set (day_names @ month_names). plain_name s" "length day_names = 7" "length month_names = 12"
  by (simp_all add: day_names_def month_names_def plain_name_def NL_def NUL_def)

text \<open>\<open>ctime\<close> ends its text with the only newline in it.\<close>

lemma ctime_shape:
  assumes "tm_year (localtime zone t) < 10000"
  shows "\<exists>s. ctime zone t = s @ [NL] \<and> NL \<notin> set s \<and> NUL \<notin> set s \<and> length s \<le> 24"
proof -
  define tm where "tm = localtime zone t"
  have r: "tm_mon tm < 12" "tm_mday tm < 10 ^ 2" "tm_hour tm < 10 ^ 2" "tm_min tm < 10 ^ 2" "tm_sec tm < 10 ^ 2" "tm_wday tm < 7" "tm_year tm < 10 ^ 4"
    using gmtime_ranges [of "nat (int t + zone)"] month_length [of "tm_mon tm" "tm_year tm"] assms
    by (simp_all add: tm_def localtime_def)
  have "day_names ! tm_wday tm \<in> set (day_names @ month_names)" "month_names ! tm_mon tm \<in> set (day_names @ month_names)"
    using r names_plain(2,3) by simp_all
  then have n: "plain_name (day_names ! tm_wday tm)" "plain_name (month_names ! tm_mon tm)" using names_plain(1) by blast+
  have l: "length (blank_pad 3 (dec_nat (tm_mday tm))) \<le> 3" "length (dec_nat (tm_year tm)) \<le> 4"
    using length_dec_nat [of "tm_mday tm" 2] length_dec_nat [of "tm_year tm" 4] r by (simp_all add: blank_pad_def)
  let ?s = "day_names ! tm_wday tm @ '' '' @ month_names ! tm_mon tm @ blank_pad 3 (dec_nat (tm_mday tm)) @ '' '' @
     dec_pad 2 (tm_hour tm) @ '':'' @ dec_pad 2 (tm_min tm) @ '':'' @ dec_pad 2 (tm_sec tm) @ '' '' @ dec_nat (tm_year tm)"
  have "ctime zone t = ?s @ [NL]" by (simp add: ctime_def asctime_def flip: tm_def)
  moreover have "NL \<notin> set ?s" "NUL \<notin> set ?s"
    using n padding_plain dec_nat_plain by (simp_all add: plain_name_def) (simp_all add: NL_def NUL_def)
  moreover have "length ?s \<le> 24" using n l r by (simp add: plain_name_def length_dec_pad)
  ultimately show ?thesis by blast
qed

definition newlines :: "string \<Rightarrow> nat" where
  "newlines s = length (filter (\<lambda>c. c = NL) s)"

lemma newlines_append [simp]: "newlines (a @ b) = newlines a + newlines b"
  by (simp add: newlines_def)

lemma newlines_none: "NL \<notin> set s \<Longrightarrow> newlines s = 0"
  by (auto simp: newlines_def filter_empty_conv)

lemma open_line_newlines:
  assumes "tm_year (localtime zone t) < 10000"
  shows "newlines (open_line (ctime zone t) pid) = 2"
proof -
  obtain s where s: "ctime zone t = s @ [NL]" "NL \<notin> set s" using ctime_shape [OF assms] by blast
  have "NL \<notin> set (dec_int pid)" using dec_nat_plain(1) by (auto simp: dec_int_def) (auto simp: NL_def)
  then have "newlines (dec_int pid) = 0" by (rule newlines_none)
  moreover have "newlines [NL] = 1" "newlines '' PID:'' = 0" by (simp_all add: newlines_def NL_def)
  moreover have "open_line (ctime zone t) pid = s @ [NL] @ '' PID:'' @ dec_int pid @ [NL]" by (simp add: open_line_def s(1))
  ultimately show ?thesis using newlines_none [OF s(2)] by (simp only: newlines_append)
qed

text \<open>
  C39: the programs that print \<open>ctime\<close>. \<open>open.c\<close> stays in its buffer and appends all its records,
  but each takes two lines, because the text of \<open>ctime\<close> ends with a newline of its own.
  \<open>time_t.c\<close> prints the number of seconds through a \<open>long\<close> of 32 bits: it is the time exactly
  until January 2038, and never afterwards, while the date below it stays right.
\<close>

theorem ctime_programs:
  assumes "length buf = 256" and "0 \<le> fd" and "\<forall>t \<in> set ts. tm_year (localtime zone t) < 10000"
  shows "(\<exists>out. open_loop10 fd (s32 pid) buf (map (ctime zone) ts) = Inr out \<and>
      out = concat (map (\<lambda>t. open_line (ctime zone t) (s32 pid)) ts) \<and> newlines out = 2 * length ts) \<and>
    (\<forall>t. time_t_main zone t = [''time_t = '' @ dec_int (int t) @ [NL], ''ctime  = '' @ ctime zone t] \<longleftrightarrow> t < 2147483648)"
proof
  have c: "\<forall>u \<in> set (map (ctime zone) ts). length u \<le> 26 \<and> NUL \<notin> set u"
  proof
    fix u assume "u \<in> set (map (ctime zone) ts)"
    then obtain t where "u = ctime zone t" "t \<in> set ts" by auto
    with assms(3) ctime_shape [of zone t] show "length u \<le> 26 \<and> NUL \<notin> set u" by (auto simp: NL_def NUL_def)
  qed
  have "newlines (concat (map (\<lambda>t. open_line (ctime zone t) (s32 pid)) ts)) = 2 * length ts"
    using assms(3) by (induction ts) (simp_all add: open_line_newlines, simp add: newlines_def)
  then show "\<exists>out. open_loop10 fd (s32 pid) buf (map (ctime zone) ts) = Inr out \<and>
      out = concat (map (\<lambda>t. open_line (ctime zone t) (s32 pid)) ts) \<and> newlines out = 2 * length ts"
    using open_log_lines [OF assms(1) c, of fd pid] assms(2) by (simp add: comp_def)
  show "\<forall>t. time_t_main zone t = [''time_t = '' @ dec_int (int t) @ [NL], ''ctime  = '' @ ctime zone t] \<longleftrightarrow> t < 2147483648"
  proof
    fix t
    have "s32 (int t) = int t \<longleftrightarrow> t < 2147483648" using s32_id [of "int t"] s32_range(2) [of "int t"] by auto
    moreover have "dec_int (s32 (int t)) = dec_int (int t) \<longleftrightarrow> s32 (int t) = int t" using undec_dec_int by metis
    ultimately show "time_t_main zone t = [''time_t = '' @ dec_int (int t) @ [NL], ''ctime  = '' @ ctime zone t] \<longleftrightarrow> t < 2147483648"
      by (simp add: time_t_main_def)
  qed
qed

theorem ctime_programs_witness:
  "open_loop10 3 100 (replicate 256 NUL) (map (ctime 32400) [1790000000]) = Inr (open_line (ctime 32400 1790000000) 100) \<and>
   time_t_main 0 2147483648 \<noteq> [''time_t = 2147483648'' @ [NL], ''ctime  = '' @ ctime 0 2147483648]"
proof -
  have y: "\<forall>t \<in> set [1790000000]. tm_year (localtime 32400 t) < 10000"
    using year_of_2026 by (simp add: localtime_def gmtime_def Let_def case_prod_beta)
  have id: "s32 100 = 100" by (simp add: s32_id)
  have d: "dec_int (int 2147483648) = ''2147483648''" by (simp add: dec_int_def dec_nat.simps digit_chars)
  have l: "length (replicate 256 NUL) = 256" and fd: "0 \<le> (3::int)" by simp_all
  from ctime_programs [OF l fd y, of 100] have
    "open_loop10 3 100 (replicate 256 NUL) (map (ctime 32400) [1790000000]) = Inr (open_line (ctime 32400 1790000000) 100)"
    unfolding id by (elim conjE exE) simp
  moreover have "\<forall>t \<in> set []. tm_year (localtime 0 t) < 10000" by simp
  from ctime_programs [OF l fd this, of 100, THEN conjunct2, THEN spec, of 2147483648] have
    "time_t_main 0 2147483648 \<noteq> [''time_t = '' @ ''2147483648'' @ [NL], ''ctime  = '' @ ctime 0 2147483648]"
    unfolding d by blast
  ultimately show ?thesis by (simp only: append.simps simp_thms)
qed

end
