(* ===== verification/VirtBoard.thy ===== *)
theory VirtBoard
  imports VirtInt
begin

text \<open>
  The driver \<open>modules/virt-int.c\<close> on its board: the device node of \<open>dts/exboard.dtso\<close> it binds to, the
  pins it finds there, the two debugfs files with their modes and operations, and what happens when
  the interrupt arrives while the handler already runs for the trigger file.
\<close>

section \<open>The handler in steps\<close>

text \<open>
  A write to the trigger file calls the interrupt handler as a function, in the context of the
  writing process, with interrupts enabled and without a lock. Its loads and stores are steps of
  their own here, and the interrupt, whose handler is not interrupted itself, may come between any two of
  them. The value driven to the LED is the one just stored.
\<close>

datatype trigger_pc = TIdle | TLed | TDrive | TCount | TStore

record race =
  at :: trigger_pc
  reg :: int
  virt :: virt

datatype race_event = Irq | Step

fun next_pc :: "trigger_pc \<Rightarrow> trigger_pc" where
  "next_pc TIdle = TLed" | "next_pc TLed = TDrive" | "next_pc TDrive = TCount" | "next_pc TCount = TStore"
| "next_pc TStore = TIdle"

text \<open>One step: load the level, store it, drive the LED, load the counter, store it.\<close>

definition handler_step :: "race \<Rightarrow> race" where
  "handler_step r =
     (let s = virt r in
      case at r of
        TIdle \<Rightarrow> \<lparr>at = TLed, reg = ledlevel s, virt = s\<rparr>
      | TLed \<Rightarrow> \<lparr>at = TDrive, reg = s32 (1 - reg r), virt = s\<lparr>ledlevel := s32 (1 - reg r)\<rparr>\<rparr>
      | TDrive \<Rightarrow> \<lparr>at = TCount, reg = reg r, virt = (if gpio_led s then s\<lparr>led_out := reg r # led_out s\<rparr> else s)\<rparr>
      | TCount \<Rightarrow> \<lparr>at = TStore, reg = count s, virt = s\<rparr>
      | TStore \<Rightarrow> \<lparr>at = TIdle, reg = reg r, virt = s\<lparr>count := s32 (reg r + 1)\<rparr>\<rparr>)"

fun race_step :: "race_event \<Rightarrow> race \<Rightarrow> race" where
  "race_step Irq r = r\<lparr>virt := snd (irq_sw (virt r))\<rparr>"
| "race_step Step r = handler_step r"

definition race_start :: "virt \<Rightarrow> race" where
  "race_start s = \<lparr>at = TIdle, reg = 0, virt = s\<rparr>"

text \<open>Without an interrupt the five steps are the handler.\<close>

lemma five_steps: "virt (fold race_step (replicate 5 Step) (race_start s)) = snd (irq_sw s)"
  by (simp add: race_start_def handler_step_def irq_sw_def Let_def numeral_eq_Suc)

text \<open>How often a run passes the point \<open>q\<close>, and how many interrupts come just before it does: those
  between a load and the store that follows.\<close>

fun passes :: "trigger_pc \<Rightarrow> trigger_pc \<Rightarrow> race_event list \<Rightarrow> nat" where
  "passes q pc [] = 0"
| "passes q pc (Irq # es) = passes q pc es"
| "passes q pc (Step # es) = (if pc = q then 1 else 0) + passes q (next_pc pc) es"

fun lost :: "trigger_pc \<Rightarrow> trigger_pc \<Rightarrow> nat \<Rightarrow> race_event list \<Rightarrow> nat" where
  "lost q pc w [] = 0"
| "lost q pc w (Irq # es) = lost q pc (Suc w) es"
| "lost q pc w (Step # es) = (if pc = q then w else 0) + lost q (next_pc pc) 0 es"

definition irqs :: "race_event list \<Rightarrow> nat" where
  "irqs es = length (filter (\<lambda>e. e = Irq) es)"

lemma irqs_simps [simp]: "irqs [] = 0" "irqs (Irq # es) = Suc (irqs es)" "irqs (Step # es) = irqs es"
  by (simp_all add: irqs_def)

lemma s32_cong_add: "s32 a = s32 b \<Longrightarrow> s32 (a + c) = s32 (b + c)"
  by (metis s32_add_left)

lemma irq_sw_count: "count (snd (irq_sw s)) = s32 (count s + 1)" "ledlevel (snd (irq_sw s)) = s32 (1 - ledlevel s)"
  by (simp_all add: irq_sw_def Let_def)

lemma race_count:
  assumes "count (virt r) = s32 c" "at r = TStore \<Longrightarrow> s32 (reg r + int w) = s32 c"
  shows "count (virt (fold race_step es r)) =
    s32 (c + int (irqs es) + int (passes TStore (at r) es) - int (lost TStore (at r) w es))"
  using assms
proof (induction es arbitrary: r c w)
  case (Cons e es)
  show ?case
  proof (cases e)
    case Irq
    let ?r = "race_step Irq r"
    have "count (virt ?r) = s32 (c + 1)" using Cons.prems(1) by (simp add: irq_sw_count s32_add_left)
    moreover have "s32 (reg ?r + int (Suc w)) = s32 (c + 1)" if "at ?r = TStore"
      using s32_cong_add [OF Cons.prems(2), of 1] that by (simp add: algebra_simps)
    ultimately have "count (virt (fold race_step es ?r)) =
        s32 (c + 1 + int (irqs es) + int (passes TStore (at ?r) es) - int (lost TStore (at ?r) (Suc w) es))"
      by (rule Cons.IH)
    then show ?thesis by (simp add: Irq algebra_simps)
  next
    case Step
    let ?r = "race_step Step r" and ?c = "if at r = TStore then c + 1 - int w else c"
    have at: "at ?r = next_pc (at r)" by (cases "at r") (simp_all add: handler_step_def Let_def)
    have "count (virt ?r) = s32 ?c"
      using Cons.prems s32_cong_add [OF Cons.prems(2), of "1 - int w"]
      by (cases "at r") (simp_all add: handler_step_def Let_def algebra_simps)
    moreover have "s32 (reg ?r + int 0) = s32 ?c" if "at ?r = TStore"
      using that Cons.prems(1) at by (cases "at r") (simp_all add: handler_step_def Let_def s32_s32)
    ultimately have "count (virt (fold race_step es ?r)) =
        s32 (?c + int (irqs es) + int (passes TStore (at ?r) es) - int (lost TStore (at ?r) 0 es))"
      by (rule Cons.IH)
    then show ?thesis by (simp add: Step at [simplified] algebra_simps)
  qed
qed simp

definition level_of :: "int \<Rightarrow> int" where
  "level_of n = (1 + n) mod 2"

lemma level_flip: "s32 (1 - level_of n) = level_of (n + 1)"
proof -
  have "1 - level_of n = level_of (n + 1)" unfolding level_of_def by presburger
  moreover have "s32 (level_of (n + 1)) = level_of (n + 1)" unfolding level_of_def by (rule s32_id) simp_all
  ultimately show ?thesis by simp
qed

lemma race_level:
  assumes "ledlevel (virt r) = level_of n" "at r = TLed \<Longrightarrow> reg r = level_of (n - int w)"
  shows "ledlevel (virt (fold race_step es r)) =
    level_of (n + int (irqs es) + int (passes TLed (at r) es) - int (lost TLed (at r) w es))"
  using assms
proof (induction es arbitrary: r n w)
  case (Cons e es)
  show ?case
  proof (cases e)
    case Irq
    let ?r = "race_step Irq r"
    have "ledlevel (virt ?r) = level_of (n + 1)" using Cons.prems(1) by (simp add: irq_sw_count level_flip)
    moreover have "reg ?r = level_of (n + 1 - int (Suc w))" if "at ?r = TLed" using that Cons.prems(2) by simp
    ultimately have "ledlevel (virt (fold race_step es ?r)) =
        level_of (n + 1 + int (irqs es) + int (passes TLed (at ?r) es) - int (lost TLed (at ?r) (Suc w) es))"
      by (rule Cons.IH)
    then show ?thesis by (simp add: Irq algebra_simps)
  next
    case Step
    let ?r = "race_step Step r" and ?n = "if at r = TLed then n - int w + 1 else n"
    have at: "at ?r = next_pc (at r)" by (cases "at r") (simp_all add: handler_step_def Let_def)
    have "ledlevel (virt ?r) = level_of ?n"
      using Cons.prems level_flip [of "n - int w"] by (cases "at r") (simp_all add: handler_step_def Let_def)
    moreover have "reg ?r = level_of (?n - int 0)" if "at ?r = TLed"
      using that Cons.prems(1) at by (cases "at r") (simp_all add: handler_step_def Let_def)
    ultimately have "ledlevel (virt (fold race_step es ?r)) =
        level_of (?n + int (irqs es) + int (passes TLed (at ?r) es) - int (lost TLed (at ?r) 0 es))"
      by (rule Cons.IH)
    then show ?thesis by (simp add: Step at [simplified] algebra_simps)
  qed
qed simp

lemma lost_le: "lost q pc w es \<le> w + irqs es"
proof (induction q pc w es rule: lost.induct)
  case (3 q pc w es)
  then show ?case by (cases "pc = q") auto
qed simp_all

text \<open>
  C25: calling the handler by hand races with the interrupt. The counter has every interrupt and
  every call but the interrupts that came between the load and the store of a call by hand,
  and the LED level likewise; both are exact when none comes there. One that does is lost: after
  one interrupt and one call the counter can be 1.
\<close>

theorem virt_int_race:
  "(\<forall>es. let s = virt (fold race_step es (race_start (virt_start led))) in
      count s = s32 (int (irqs es) + int (passes TStore TIdle es) - int (lost TStore TIdle 0 es)) \<and>
      ledlevel s = (1 + int (irqs es) + int (passes TLed TIdle es) - int (lost TLed TIdle 0 es)) mod 2 \<and>
      lost TStore TIdle 0 es \<le> irqs es) \<and>
   (\<exists>es. irqs es = 1 \<and> passes TStore TIdle es = 1 \<and> count (virt (fold race_step es (race_start (virt_start led)))) = 1)"
proof
  show "\<forall>es. let s = virt (fold race_step es (race_start (virt_start led))) in
      count s = s32 (int (irqs es) + int (passes TStore TIdle es) - int (lost TStore TIdle 0 es)) \<and>
      ledlevel s = (1 + int (irqs es) + int (passes TLed TIdle es) - int (lost TLed TIdle 0 es)) mod 2 \<and>
      lost TStore TIdle 0 es \<le> irqs es"
  proof
    fix es
    have "count (virt (race_start (virt_start led))) = s32 0" "ledlevel (virt (race_start (virt_start led))) = level_of 0"
      by (simp_all add: race_start_def virt_start_def level_of_def s32_id)
    note c = race_count [OF this(1), of 0 es] race_level [OF this(2), of 0 es]
    show "let s = virt (fold race_step es (race_start (virt_start led))) in
      count s = s32 (int (irqs es) + int (passes TStore TIdle es) - int (lost TStore TIdle 0 es)) \<and>
      ledlevel s = (1 + int (irqs es) + int (passes TLed TIdle es) - int (lost TLed TIdle 0 es)) mod 2 \<and>
      lost TStore TIdle 0 es \<le> irqs es"
      using c lost_le [of TStore TIdle 0 es] by (simp add: race_start_def level_of_def algebra_simps)
  qed
  let ?es = "[Step, Step, Step, Step, Irq, Step]"
  have "count (virt (fold race_step ?es (race_start (virt_start led)))) = 1"
    by (simp add: race_start_def handler_step_def virt_start_def Let_def s32_id)
  then show "\<exists>es. irqs es = 1 \<and> passes TStore TIdle es = 1 \<and> count (virt (fold race_step es (race_start (virt_start led)))) = 1"
    by (intro exI [of _ ?es]) simp
qed

section \<open>The board\<close>

text \<open>
  The node \<open>exboard\<close> of \<open>dts/exboard.dtso\<close>: its compatible string and, for each property of pins, the
  pins with their flag \<open>GPIO_ACTIVE_LOW\<close>.
\<close>

record of_node =
  compatible :: string
  pin_props :: "(string \<times> (nat \<times> bool) list) list"

definition exboard :: of_node where
  "exboard = \<lparr>compatible = ''shmz,exboard'', pin_props =
     [(''ex_sw-gpios'', [(8, True), (9, True)]),
      (''ex_led-gpios'', [(10, False), (11, False)]),
      (''ex_disp-gpios'', [(12, False), (13, False)]),
      (''ex_seg-gpios'', map (\<lambda>i. (i, False)) [0..<8])]\<rparr>"

definition gpio_dt_ids :: "string list" where
  "gpio_dt_ids = [''shmz,exboard'']"

definition of_match :: "of_node \<Rightarrow> bool" where
  "of_match node \<longleftrightarrow> compatible node \<in> set gpio_dt_ids"

text \<open>\<open>devm_gpiod_get_index\<close>: the pin of the property with the suffix \<open>-gpios\<close>, if the controller has it to give.\<close>

definition gpiod_get_index :: "of_node \<Rightarrow> (nat \<Rightarrow> bool) \<Rightarrow> string \<Rightarrow> nat \<Rightarrow> (nat \<times> bool) option" where
  "gpiod_get_index node free con i =
     (case map_of (pin_props node) (con @ ''-gpios'') of None \<Rightarrow> None
      | Some pins \<Rightarrow> if i < length pins \<and> free (fst (pins ! i)) then Some (pins ! i) else None)"

text \<open>
  The probe with its descriptors looked up: the two pins, and the result of \<open>my_probe\<close>. \<open>e\<close> has the
  answers of the other calls; a node that does not match is not probed.
\<close>

definition desc_of :: "'a option \<Rightarrow> kptr" where
  "desc_of d = (if d = None then ErrPtr (- 2) else Ptr)"

record board =
  led_pin :: "(nat \<times> bool) option"
  sw_pin :: "(nat \<times> bool) option"
  bound :: bool
  line_irq :: int

definition board_probe :: "of_node \<Rightarrow> (nat \<Rightarrow> bool) \<Rightarrow> probe_env \<Rightarrow> board option" where
  "board_probe node free e =
     (if \<not> of_match node then None
      else let led = gpiod_get_index node free ''ex_led'' 0; sw = gpiod_get_index node free ''ex_sw'' 0 in
        case virt_my_probe (e\<lparr>led_desc := desc_of led, sw_desc := desc_of sw\<rparr>) of
          (r, irq, _, _) \<Rightarrow> Some \<lparr>led_pin = led, sw_pin = sw, bound = (r = 0), line_irq = irq\<rparr>)"

section \<open>The debugfs files\<close>

text \<open>
  A file: its mode, and which of the two operations its table has (\<open>open\<close> and \<open>llseek\<close> are the
  library's). The files belong to root, whom the mode does not bind.
\<close>

record dfile =
  mode :: nat
  fo_read :: bool
  fo_write :: bool

definition trigger_file :: dfile where
  "trigger_file = \<lparr>mode = 2 * 64, fo_read = False, fo_write = True\<rparr>"

definition count_file :: dfile where
  "count_file = \<lparr>mode = 4 * 64, fo_read = True, fo_write = False\<rparr>"

datatype dname = Trigger | Count

definition dfile_of :: "dname \<Rightarrow> dfile" where
  "dfile_of f = (case f of Trigger \<Rightarrow> trigger_file | Count \<Rightarrow> count_file)"

datatype dcall = DRead int int | DWrite "char list"

definition EACCES :: int where "EACCES = 13"

definition may_open :: "bool \<Rightarrow> dcall \<Rightarrow> dfile \<Rightarrow> bool" where
  "may_open root c d \<longleftrightarrow> root \<or> odd (mode d div (case c of DRead _ _ \<Rightarrow> 4 | DWrite _ \<Rightarrow> 2))"

text \<open>One call on a file just opened for it: the result, the bytes handed out, and the driver. An operation
  the table does not have is refused by the kernel.\<close>

type_synonym sreader = "int \<Rightarrow> int \<Rightarrow> char list \<Rightarrow> int \<times> char list \<times> int"

definition debugfs_call :: "kapi \<Rightarrow> sreader \<Rightarrow> char list \<Rightarrow> char list \<Rightarrow> bool \<Rightarrow> dname \<Rightarrow> dcall \<Rightarrow> virt \<Rightarrow> (int \<times> char list \<times> virt) res" where
  "debugfs_call K rd stack8 stack32 root f c s =
     (if \<not> may_open root c (dfile_of f) then Inr (- EACCES, [], s)
      else case c of
        DRead len pos \<Rightarrow> if fo_read (dfile_of f)
          then and_then (count_read rd stack32 s len pos) (\<lambda>(r, bs, _). Inr (r, bs, s)) else Inr (- EINVAL, [], s)
      | DWrite u \<Rightarrow> if fo_write (dfile_of f)
          then and_then (trigger_write K stack8 s u) (\<lambda>(r, s). Inr (r, [], s)) else Inr (- EINVAL, [], s))"

section \<open>The switch and the LED\<close>

text \<open>
  What happens to the bound driver: the switch pin goes high or low, or somebody uses a file. A falling
  edge of the pin interrupts. \<open>high\<close> is the level of the pin before.
\<close>

datatype board_event = Pin bool | File bool dname dcall

fun board_run :: "kapi \<Rightarrow> sreader \<Rightarrow> char list \<Rightarrow> char list \<Rightarrow> bool \<Rightarrow> virt \<Rightarrow> board_event list \<Rightarrow> virt res" where
  "board_run K rd b8 b32 high s [] = Inr s"
| "board_run K rd b8 b32 high s (Pin l # es) = board_run K rd b8 b32 l (if high \<and> \<not> l then snd (irq_sw s) else s) es"
| "board_run K rd b8 b32 high s (File root f c # es) =
     and_then (debugfs_call K rd b8 b32 root f c s) (\<lambda>(_, _, s). board_run K rd b8 b32 high s es)"

text \<open>The level of the LED pin: what was driven last, and the low level it was requested with before.\<close>

definition led_level :: "board \<Rightarrow> virt \<Rightarrow> bool option" where
  "led_level b s = map_option (\<lambda>(_, low). (hd (led_out s @ [0]) \<noteq> 0) \<noteq> low) (led_pin b)"

text \<open>The events that reach the handler.\<close>

fun presses :: "kapi \<Rightarrow> bool \<Rightarrow> board_event list \<Rightarrow> nat" where
  "presses K high [] = 0"
| "presses K high (Pin l # es) = (if high \<and> \<not> l then 1 else 0) + presses K l es"
| "presses K high (File root f c # es) =
     (if root \<and> f = Trigger \<and> (\<exists>u. c = DWrite u \<and> counts K (TriggerFile u)) then 1 else 0) + presses K high es"

fun board_event_ok :: "board_event \<Rightarrow> bool" where
  "board_event_ok (File root f (DWrite u)) \<longleftrightarrow> int (length u) < 4294967296"
| "board_event_ok (File root f (DRead len pos)) \<longleftrightarrow> 0 \<le> len \<and> 0 \<le> pos"
| "board_event_ok (Pin l) \<longleftrightarrow> True"

lemma count_read_returns:
  assumes "length stack = 32" "count s = s32 k"
  shows "\<exists>x. count_read f stack s len pos = Inr x"
proof -
  define line where "line = dec_int (count s) @ [NL]"
  have len: "length line \<le> 12" using length_dec_int_s32 [of k] by (simp add: line_def assms(2))
  then have st: "snprintf_stored 32 line = line" by (simp add: snprintf_stored_def)
  have "mem_write stack 0 (line @ [NUL]) = Inr (overlay stack 0 (line @ [NUL]))"
    using len assms(1) by (simp add: mem_write_def)
  moreover have "mem_read (overlay stack 0 (line @ [NUL])) 0 (int (length line)) = Inr line"
    using len assms(1) by (simp add: mem_read_def) (simp add: overlay_def)
  ultimately have "count_read f stack s len pos = Inr (f len pos line)"
    by (simp add: count_read_def st Let_def flip: line_def)
  then show ?thesis by blast
qed

lemma debugfs_call_effect:
  assumes "kapi_doc K" "length b8 = 8" "length b32 = 32" "board_event_ok (File root f c)" "count s = s32 k"
  shows "\<exists>r bs. debugfs_call K rd b8 b32 root f c s = Inr (r, bs,
    if root \<and> f = Trigger \<and> (\<exists>u. c = DWrite u \<and> counts K (TriggerFile u)) then snd (irq_sw s) else s) \<and>
    (\<not> root \<longrightarrow> r = - EACCES)"
proof (cases c)
  case (DRead len pos)
  obtain r bs p where "count_read rd b32 s len pos = Inr (r, bs, p)"
    using count_read_returns [OF assms(3,5), of rd len pos] by auto
  then show ?thesis
    by (cases f) (auto simp: debugfs_call_def DRead may_open_def dfile_of_def trigger_file_def count_file_def)
next
  case (DWrite u)
  with assms(4) have "int (length u) < 4294967296" by simp
  from trigger_write_result [OF assms(1,2) this, of s] show ?thesis
    by (cases f) (auto simp: debugfs_call_def DWrite may_open_def dfile_of_def trigger_file_def count_file_def)
qed

lemma board_run_toggles:
  assumes "kapi_doc K" "length b8 = 8" "length b32 = 32"
  shows "\<forall>e \<in> set es. board_event_ok e \<Longrightarrow>
    board_run K rd b8 b32 high (toggled led n) es = Inr (toggled led (n + presses K high es))"
proof (induction es arbitrary: n high)
  case (Cons e es)
  show ?case
  proof (cases e)
    case (Pin l)
    with Cons show ?thesis by (simp add: irq_sw_toggled)
  next
    case (File root f c)
    have "count (toggled led n) = s32 (int n)" by (simp add: toggled_def)
    define hit where "hit \<longleftrightarrow> root \<and> f = Trigger \<and> (\<exists>u. c = DWrite u \<and> counts K (TriggerFile u))"
    have "board_event_ok (File root f c)" using Cons.prems by (simp add: File)
    from debugfs_call_effect [OF assms this \<open>count (toggled led n) = s32 (int n)\<close>, of rd, folded hit_def] obtain r bs where
      "debugfs_call K rd b8 b32 root f c (toggled led n) = Inr (r, bs, toggled led (n + (if hit then 1 else 0)))"
      by (auto simp: irq_sw_toggled)
    moreover have "presses K high (e # es) = (if hit then 1 else 0) + presses K high es" unfolding File presses.simps hit_def by (rule refl)
    ultimately show ?thesis using Cons by (simp add: File add.assoc)
  qed
qed simp

lemma led_after_toggles: "hd (led_out (toggled True n) @ [0]) \<noteq> 0 \<longleftrightarrow> n \<noteq> 0 \<and> even n"
  by (cases n) (auto simp: toggled_def)

text \<open>
  C24: the driver on the board of \<open>exboard.dtso\<close>. It binds to the node and gets pin 10, active high, for
  its LED and pin 8, active low, for its switch. In any history of the switch and of the two
  debugfs files the count is the number of presses (falling edges) plus the accepted writes of
  root to the trigger file; nobody else's call has an effect. The LED is dark until the second
  event, and then lit after every even number. Each run of the handler is one step here; what an
  interrupt does in the middle of a call by hand is the next property.
\<close>

theorem exboard_switch_led:
  assumes "kapi_doc K" "length b8 = 8" "length b32 = 32" "\<forall>ev \<in> set es. board_event_ok ev"
    and "0 < gpiod_to_irq e" "request_irq e = 0"
  shows "\<exists>b s n. board_probe exboard (\<lambda>_. True) e = Some b \<and> bound b \<and> led_pin b = Some (10, False) \<and> sw_pin b = Some (8, True) \<and>
    board_run K rd b8 b32 True (virt_start True) es = Inr s \<and> n = presses K True es \<and>
    count s = s32 (int n) \<and> led_level b s = Some (n \<noteq> 0 \<and> even n)"
proof -
  have pins: "gpiod_get_index exboard (\<lambda>_. True) ''ex_led'' 0 = Some (10, False)"
    "gpiod_get_index exboard (\<lambda>_. True) ''ex_sw'' 0 = Some (8, True)"
    by (simp_all add: gpiod_get_index_def exboard_def)
  have "of_match exboard" by (simp add: of_match_def gpio_dt_ids_def exboard_def)
  then have b: "board_probe exboard (\<lambda>_. True) e = Some \<lparr>led_pin = Some (10, False), sw_pin = Some (8, True), bound = True, line_irq = gpiod_to_irq e\<rparr>"
    using assms(5,6) by (simp add: board_probe_def pins virt_my_probe_def desc_of_def Let_def)
  have "virt_start True = toggled True 0" by (simp add: virt_start_def toggled_def s32_id)
  then have run: "board_run K rd b8 b32 True (virt_start True) es = Inr (toggled True (presses K True es))"
    using board_run_toggles [OF assms(1-4), of rd True True 0] by simp
  have "count (toggled True n) = s32 (int n)" for n by (simp add: toggled_def)
  moreover have "led_level \<lparr>led_pin = Some (10, False), sw_pin = Some (8, True), bound = True, line_irq = gpiod_to_irq e\<rparr> (toggled True n) =
      Some (n \<noteq> 0 \<and> even n)" for n
    using led_after_toggles [of n] by (auto simp: led_level_def)
  ultimately show ?thesis using b run by auto
qed

theorem exboard_switch_led_witness:
  "\<exists>b s. board_probe exboard (\<lambda>_. True) (no_hardware\<lparr>gpiod_to_irq := 9\<rparr>) = Some b \<and>
     board_run plain_kapi simple_read (replicate 8 NUL) (replicate 32 NUL) True (virt_start True)
       [Pin False, Pin True, File False Trigger (DWrite ''1''), File True Count (DRead 64 0), File True Trigger (DWrite ''1'')] = Inr s \<and>
     count s = 2 \<and> led_level b s = Some True"
proof -
  let ?es = "[Pin False, Pin True, File False Trigger (DWrite ''1''), File True Count (DRead 64 0), File True Trigger (DWrite ''1'')]"
  have p: "presses plain_kapi True ?es = 2" by (simp add: plain_kapi_def)
  have "\<forall>ev \<in> set ?es. board_event_ok ev" by simp
  from exboard_switch_led [OF plain_kapi_doc _ _ this, of "replicate 8 NUL" "replicate 32 NUL" "no_hardware\<lparr>gpiod_to_irq := 9\<rparr>" simple_read]
  show ?thesis unfolding p by (auto simp: no_hardware_def s32_id)
qed

end
