(* ===== verification/PrintPrograms.thy ===== *)
theory PrintPrograms
  imports Timers ClockPrograms Calendar
begin

text \<open>
  Programs whose purpose is what they print: the accuracy test on its timer
  (\<open>C/timer_accuracy.c\<close> and its copy \<open>timer_acculacy.c\<close>), the lines of the timer handlers with their dates
  (\<open>C/posix_timer.c\<close>, \<open>posix_timer2.c\<close>), the addresses of \<open>C/mem_disp.c\<close>, and \<open>C/rdcycle.c\<close> and \<open>C/hello.c\<close>.
\<close>

section \<open>The accuracy test on its timer\<close>

definition timer_accuracy_main :: "tcall list" where
  "timer_accuracy_main = [Sigaction SIGRTMIN, Timer_create MONOTONIC (Signal SIGRTMIN), Timer_settime 0 1000000 0 1000000]"

text \<open>\<open>timer_acculacy.c\<close> is the same text.\<close>

definition timer_acculacy_main :: "tcall list" where
  "timer_acculacy_main = timer_accuracy_main"

definition acculacy_handler :: "timespec \<Rightarrow> timespec \<Rightarrow> int \<times> timespec" where
  "acculacy_handler prev now = accuracy_handler prev now"

lemma timer_accuracy_runs: "timer_run timer_accuracy_main ss = Some (deliveries 1000000 1000000 0 ss)"
  by (simp add: timer_run_def after_calls_def timer_accuracy_main_def ns_of_def)

lemma accuracy_run_prefix:
  "k \<le> length nows \<Longrightarrow> take k (accuracy_run prev nows) = accuracy_run prev (take k nows)"
proof (induction nows arbitrary: prev k)
  case (Cons now nows)
  then show ?case by (cases k) (simp_all add: accuracy_handler_def)
qed simp

lemma zip_prefix: "zip (x # take k ys) (take k ys) = take k (zip (x # ys) ys)"
proof (induction ys arbitrary: x k)
  case (Cons y ys)
  then show ?case by (cases k) simp_all
qed simp

text \<open>
  The timer is armed for the instant 0, before which \<open>prev\<close> was sampled; the handler samples the clock
  at or after the instant it runs at. Then the intervals printed first add up to at least as many
  milliseconds as they are, however late the process gets the processor: the timer does not
  gain. A single interval may be shorter, after one that was late.
\<close>

lemma accuracy_no_gain:
  assumes run: "timer_run timer_accuracy_main ss = Some ds" and len: "length nows = length ds"
    and late: "\<forall>k < length ds. ds ! k \<le> ns_of (nows ! k)" and prev: "ns_of prev \<le> 0"
    and small: "\<forall>(a, b) \<in> set (zip (prev # nows) nows). \<bar>ns_of b - ns_of a\<bar> < 2147483648"
    and k: "k < length ds"
  shows "1000000 * (int k + 1) \<le> sum_list (take (Suc k) (accuracy_run prev nows))"
proof -
  have ds: "ds = deliveries 1000000 1000000 0 ss" using run by (simp add: timer_accuracy_runs)
  have "1000000 + int k * 1000000 \<le> ds ! k" using deliveries_at [of 1000000 k 1000000 0 ss] k by (simp add: ds)
  then have at: "1000000 * (int k + 1) \<le> ns_of (nows ! k)" using late k by (simp add: algebra_simps) (meson order_trans)
  let ?ns = "take (Suc k) nows"
  have "set (zip (prev # ?ns) ?ns) \<subseteq> set (zip (prev # nows) nows)"
  proof -
    have "zip (prev # ?ns) ?ns = take (Suc k) (zip (prev # nows) nows)" by (rule zip_prefix)
    then show ?thesis by (metis set_take_subset)
  qed
  then have "sum_list (accuracy_run prev ?ns) = ns_of (last (prev # ?ns)) - ns_of prev"
    using accuracy_run_exact [of prev ?ns] small by blast
  moreover have "last (prev # ?ns) = nows ! k" using k len by (simp add: last_conv_nth take_Suc_conv_app_nth)
  ultimately show ?thesis using at prev accuracy_run_prefix [of "Suc k" nows prev] k len by simp
qed

section \<open>Lines with a date\<close>

text \<open>\<open>ptr\<close> is the text of the pointer in the C library.\<close>

definition fired_line :: "string \<Rightarrow> int \<Rightarrow> nat \<Rightarrow> string" where
  "fired_line ptr zone t = ''POSIX timer fired (id='' @ ptr @ '') '' @ ctime zone t @ [NL]"

definition fired_line2 :: "string \<Rightarrow> int \<Rightarrow> nat \<Rightarrow> string" where
  "fired_line2 ptr zone t = ''POSIX timer fired (id='' @ ptr @ '') '' @ ctime zone t @ [NL]"

definition thread_line :: "string \<Rightarrow> string" where
  "thread_line ptr = ''Timer expired! (id='' @ ptr @ '')'' @ [NL]"

text \<open>Each firing prints an empty line as well.\<close>

lemma fired_line_ends:
  assumes "tm_year (localtime zone t) < 10000"
  shows "fired_line2 = fired_line" "\<exists>s. fired_line ptr zone t = s @ [NL, NL]"
  using ctime_shape [OF assms] by (auto simp: fired_line_def fired_line2_def fun_eq_iff)

section \<open>Addresses\<close>

text \<open>\<open>%010p\<close> of a 32-bit address: eight digits behind the prefix.\<close>

definition ptr_text :: "nat \<Rightarrow> string" where
  "ptr_text a = ''0x'' @ hex8 a"

definition mem_disp_names :: "string list" where
  "mem_disp_names = [''main@'', ''array_bss@'', ''array_data@'', ''argc@'', ''argv@'', ''var_auto@'', ''var_auto_ini@'',
     ''var_static@'', ''var_static_ini@'', ''p1='', ''p2='']"

definition mem_disp_main :: "(string \<Rightarrow> nat) \<Rightarrow> string list" where
  "mem_disp_main addr = map (\<lambda>n. n @ ptr_text (addr n) @ [NL]) mem_disp_names"

text \<open>Every address can be read back from its line: the field has its width whatever the address.\<close>

lemma mem_disp_readable:
  assumes "\<forall>n. addr n < 4294967296" "i < length mem_disp_names"
  shows "unhex (take 8 (drop (length (mem_disp_names ! i) + 2) (mem_disp_main addr ! i))) = addr (mem_disp_names ! i)"
proof -
  have "length (hex8 a) = 8" for a by (simp add: hex8_def)
  then show ?thesis using assms by (simp add: mem_disp_main_def ptr_text_def unhex_hex8)
qed

section \<open>A counter and a greeting\<close>

text \<open>\<open>rdcycle\<close> gives the low 32 bits of the counter on this target.\<close>

definition rdcycle_main :: "nat \<Rightarrow> string" where
  "rdcycle_main cycles = ''Current cycle count: '' @ dec_int (u32 (int cycles)) @ [NL]"

definition hello_main :: string where
  "hello_main = ''Hello world'' @ [NL]"

lemma rdcycle_exact: "rdcycle_main c = ''Current cycle count: '' @ dec_int (int c) @ [NL] \<longleftrightarrow> c < 4294967296"
proof -
  have "u32 (int c) = int c \<longleftrightarrow> c < 4294967296" using u32_id [of "int c"] u32_range(2) [of "int c"] by auto
  moreover have "dec_int (u32 (int c)) = dec_int (int c) \<longleftrightarrow> u32 (int c) = int c" using undec_dec_int by metis
  ultimately show ?thesis by (simp add: rdcycle_main_def)
qed

end
